(* ===== verification/Gw_Prelude.thy ===== *)
theory Gw_Prelude
  imports Main "HOL-Library.State_Monad" "HOL-Library.Word"
begin

text \<open>
  Shared vocabulary of the development: Go's 64-bit integers and durations, points in
  time, Go values that a panic may replace, error values, stateful code as
  \<open>HOL-Library.State_Monad\<close> computations with a small Hoare logic, and reachability for
  step relations.
\<close>

section \<open>Lemma collections\<close>

text \<open>
  \<open>go_arith\<close> holds the equations of fixed-width arithmetic, \<open>wp\<close> the rules of the
  Hoare logic, \<open>run\<close> the equations that run a stateful computation one step.
\<close>

named_theorems go_arith
named_theorems wp
named_theorems run

section \<open>Go integers\<close>

text \<open>
  Go's \<open>int\<close> and \<open>int64\<close> (and so \<open>time.Duration\<close>) are 64-bit two's complement. Their
  values are kept as \<open>int\<close>, and every operation that can leave the range goes through
  \<open>wrap64\<close>. \<open>wrap64_word\<close> ties it to the word library.
\<close>

definition wrap64 :: "int \<Rightarrow> int" where
  "wrap64 x = (x + 2 ^ 63) mod 2 ^ 64 - 2 ^ 63"

definition in64 :: "int \<Rightarrow> bool" where
  "in64 x \<longleftrightarrow> - (2 ^ 63) \<le> x \<and> x < 2 ^ 63"

lemma wrap64_id [go_arith]: "in64 x \<Longrightarrow> wrap64 x = x"
  by (simp add: wrap64_def in64_def)

lemma in64_wrap64 [simp]: "in64 (wrap64 x)"
  by (simp add: wrap64_def in64_def)

lemma wrap64_idem [simp]: "wrap64 (wrap64 x) = wrap64 x"
  by (simp add: wrap64_id)

lemma wrap64_word: "wrap64 x = sint (word_of_int x :: 64 word)"
proof -
  have "sint (word_of_int x :: 64 word) = signed_take_bit 63 x"
    by (simp add: sint_sbintrunc')
  also have "\<dots> = (x + 2 ^ 63) mod 2 ^ 64 - 2 ^ 63"
    by (simp add: signed_take_bit_eq_take_bit_shift take_bit_eq_mod)
  finally show ?thesis by (simp add: wrap64_def)
qed

text \<open>Go's integer division truncates towards zero.\<close>

definition quot :: "int \<Rightarrow> int \<Rightarrow> int" where
  "quot a b = sgn a * sgn b * (\<bar>a\<bar> div \<bar>b\<bar>)"

lemma quot_nonneg: "0 \<le> a \<Longrightarrow> 0 < b \<Longrightarrow> quot a b = a div b"
  by (cases "a = 0") (simp_all add: quot_def)

section \<open>Durations and points in time\<close>

text \<open>
  A \<open>time.Duration\<close> counts nanoseconds. A \<open>time.Time\<close> is its distance from the Unix epoch
  in nanoseconds; its range is far larger than a duration's, so adding a duration is exact,
  while \<open>Sub\<close> saturates. The monotonic clock reading that \<open>time.Now\<close> carries is taken to
  agree with the wall clock. The zero \<open>time.Time\<close> is 1 January of year 1.
\<close>

type_synonym duration = int
type_synonym time = int

abbreviation millisecond :: duration where "millisecond \<equiv> 1000000"
abbreviation second :: duration where "second \<equiv> 1000000000"

definition dur_mul :: "int \<Rightarrow> duration \<Rightarrow> duration" where
  "dur_mul n d = wrap64 (n * d)"

definition dur_add :: "duration \<Rightarrow> duration \<Rightarrow> duration" where
  "dur_add a b = wrap64 (a + b)"

definition zero_time :: time where
  "zero_time = - 62135596800 * second"

definition isZero :: "time \<Rightarrow> bool" where
  "isZero t \<longleftrightarrow> t = zero_time"

definition sub_time :: "time \<Rightarrow> time \<Rightarrow> duration" where
  "sub_time a b = (if a - b < - (2 ^ 63) then - (2 ^ 63)
                   else if 2 ^ 63 - 1 < a - b then 2 ^ 63 - 1 else a - b)"

text \<open>\<open>UnixMilli\<close> of a time, and the time of a number of milliseconds.\<close>

definition unix_milli :: "time \<Rightarrow> int" where
  "unix_milli t = wrap64 (t div millisecond)"

definition time_of_milli :: "int \<Rightarrow> time" where
  "time_of_milli m = m * millisecond"

lemma dur_mul_exact [go_arith]: "in64 (n * d) \<Longrightarrow> dur_mul n d = n * d"
  by (simp add: dur_mul_def wrap64_id)

lemma dur_add_exact [go_arith]: "in64 (a + b) \<Longrightarrow> dur_add a b = a + b"
  by (simp add: dur_add_def wrap64_id)

lemma sub_time_pos_iff: "0 < sub_time a b \<longleftrightarrow> b < a"
  by (auto simp: sub_time_def)

section \<open>Errors and panics\<close>

text \<open>
  \<open>LibErr\<close> is an error made outside the repository, \<open>Msg\<close> one made by \<open>fmt.Errorf\<close> or
  \<open>errors.New\<close> without a cause, \<open>Wrap\<close> one that wraps a cause with the verb \<open>%w\<close>.
\<close>

datatype goerr = LibErr string | Msg string | Wrap string goerr

text \<open>A call returns or panics; a panic runs the deferred calls and unwinds.\<close>

datatype 'a go = Ret 'a | Panic

section \<open>Stateful code\<close>

abbreviation ret :: "'a \<Rightarrow> ('s, 'a) state" where
  "ret \<equiv> State_Monad.return"

text \<open>Run a computation to its final state.\<close>

definition exec :: "('s, 'a) state \<Rightarrow> 's \<Rightarrow> 's" where
  "exec m s = snd (run_state m s)"

definition result :: "('s, 'a) state \<Rightarrow> 's \<Rightarrow> 'a" where
  "result m s = fst (run_state m s)"

lemma run_state_eq: "run_state m s = (result m s, exec m s)"
  by (simp add: result_def exec_def)

lemma exec_return [run]: "exec (ret x) s = s"
  and result_return [run]: "result (ret x) s = x"
  by (simp_all add: result_def exec_def)

lemma exec_bind [run]: "exec (Monad_Syntax.bind m f) s = exec (f (result m s)) (exec m s)"
  and result_bind [run]: "result (Monad_Syntax.bind m f) s = result (f (result m s)) (exec m s)"
  by (simp_all add: result_def exec_def split: prod.split)

text \<open>
  Total correctness is all there is (a computation is a function): \<open>triple P m Q\<close> says that
  from a state with \<open>P\<close> the computation ends with \<open>Q\<close> of its value and the final state.
\<close>

definition triple :: "('s \<Rightarrow> bool) \<Rightarrow> ('s, 'a) state \<Rightarrow> ('a \<Rightarrow> 's \<Rightarrow> bool) \<Rightarrow> bool" where
  "triple P m Q \<longleftrightarrow> (\<forall>s. P s \<longrightarrow> Q (result m s) (exec m s))"

lemma tripleI: "(\<And>s. P s \<Longrightarrow> Q (result m s) (exec m s)) \<Longrightarrow> triple P m Q"
  by (simp add: triple_def)

lemma tripleD: "triple P m Q \<Longrightarrow> P s \<Longrightarrow> Q (result m s) (exec m s)"
  by (simp add: triple_def)

lemma triple_runD: "triple P m Q \<Longrightarrow> P s \<Longrightarrow> run_state m s = (a, t) \<Longrightarrow> Q a t"
  by (fastforce simp: triple_def result_def exec_def)

lemma triple_return [wp]: "(\<And>s. P s \<Longrightarrow> Q x s) \<Longrightarrow> triple P (ret x) Q"
  by (simp add: triple_def result_def exec_def)

lemma triple_bind:
  assumes "triple P m R" and "\<And>a. triple (R a) (f a) Q"
  shows "triple P (Monad_Syntax.bind m f) Q"
  using assms by (fastforce simp: triple_def result_def exec_def split: prod.splits)

lemma triple_conseq:
  assumes "triple P' m Q'" and "\<And>s. P s \<Longrightarrow> P' s" and "\<And>a s. Q' a s \<Longrightarrow> Q a s"
  shows "triple P m Q"
  using assms by (simp add: triple_def)

lemma triple_conj:
  assumes "triple P m Q" and "triple P m R"
  shows "triple P m (\<lambda>a s. Q a s \<and> R a s)"
  using assms by (simp add: triple_def)

lemma triple_pre_fact: "(F \<Longrightarrow> triple P m Q) \<Longrightarrow> triple (\<lambda>s. F \<and> P s) m Q"
  by (simp add: triple_def)

section \<open>Invariants of computations\<close>

text \<open>\<open>keeps I m\<close>: whatever the computation does, a state with \<open>I\<close> ends in one with \<open>I\<close>.\<close>

definition keeps :: "('s \<Rightarrow> bool) \<Rightarrow> ('s, 'a) state \<Rightarrow> bool" where
  "keeps I m \<longleftrightarrow> (\<forall>s. I s \<longrightarrow> I (exec m s))"

lemma keepsI: "(\<And>s. I s \<Longrightarrow> I (exec m s)) \<Longrightarrow> keeps I m"
  by (simp add: keeps_def)

lemma keepsD: "keeps I m \<Longrightarrow> I s \<Longrightarrow> I (exec m s)"
  by (simp add: keeps_def)

lemma keeps_return [wp]: "keeps I (ret x)"
  by (simp add: keeps_def exec_def)

lemma keeps_bind [wp]: "keeps I m \<Longrightarrow> (\<And>a. keeps I (f a)) \<Longrightarrow> keeps I (Monad_Syntax.bind m f)"
  by (fastforce simp: keeps_def exec_def split: prod.splits)

lemma keeps_if [wp]: "(b \<Longrightarrow> keeps I m) \<Longrightarrow> (\<not> b \<Longrightarrow> keeps I n) \<Longrightarrow> keeps I (if b then m else n)"
  by simp

lemma keeps_case_option [wp]:
  "(x = None \<Longrightarrow> keeps I m) \<Longrightarrow> (\<And>y. x = Some y \<Longrightarrow> keeps I (f y)) \<Longrightarrow> keeps I (case_option m f x)"
  by (cases x) auto

lemma keeps_case_sum [wp]:
  "(\<And>y. x = Inl y \<Longrightarrow> keeps I (f y)) \<Longrightarrow> (\<And>y. x = Inr y \<Longrightarrow> keeps I (g y)) \<Longrightarrow> keeps I (case_sum f g x)"
  by (cases x) auto

lemma keeps_case_prod [wp]: "(\<And>y z. x = (y, z) \<Longrightarrow> keeps I (f y z)) \<Longrightarrow> keeps I (case_prod f x)"
  by (cases x) auto

lemma keeps_case_go [wp]:
  "(\<And>y. x = Ret y \<Longrightarrow> keeps I (f y)) \<Longrightarrow> (x = Panic \<Longrightarrow> keeps I m) \<Longrightarrow> keeps I (case_go f m x)"
  by (cases x) auto

lemma keeps_case_bool [wp]: "(b \<Longrightarrow> keeps I m) \<Longrightarrow> (\<not> b \<Longrightarrow> keeps I n) \<Longrightarrow> keeps I (case_bool m n b)"
  by (cases b) auto

lemma keeps_let [wp]: "(\<And>y. y = x \<Longrightarrow> keeps I (f y)) \<Longrightarrow> keeps I (Let x f)"
  by simp

section \<open>Step relations\<close>

text \<open>The states a system reaches from its start states.\<close>

inductive reaches :: "('s \<Rightarrow> bool) \<Rightarrow> ('s \<Rightarrow> 's \<Rightarrow> bool) \<Rightarrow> 's \<Rightarrow> bool" for start step where
  reach_start: "start s \<Longrightarrow> reaches start step s"
| reach_step: "reaches start step s \<Longrightarrow> step s t \<Longrightarrow> reaches start step t"

text \<open>
  The contract between a system and its invariant. Whoever discharges the two laws gets
  that the invariant holds in every reachable state.
\<close>

locale inductive_invariant =
  fixes start :: "'s \<Rightarrow> bool"
    and step :: "'s \<Rightarrow> 's \<Rightarrow> bool"
    and good :: "'s \<Rightarrow> bool"
  assumes good_start: "start s \<Longrightarrow> good s"
    and good_step: "good s \<Longrightarrow> step s t \<Longrightarrow> good t"
begin

lemma reaches_good: "reaches start step s \<Longrightarrow> good s"
  by (induction rule: reaches.induct) (auto intro: good_start good_step)

lemma steps_good: "step\<^sup>*\<^sup>* s t \<Longrightarrow> good s \<Longrightarrow> good t"
  by (induction rule: rtranclp_induct) (auto intro: good_step)

end

lemma reaches_steps: "reaches start step s \<Longrightarrow> step\<^sup>*\<^sup>* s t \<Longrightarrow> reaches start step t"
  by (rotate_tac, induction rule: rtranclp_induct) (auto intro: reach_step)

end
