(* ===== verification/Float64.thy ===== *)
theory Float64
  imports Complex_Main "HOL-Library.Log_Nat" Gw_Prelude
begin

text \<open>
  Go's \<open>float64\<close> (IEEE 754 binary64) on the finite values the program computes with. A
  float is the rational number it denotes and every operation rounds its exact result with
  \<open>rnd\<close>: to the nearest number with a 53-bit significand, ties to even, with gradual
  underflow. The exponent is unbounded above; where a result could pass the largest finite
  float, the code converts it to an integer, and the value of that conversion is then
  left to the platform (\<open>f64_to_i64\<close>).
\<close>

type_synonym f64 = rat

section \<open>Rounding to an integer, ties to even\<close>

definition rne :: "rat \<Rightarrow> int" where
  "rne y = (let f = \<lfloor>y\<rfloor>; d = y - of_int f in
     if d < 1 / 2 then f else if 1 / 2 < d then f + 1 else if even f then f else f + 1)"

lemma rne_err: "\<bar>of_int (rne y) - y\<bar> \<le> 1 / 2"
proof -
  have "of_int \<lfloor>y\<rfloor> \<le> y" and "y < of_int \<lfloor>y\<rfloor> + 1" by linarith+
  then show ?thesis unfolding rne_def Let_def by (simp add: abs_if) linarith
qed

lemma rne_of_int [simp]: "rne (of_int n) = n"
  by (simp add: rne_def)

lemma rne_mono: "x \<le> y \<Longrightarrow> rne x \<le> rne y"
proof -
  assume le: "x \<le> y"
  show ?thesis
  proof (cases "\<lfloor>x\<rfloor> = \<lfloor>y\<rfloor>")
    case True
    with le show ?thesis by (auto simp: rne_def Let_def)
  next
    case False
    with le have "\<lfloor>x\<rfloor> + 1 \<le> \<lfloor>y\<rfloor>" using floor_mono [OF le] by linarith
    moreover have "rne x \<le> \<lfloor>x\<rfloor> + 1" and "\<lfloor>y\<rfloor> \<le> rne y" by (auto simp: rne_def Let_def)
    ultimately show ?thesis by linarith
  qed
qed

lemma rne_nonneg: "0 \<le> x \<Longrightarrow> 0 \<le> rne x"
  using rne_mono [of 0 x] rne_of_int [of 0] by simp

section \<open>The binary exponent of a positive rational\<close>

definition expo :: "rat \<Rightarrow> int" where
  "expo x = (let (p, q) = quotient_of x; k = bitlen p - bitlen q in
     if 2 powi k \<le> x then k else k - 1)"

lemma pow_powi: "0 \<le> k \<Longrightarrow> (2::rat) powi k = of_int (2 ^ nat k)"
  by (simp add: power_int_def)

lemma bitlen_powi:
  assumes "0 < (p::int)"
  shows "(2::rat) powi (bitlen p - 1) \<le> of_int p" and "of_int p < (2::rat) powi (bitlen p)"
proof -
  have b: "2 ^ nat (bitlen p - 1) \<le> p" "p < 2 ^ nat (bitlen p)"
    using bitlen_bounds [OF assms] by auto
  have k: "0 < bitlen p" using assms by (simp add: bitlen_alt_def)
  show "(2::rat) powi (bitlen p - 1) \<le> of_int p"
    using k b(1) by (simp only: pow_powi [of "bitlen p - 1"] of_int_le_iff)
  show "of_int p < (2::rat) powi (bitlen p)"
    using k b(2) by (simp only: pow_powi [of "bitlen p"] of_int_less_iff)
qed

lemma expo_bounds:
  assumes x: "0 < x"
  shows "2 powi (expo x) \<le> x \<and> x < 2 powi (expo x + 1)"
proof -
  obtain p q where pq: "quotient_of x = (p, q)" by (cases "quotient_of x")
  have q: "0 < q" by (rule quotient_of_denom_pos [OF pq])
  have xpq: "x = of_int p / of_int q" by (rule quotient_of_div [OF pq])
  have p: "0 < p" using x q xpq by (simp add: zero_less_divide_iff)
  let ?k = "bitlen p - bitlen q"
  have hi: "x < 2 powi (?k + 1)"
  proof -
    have "x < 2 powi (bitlen p) / of_int q"
      using bitlen_powi(2) [OF p] q xpq by (simp add: divide_strict_right_mono)
    also have "\<dots> \<le> 2 powi (bitlen p) / 2 powi (bitlen q - 1)"
      using bitlen_powi(1) [OF q] q by (intro divide_left_mono) auto
    also have "\<dots> = 2 powi (?k + 1)"
      by (simp add: power_int_diff [symmetric] algebra_simps)
    finally show ?thesis .
  qed
  have lo: "2 powi (?k - 1) \<le> x"
  proof -
    have "(2::rat) powi (?k - 1) = 2 powi (bitlen p - 1) / 2 powi (bitlen q)"
      by (simp add: power_int_diff [symmetric] algebra_simps)
    also have "\<dots> \<le> of_int p / 2 powi (bitlen q)"
      using bitlen_powi(1) [OF p] by (simp add: divide_right_mono)
    also have "\<dots> \<le> of_int p / of_int q"
      using bitlen_powi(2) [OF q] p q by (intro divide_left_mono) auto
    finally show ?thesis by (simp add: xpq)
  qed
  show ?thesis using hi lo by (auto simp: expo_def pq Let_def)
qed

lemma powi2_strict_mono: "((2::rat) powi a < 2 powi b) = (a < b)"
  using power_int_strict_increasing [of a b "2::rat"] power_int_increasing [of b a "2::rat"]
  by (cases "a < b") auto

lemma powi2_pos [simp]: "0 < (2::rat) powi e"
  by simp

text \<open>A power of two is an integer multiple of every smaller one.\<close>

lemma powi_ratio: "u \<le> e \<Longrightarrow> (2::rat) powi e = of_int (2 ^ nat (e - u)) * 2 powi u"
proof -
  assume "u \<le> e"
  then have "of_int (2 ^ nat (e - u)) = (2::rat) powi (e - u)" by (simp add: power_int_def)
  then have "of_int (2 ^ nat (e - u)) * 2 powi u = (2::rat) powi (e - u) * 2 powi u" by simp
  also have "\<dots> = 2 powi (e - u + u)" by (rule power_int_add [symmetric]) simp
  finally show ?thesis by simp
qed

lemma err_scale:
  fixes a x u :: rat
  assumes "0 < u"
  shows "\<bar>a * u - x\<bar> = \<bar>a - x / u\<bar> * u"
proof -
  have "a * u - x = (a - x / u) * u" using assms by (simp add: field_simps)
  then have "\<bar>a * u - x\<bar> = \<bar>a - x / u\<bar> * \<bar>u\<bar>" by (simp only: abs_mult)
  then show ?thesis using assms by simp
qed

lemma expo_unique:
  assumes "2 powi e \<le> x" and "x < 2 powi (e + 1)"
  shows "expo x = e"
proof -
  have "0 < x" using assms(1) by (rule less_le_trans [rotated]) simp
  from expo_bounds [OF this] have "2 powi (expo x) \<le> x" "x < 2 powi (expo x + 1)" by auto
  then have "(2::rat) powi e < 2 powi (expo x + 1)" "(2::rat) powi (expo x) < 2 powi (e + 1)"
    using assms by (auto intro: le_less_trans)
  then show ?thesis by (simp add: powi2_strict_mono)
qed

lemma expo_mono: "0 < x \<Longrightarrow> x \<le> y \<Longrightarrow> expo x \<le> expo y"
proof -
  assume "0 < x" "x \<le> y"
  then have "(2::rat) powi (expo x) < 2 powi (expo y + 1)"
    using expo_bounds [of x] expo_bounds [of y] by (auto intro: le_less_trans order_trans)
  then show ?thesis by (simp add: powi2_strict_mono)
qed

section \<open>Rounding to binary64\<close>

text \<open>
  The unit in the last place of \<open>x\<close>: 53 significant bits, and never below the smallest
  positive float \<open>2 powi emin\<close>.
\<close>

definition emin :: int where
  "emin = - 1074"

definition ulp_exp :: "rat \<Rightarrow> int" where
  "ulp_exp x = max (expo x - 52) emin"

definition rnd_pos :: "rat \<Rightarrow> rat" where
  "rnd_pos x = (let u = 2 powi (ulp_exp x) in of_int (rne (x / u)) * u)"

definition rnd :: "rat \<Rightarrow> f64" where
  "rnd x = (if x = 0 then 0 else if x < 0 then - rnd_pos (- x) else rnd_pos x)"

definition fadd :: "f64 \<Rightarrow> f64 \<Rightarrow> f64" where
  "fadd x y = rnd (x + y)"

definition fsub :: "f64 \<Rightarrow> f64 \<Rightarrow> f64" where
  "fsub x y = rnd (x - y)"

definition fmul :: "f64 \<Rightarrow> f64 \<Rightarrow> f64" where
  "fmul x y = rnd (x * y)"

definition fdiv :: "f64 \<Rightarrow> f64 \<Rightarrow> f64" where
  "fdiv x y = rnd (x / y)"

definition f64_of_int :: "int \<Rightarrow> f64" where
  "f64_of_int n = rnd (of_int n)"

text \<open>
  Conversion to a 64-bit integer drops the fraction; out of range, the value is whatever the
  platform gives, the argument \<open>oor\<close>.
\<close>

definition ftrunc :: "f64 \<Rightarrow> int" where
  "ftrunc x = (if 0 \<le> x then \<lfloor>x\<rfloor> else \<lceil>x\<rceil>)"

definition f64_to_i64 :: "(f64 \<Rightarrow> int) \<Rightarrow> f64 \<Rightarrow> int" where
  "f64_to_i64 oor x = (if in64 (ftrunc x) then ftrunc x else oor x)"

lemma rnd_0 [simp]: "rnd 0 = 0"
  by (simp add: rnd_def)

lemma rnd_minus [simp]: "rnd (- x) = - rnd x"
  by (simp add: rnd_def)

lemma rnd_pos_eq: "0 < x \<Longrightarrow> rnd x = rnd_pos x"
  by (simp add: rnd_def)

lemma rnd_pos_err: "\<bar>rnd_pos x - x\<bar> \<le> 2 powi (ulp_exp x) / 2"
proof -
  let ?u = "2 powi (ulp_exp x) :: rat"
  have "\<bar>rnd_pos x - x\<bar> = \<bar>of_int (rne (x / ?u)) - x / ?u\<bar> * ?u"
    unfolding rnd_pos_def Let_def by (rule err_scale) simp
  also have "\<dots> \<le> 1 / 2 * ?u"
    by (rule mult_right_mono [OF rne_err]) simp
  finally show ?thesis by simp
qed

text \<open>A normal number is rounded with a relative error of at most \<open>2 powi -53\<close>.\<close>

lemma rnd_rel_err:
  assumes "2 powi (emin + 52) \<le> \<bar>x\<bar>"
  shows "\<bar>rnd x - x\<bar> \<le> \<bar>x\<bar> * 2 powi (- 53)"
proof -
  have pos: "\<bar>rnd_pos y - y\<bar> \<le> y * 2 powi (- 53)" if y: "2 powi (emin + 52) \<le> y" for y :: rat
  proof -
    have y0: "0 < y" using y by (rule less_le_trans [rotated]) simp
    have "(2::rat) powi (emin + 52) < 2 powi (expo y + 1)"
      using y expo_bounds [OF y0] by (auto intro: le_less_trans)
    then have "ulp_exp y = expo y - 52" by (simp add: powi2_strict_mono ulp_exp_def)
    then have "(2::rat) powi (ulp_exp y) / 2 = 2 powi (expo y) * 2 powi (- 53)"
      by (simp add: power_int_diff)
    also have "\<dots> \<le> y * 2 powi (- 53)"
      using expo_bounds [OF y0] by (intro mult_right_mono) auto
    finally show ?thesis using rnd_pos_err [of y] by linarith
  qed
  show ?thesis
  proof (cases "x < 0")
    case True
    then have "\<bar>rnd_pos (- x) - (- x)\<bar> \<le> - x * 2 powi (- 53)"
      using pos [of "- x"] assms by (simp add: abs_if)
    moreover have "rnd x = - rnd_pos (- x)" and "\<bar>x\<bar> = - x" using True by (simp_all add: rnd_def)
    ultimately show ?thesis by (simp only:)
  next
    case False
    then show ?thesis using pos [of x] assms by (auto simp: rnd_def abs_if)
  qed
qed

text \<open>A number whose significand fits is left alone.\<close>

lemma rnd_pos_multiple: "x = of_int n * 2 powi (ulp_exp x) \<Longrightarrow> rnd_pos x = x"
proof -
  assume x: "x = of_int n * 2 powi (ulp_exp x)"
  have "x / 2 powi (ulp_exp x) = of_int n" by (subst x) simp
  then show ?thesis using x by (simp add: rnd_pos_def Let_def)
qed

lemma rnd_pos_exact:
  assumes x: "x = of_int m * 2 powi e" and m: "0 < m" "m \<le> 2 ^ 53" and e: "emin \<le> e"
  shows "rnd_pos x = x"
proof -
  have x0: "0 < x" using x m by simp
  show ?thesis
  proof (cases "ulp_exp x \<le> e")
    case True
    have "x = of_int (m * 2 ^ nat (e - ulp_exp x)) * 2 powi (ulp_exp x)"
      using x powi_ratio [OF True] by simp
    then show ?thesis by (rule rnd_pos_multiple)
  next
    case False
    then have u: "e + 53 \<le> expo x" and ue: "ulp_exp x \<le> expo x" using e by (auto simp: ulp_exp_def)
    have "of_int m \<le> (of_int (2 ^ 53) :: rat)" using m by (simp only: of_int_le_iff)
    then have "x \<le> of_int (2 ^ 53) * 2 powi e" unfolding x by (intro mult_right_mono) auto
    also have "\<dots> = 2 powi (e + 53)" using powi_ratio [of e "e + 53"] by simp
    finally have le: "x \<le> 2 powi (e + 53)" .
    moreover have "(2::rat) powi (e + 53) \<le> 2 powi (expo x)" using u by (simp add: power_int_increasing)
    ultimately have "x = 2 powi (expo x)" using expo_bounds [OF x0] by linarith
    then have "x = of_int (2 ^ nat (expo x - ulp_exp x)) * 2 powi (ulp_exp x)"
      using powi_ratio [OF ue] by simp
    then show ?thesis by (rule rnd_pos_multiple)
  qed
qed

lemma rnd_dyadic:
  assumes "0 < m" "m \<le> 2 ^ 53" "k \<le> 1000"
  shows "rnd (of_int m / 2 ^ k) = of_int m / 2 ^ k"
proof -
  have p: "(of_int m :: rat) / 2 ^ k = of_int m * 2 powi (- int k)"
    by (simp add: power_int_minus field_simps)
  have "rnd_pos (of_int m * 2 powi (- int k)) = of_int m * 2 powi (- int k)"
    by (rule rnd_pos_exact [OF refl]) (use assms in \<open>auto simp: emin_def\<close>)
  then show ?thesis using assms(1) unfolding p by (subst rnd_pos_eq) simp_all
qed

lemma rnd_half: "rnd (1 / 2) = 1 / 2" and rnd_three_quarters: "rnd (3 / 4) = 3 / 4"
  using rnd_dyadic [of 1 1] rnd_dyadic [of 3 2] by simp_all

lemma rnd_of_int: "\<bar>n\<bar> \<le> 2 ^ 53 \<Longrightarrow> rnd (of_int n) = of_int n"
proof -
  assume n: "\<bar>n\<bar> \<le> 2 ^ 53"
  have pos: "rnd_pos (of_int m) = of_int m" if "0 < m" "m \<le> 2 ^ 53" for m
    by (rule rnd_pos_exact [of _ m 0]) (use that in \<open>auto simp: emin_def\<close>)
  consider "n = 0" | "0 < n" | "n < 0" by linarith
  then show ?thesis
  proof cases
    case 2
    then show ?thesis using pos [of n] n by (simp add: rnd_def)
  next
    case 3
    then show ?thesis using pos [of "- n"] n by (simp add: rnd_def)
  qed simp
qed

lemma f64_of_int_exact: "\<bar>n\<bar> \<le> 2 ^ 53 \<Longrightarrow> f64_of_int n = of_int n"
  by (simp add: f64_of_int_def rnd_of_int)

section \<open>Rounding is monotone\<close>

lemma rnd_pos_nonneg: "0 \<le> x \<Longrightarrow> 0 \<le> rnd_pos x"
  by (simp add: rnd_pos_def Let_def rne_nonneg)

lemma rne_le_int: "x \<le> of_int k \<Longrightarrow> rne x \<le> k"
  using rne_mono [of x "of_int k"] by simp

lemma rne_ge_int: "of_int k \<le> x \<Longrightarrow> k \<le> rne x"
  using rne_mono [of "of_int k" x] by simp

lemma rnd_pos_le_pow:
  assumes x: "0 < x" and le: "x \<le> 2 powi e" and e: "emin \<le> e"
  shows "rnd_pos x \<le> 2 powi e"
proof -
  let ?u = "2 powi (ulp_exp x) :: rat" and ?k = "2 ^ nat (e - ulp_exp x) :: int"
  have "(2::rat) powi (expo x) \<le> 2 powi e" using le expo_bounds [OF x] by linarith
  then have "\<not> e < expo x" using powi2_strict_mono [of e "expo x"] by linarith
  then have pe: "2 powi e = of_int ?k * ?u" using e by (intro powi_ratio) (auto simp: ulp_exp_def)
  have "x / ?u \<le> of_int ?k" using le by (subst pos_divide_le_eq) (simp_all only: powi2_pos pe)
  then have "of_int (rne (x / ?u)) \<le> (of_int ?k :: rat)" by (simp only: of_int_le_iff rne_le_int)
  then have "of_int (rne (x / ?u)) * ?u \<le> of_int ?k * ?u" by (rule mult_right_mono) simp
  then show ?thesis by (simp only: pe rnd_pos_def Let_def)
qed

lemma rnd_pos_ge_pow:
  assumes le: "2 powi e \<le> x" and e: "emin \<le> e"
  shows "2 powi e \<le> rnd_pos x"
proof -
  have x: "0 < x" using le by (rule less_le_trans [rotated]) simp
  let ?u = "2 powi (ulp_exp x) :: rat" and ?k = "2 ^ nat (expo x - ulp_exp x) :: int"
  have "(2::rat) powi e < 2 powi (expo x + 1)" using le expo_bounds [OF x] by linarith
  then have ee: "e \<le> expo x" by (simp add: powi2_strict_mono)
  then have pe: "2 powi (expo x) = of_int ?k * ?u" using e by (intro powi_ratio) (auto simp: ulp_exp_def)
  have "of_int ?k * ?u \<le> x" using expo_bounds [OF x] by (simp only: pe)
  then have "of_int ?k \<le> x / ?u" by (subst pos_le_divide_eq) simp_all
  then have "of_int ?k \<le> (of_int (rne (x / ?u)) :: rat)" by (simp only: of_int_le_iff rne_ge_int)
  then have "of_int ?k * ?u \<le> of_int (rne (x / ?u)) * ?u" by (rule mult_right_mono) simp
  then have "2 powi (expo x) \<le> rnd_pos x" by (simp only: pe rnd_pos_def Let_def)
  moreover have "(2::rat) powi e \<le> 2 powi (expo x)" using ee by (simp add: power_int_increasing)
  ultimately show ?thesis by linarith
qed

lemma rnd_pos_mono: "0 < x \<Longrightarrow> x \<le> y \<Longrightarrow> rnd_pos x \<le> rnd_pos y"
proof -
  assume x: "0 < x" and le: "x \<le> y"
  have ex: "expo x \<le> expo y" by (rule expo_mono [OF x le])
  show ?thesis
  proof (cases "ulp_exp x = ulp_exp y")
    case True
    have "rne (x / 2 powi (ulp_exp y)) \<le> rne (y / 2 powi (ulp_exp y))"
      by (rule rne_mono) (simp add: le divide_right_mono)
    then show ?thesis by (simp add: rnd_pos_def Let_def True mult_right_mono)
  next
    case False
    then have lt: "expo x + 1 \<le> expo y" and big: "emin \<le> expo y" using ex by (auto simp: ulp_exp_def)
    have "x \<le> 2 powi (expo x + 1)" using expo_bounds [OF x] by simp
    also have "\<dots> \<le> 2 powi (expo y)" using lt by (simp add: power_int_increasing)
    finally have "rnd_pos x \<le> 2 powi (expo y)" by (rule rnd_pos_le_pow [OF x _ big])
    also have "\<dots> \<le> rnd_pos y"
      using expo_bounds [of y] x le by (intro rnd_pos_ge_pow [OF _ big]) auto
    finally show ?thesis .
  qed
qed

lemma rnd_mono: "x \<le> y \<Longrightarrow> rnd x \<le> rnd y"
proof -
  assume le: "x \<le> y"
  consider "0 < x" | "x \<le> 0" "0 \<le> y" | "y < 0" by linarith
  then show ?thesis
  proof cases
    case 1
    with le show ?thesis by (auto simp: rnd_def intro: rnd_pos_mono)
  next
    case 2
    then show ?thesis using rnd_pos_nonneg [of y] rnd_pos_nonneg [of "- x"] by (auto simp: rnd_def)
  next
    case 3
    with le show ?thesis by (auto simp: rnd_def intro: rnd_pos_mono)
  qed
qed

lemma rnd_nonneg: "0 \<le> x \<Longrightarrow> 0 \<le> rnd x"
  using rnd_mono [of 0 x] by simp

lemma ftrunc_mono: "x \<le> y \<Longrightarrow> ftrunc x \<le> ftrunc y"
proof -
  assume le: "x \<le> y"
  have "\<lceil>x\<rceil> \<le> \<lfloor>y\<rfloor>" if "\<not> 0 \<le> x" "0 \<le> y"
  proof -
    have "\<lceil>x\<rceil> \<le> 0" and "0 \<le> \<lfloor>y\<rfloor>" using that by (simp_all add: ceiling_le_iff le_floor_iff)
    then show ?thesis by linarith
  qed
  with le show ?thesis by (auto simp: ftrunc_def floor_mono ceiling_mono)
qed

lemma ftrunc_of_int [simp]: "ftrunc (of_int n) = n"
  by (simp add: ftrunc_def)

text \<open>
  The value of \<open>rnd\<close> at a concrete number: give its exponent, and the integer multiple of
  the unit in the last place that is nearest.
\<close>

lemma rnd_eqI:
  assumes lo: "2 powi e \<le> x" and hi: "x < 2 powi (e + 1)" and e: "emin + 52 \<le> e"
    and near: "\<bar>of_int m * 2 powi (e - 52) - x\<bar> < 2 powi (e - 52) / 2"
  shows "rnd x = of_int m * 2 powi (e - 52)"
proof -
  have x0: "0 < x" using lo by (rule less_le_trans [rotated]) simp
  have "expo x = e" by (rule expo_unique [OF lo hi])
  then have u: "ulp_exp x = e - 52" using e by (simp add: ulp_exp_def)
  let ?u = "2 powi (e - 52) :: rat"
  have "\<bar>of_int m - x / ?u\<bar> * ?u < 1 / 2 * ?u" using near by (subst err_scale [symmetric]) simp_all
  then have d: "\<bar>of_int m - x / ?u\<bar> < 1 / 2" by (rule mult_right_less_imp_less) simp
  have "\<bar>of_int (rne (x / ?u)) - (of_int m :: rat)\<bar> < 1" using d rne_err [of "x / ?u"] by linarith
  then have "rne (x / ?u) = m" by linarith
  then show ?thesis using x0 by (simp add: rnd_def rnd_pos_def u Let_def)
qed

section \<open>Rounded numbers are left alone\<close>

lemma rnd_pos_idem:
  assumes x: "0 < x"
  shows "rnd (rnd_pos x) = rnd_pos x"
proof -
  let ?u = "ulp_exp x" and ?n = "rne (x / 2 powi (ulp_exp x))"
  have r: "rnd_pos x = of_int ?n * 2 powi ?u" by (simp add: rnd_pos_def Let_def)
  have u: "emin \<le> ?u" "expo x + 1 - 53 \<le> ?u" by (auto simp: ulp_exp_def)
  have "(2::rat) powi (expo x + 1) \<le> 2 powi (?u + 53)" using u(2) by (intro power_int_increasing) auto
  then have "x \<le> 2 powi (?u + 53)" using expo_bounds [OF x] by linarith
  then have "rnd_pos x \<le> 2 powi (?u + 53)" using u(1) by (intro rnd_pos_le_pow [OF x]) auto
  also have "(2::rat) powi (?u + 53) = of_int (2 ^ 53) * 2 powi ?u" using powi_ratio [of ?u "?u + 53"] by simp
  finally have "of_int ?n * 2 powi ?u \<le> of_int (2 ^ 53) * (2::rat) powi ?u" unfolding r .
  then have "(of_int ?n :: rat) \<le> of_int (2 ^ 53)" by (rule mult_right_le_imp_le) simp
  then have n: "?n \<le> 2 ^ 53" by (simp only: of_int_le_iff)
  have "0 \<le> ?n" using x by (simp add: rne_nonneg)
  show ?thesis
  proof (cases "?n = 0")
    case False
    then have pos: "0 < ?n" using \<open>0 \<le> ?n\<close> by simp
    have "rnd_pos (rnd_pos x) = rnd_pos x" by (rule rnd_pos_exact [OF r pos n u(1)])
    moreover have "0 < rnd_pos x" using pos by (simp add: r)
    ultimately show ?thesis by (simp add: rnd_def)
  qed (simp add: r)
qed

lemma rnd_idem [simp]: "rnd (rnd x) = rnd x"
  using rnd_pos_idem [of x] rnd_pos_idem [of "- x"] by (cases x "0 :: rat" rule: linorder_cases) (auto simp: rnd_def [of x])

section \<open>Durations in seconds\<close>

text \<open>\<open>Duration.Seconds\<close> of the Go library: whole seconds plus the rest divided by 10^9.\<close>

definition Seconds :: "duration \<Rightarrow> f64" where
  "Seconds d = fadd (f64_of_int (quot d second)) (fdiv (f64_of_int (d - quot d second * second)) (10 ^ 9))"

end
