(* ===== verification/Gateway_Types.thy ===== *)
theory Gateway_Types
  imports Float64
begin

text \<open>
  The data the gateway's components share: the runtime configuration with its defaults
  (\<open>gateway/cache_config.go\<close>), cached values (\<open>gateway/cache_types.go\<close>), and the data of
  the adaptive TTL controller (\<open>gateway/adaptive_ttl_controller.go\<close>). Byte slices are
  \<open>string\<close>s; a copy made by \<open>append([]byte(nil), b...)\<close> is the same value, since the model
  never updates bytes in place.
\<close>

section \<open>Configuration\<close>

record GatewayConfig =
  L1MaxEntries :: int
  L2MaxEntries :: int
  L1TTLSeconds :: int
  L2TTLSeconds :: int
  SingleFlightEnabled :: bool
  DistributedLockEnabled :: bool
  ProbabilisticEarlyRefreshEnabled :: bool
  EarlyRefreshBeta :: f64
  BackendTimeoutMs :: int
  AdaptiveTTLEnabled :: bool
  AdaptiveTTLMinFactor :: f64
  AdaptiveTTLMaxFactor :: f64
  AdaptiveTTLLatencyThresholdMs :: int
  AdaptiveTTLConcurrencyThreshold :: int
  AdaptiveTTLAdjustmentIntervalMs :: int

definition defaultAdaptiveTTLMinFactor :: f64 where
  "defaultAdaptiveTTLMinFactor = 3 / 4"

definition defaultAdaptiveTTLMaxFactor :: f64 where
  "defaultAdaptiveTTLMaxFactor = 4"

definition defaultAdaptiveTTLLatencyThresholdMs :: int where
  "defaultAdaptiveTTLLatencyThresholdMs = 500"

definition defaultAdaptiveTTLConcurrencyThreshold :: int where
  "defaultAdaptiveTTLConcurrencyThreshold = 12"

definition defaultAdaptiveTTLAdjustmentIntervalMs :: int where
  "defaultAdaptiveTTLAdjustmentIntervalMs = 5000"

lemmas adaptive_defaults =
  defaultAdaptiveTTLMinFactor_def defaultAdaptiveTTLMaxFactor_def
  defaultAdaptiveTTLLatencyThresholdMs_def defaultAdaptiveTTLConcurrencyThreshold_def
  defaultAdaptiveTTLAdjustmentIntervalMs_def

definition applyAdaptiveTTLDefaults :: "GatewayConfig \<Rightarrow> GatewayConfig" where
  "applyAdaptiveTTLDefaults config =
     (let config = (if AdaptiveTTLMinFactor config \<le> 0
            then config\<lparr>AdaptiveTTLMinFactor := defaultAdaptiveTTLMinFactor\<rparr> else config);
          config = (if AdaptiveTTLMaxFactor config \<le> 0
            then config\<lparr>AdaptiveTTLMaxFactor := defaultAdaptiveTTLMaxFactor\<rparr> else config);
          config = (if AdaptiveTTLLatencyThresholdMs config \<le> 0
            then config\<lparr>AdaptiveTTLLatencyThresholdMs := defaultAdaptiveTTLLatencyThresholdMs\<rparr>
            else config);
          config = (if AdaptiveTTLConcurrencyThreshold config \<le> 0
            then config\<lparr>AdaptiveTTLConcurrencyThreshold := defaultAdaptiveTTLConcurrencyThreshold\<rparr>
            else config);
          config = (if AdaptiveTTLAdjustmentIntervalMs config \<le> 0
            then config\<lparr>AdaptiveTTLAdjustmentIntervalMs := defaultAdaptiveTTLAdjustmentIntervalMs\<rparr>
            else config)
      in config)"

text \<open>The adaptive parameters a configuration needs for the controller to work.\<close>

definition adaptive_ok :: "GatewayConfig \<Rightarrow> bool" where
  "adaptive_ok c \<longleftrightarrow> 0 < AdaptiveTTLMinFactor c \<and> 0 < AdaptiveTTLMaxFactor c \<and>
     0 < AdaptiveTTLLatencyThresholdMs c \<and> 0 < AdaptiveTTLConcurrencyThreshold c \<and>
     0 < AdaptiveTTLAdjustmentIntervalMs c"

lemma adaptive_ok_defaults [simp]: "adaptive_ok (applyAdaptiveTTLDefaults c)"
  by (simp add: adaptive_ok_def applyAdaptiveTTLDefaults_def adaptive_defaults Let_def)

lemma defaults_of_ok [simp]: "adaptive_ok c \<Longrightarrow> applyAdaptiveTTLDefaults c = c"
  by (simp add: adaptive_ok_def applyAdaptiveTTLDefaults_def)

section \<open>Cached values\<close>

record KeyValue =
  Value :: string
  L1Expiration :: time
  L2Expiration :: time
  RecomputeDuration :: duration

definition no_KeyValue :: KeyValue where
  "no_KeyValue = \<lparr>Value = [], L1Expiration = zero_time, L2Expiration = zero_time,
                  RecomputeDuration = 0\<rparr>"

record L2CacheValue =
  L2Value :: string
  RecomputeDurationMs :: int
  ExpiresAtUnixMs :: int

record CacheEntry =
  EntryKey :: string
  EntryValue :: KeyValue

section \<open>Data of the adaptive TTL controller\<close>

type_synonym AdaptiveTTLState = string

definition AdaptiveTTLStateDisabled :: AdaptiveTTLState where
  "AdaptiveTTLStateDisabled = ''disabled''"

definition AdaptiveTTLStateStable :: AdaptiveTTLState where
  "AdaptiveTTLStateStable = ''stable''"

definition AdaptiveTTLStateWarning :: AdaptiveTTLState where
  "AdaptiveTTLStateWarning = ''warning''"

definition AdaptiveTTLStateCongested :: AdaptiveTTLState where
  "AdaptiveTTLStateCongested = ''congested''"

lemmas state_names = AdaptiveTTLStateDisabled_def AdaptiveTTLStateStable_def
  AdaptiveTTLStateWarning_def AdaptiveTTLStateCongested_def

record BackendLoadSignals =
  P99LatencyMs :: f64
  ActiveRequests :: int
  MaxConcurrentRequests :: int
  SampleCount :: int

record AdaptiveTTLSnapshot =
  Factor :: f64
  SnapState :: AdaptiveTTLState
  ConsecutiveStableReadings :: int
  ConsecutiveCongestedReadings :: int
  LastBackendP99LatencyMs :: f64

section \<open>Successful statuses\<close>

definition status_ok :: "int \<Rightarrow> bool" where
  "status_ok code \<longleftrightarrow> \<not> (code < 200 \<or> code \<ge> 300)"

end
