(* ===== verification/Cache_Contract.thy ===== *)
theory Cache_Contract
  imports Gateway_Types
begin

text \<open>
  What the gateway's handlers rely on when they use an in-process cache: a hit is an
  unexpired value that was stored under the key, storing makes the key present, nothing
  else appears, and the number of entries never passes the capacity it is used with.
  The user's side (a sequence of calls, in any interleaving of the requests that make them)
  is proved here once; \<open>L1_Cache\<close> discharges the laws for the code.
\<close>

definition expired_at :: "time \<Rightarrow> KeyValue \<Rightarrow> bool" where
  "expired_at now v \<longleftrightarrow> L1Expiration v < now \<or> (\<not> isZero (L2Expiration v) \<and> L2Expiration v < now)"

datatype cache_call = Get string time | Put string KeyValue int | Clear

text \<open>Running a sequence of calls, given the three operations.\<close>

fun run_calls :: "(string \<Rightarrow> time \<Rightarrow> 's \<Rightarrow> KeyValue option \<times> 's) \<Rightarrow>
    (string \<Rightarrow> KeyValue \<Rightarrow> int \<Rightarrow> 's \<Rightarrow> 's) \<Rightarrow> ('s \<Rightarrow> 's) \<Rightarrow> cache_call list \<Rightarrow> 's \<Rightarrow> 's" where
  "run_calls get put clear [] s = s"
| "run_calls get put clear (Get k now # cs) s = run_calls get put clear cs (snd (get k now s))"
| "run_calls get put clear (Put k v m # cs) s = run_calls get put clear cs (put k v m s)"
| "run_calls get put clear (Clear # cs) s = run_calls get put clear cs (clear s)"

text \<open>
  What a history of calls has stored: per key, the value of the last \<open>Put\<close> with a positive
  capacity since the last \<open>Clear\<close>.
\<close>

fun stored :: "cache_call list \<Rightarrow> (string \<rightharpoonup> KeyValue) \<Rightarrow> (string \<rightharpoonup> KeyValue)" where
  "stored [] h = h"
| "stored (Get k now # cs) h = stored cs h"
| "stored (Put k v m # cs) h = stored cs (if m \<le> 0 then h else h(k \<mapsto> v))"
| "stored (Clear # cs) h = stored cs Map.empty"

text \<open>Every \<open>Put\<close> of the sequence uses a capacity of at most \<open>M\<close>.\<close>

definition within_capacity :: "int \<Rightarrow> cache_call list \<Rightarrow> bool" where
  "within_capacity M cs \<longleftrightarrow> list_all (\<lambda>c. case c of Put k v m \<Rightarrow> m \<le> M | _ \<Rightarrow> True) cs"

locale bounded_cache =
  fixes ok :: "'s \<Rightarrow> bool"
    and find :: "'s \<Rightarrow> string \<Rightarrow> KeyValue option"
    and entries :: "'s \<Rightarrow> nat"
    and get :: "string \<Rightarrow> time \<Rightarrow> 's \<Rightarrow> KeyValue option \<times> 's"
    and put :: "string \<Rightarrow> KeyValue \<Rightarrow> int \<Rightarrow> 's \<Rightarrow> 's"
    and clear :: "'s \<Rightarrow> 's"
  assumes ok_get: "ok s \<Longrightarrow> ok (snd (get k now s))"
    and ok_put: "ok s \<Longrightarrow> ok (put k v m s)"
    and ok_clear: "ok s \<Longrightarrow> ok (clear s)"
    and get_value: "ok s \<Longrightarrow> fst (get k now s) =
          (case find s k of None \<Rightarrow> None | Some v \<Rightarrow> if expired_at now v then None else Some v)"
    and get_find: "ok s \<Longrightarrow> find (snd (get k now s)) k' =
          (if k' = k \<and> fst (get k now s) = None then None else find s k')"
    and get_entries: "ok s \<Longrightarrow> entries (snd (get k now s)) \<le> entries s"
    and put_off: "ok s \<Longrightarrow> m \<le> 0 \<Longrightarrow> put k v m s = s"
    and put_find: "ok s \<Longrightarrow> 0 < m \<Longrightarrow> find (put k v m s) k = Some v"
    and put_other: "ok s \<Longrightarrow> k' \<noteq> k \<Longrightarrow> find (put k v m s) k' = Some w \<Longrightarrow> find s k' = Some w"
    and put_entries: "ok s \<Longrightarrow> int (entries s) \<le> M \<Longrightarrow> m \<le> M \<Longrightarrow> int (entries (put k v m s)) \<le> M"
    and clear_find: "ok s \<Longrightarrow> find (clear s) k = None"
    and clear_entries: "ok s \<Longrightarrow> entries (clear s) = 0"
begin

lemma ok_run: "ok s \<Longrightarrow> ok (run_calls get put clear cs s)"
proof (induction cs arbitrary: s)
  case (Cons c cs)
  then show ?case by (cases c) (auto simp: ok_get ok_put ok_clear)
qed simp

lemma get_after_put:
  "ok s \<Longrightarrow> 0 < m \<Longrightarrow> \<not> expired_at now v \<Longrightarrow> fst (get k now (put k v m s)) = Some v"
  by (simp add: get_value ok_put put_find)

lemma run_within:
  "ok s \<Longrightarrow> int (entries s) \<le> M \<Longrightarrow> within_capacity M cs \<Longrightarrow>
   int (entries (run_calls get put clear cs s)) \<le> M"
proof (induction cs arbitrary: s)
  case (Cons c cs)
  have "ok s" "int (entries s) \<le> M" "within_capacity M cs"
    using Cons.prems by (auto simp: within_capacity_def)
  moreover have "int (entries (snd (get k now s))) \<le> M" for k now
    using \<open>int (entries s) \<le> M\<close> get_entries [OF \<open>ok s\<close>, of k now] by linarith
  moreover have "0 \<le> M" using \<open>int (entries s) \<le> M\<close> by linarith
  ultimately show ?case using Cons.prems(3)
    by (cases c) (auto simp: ok_get ok_put ok_clear clear_entries put_entries within_capacity_def intro!: Cons.IH)
qed simp

text \<open>Whatever is found was stored, and last, under its key.\<close>

lemma find_stored:
  "ok s \<Longrightarrow> (\<And>k v. find s k = Some v \<Longrightarrow> h k = Some v) \<Longrightarrow>
   find (run_calls get put clear cs s) k = Some v \<Longrightarrow> stored cs h k = Some v"
proof (induction cs arbitrary: s h)
  case (Cons c cs)
  show ?case
  proof (cases c)
    case (Get k' now)
    have "find (snd (get k' now s)) j = Some w \<Longrightarrow> h j = Some w" for j w
      using Cons.prems(1,2) by (auto simp: get_find split: if_splits)
    with Get Cons.prems(1,3) show ?thesis by (auto intro: Cons.IH ok_get)
  next
    case (Put k' v' m)
    have "find (put k' v' m s) j = Some w \<Longrightarrow> (if m \<le> 0 then h else h(k' \<mapsto> v')) j = Some w" for j w
      using Cons.prems(1,2) put_off [of s m k' v'] put_find [of s m k' v'] put_other [of s j k' v' m w]
      by (cases "m \<le> 0"; cases "j = k'") auto
    then have "stored cs (if m \<le> 0 then h else h(k' \<mapsto> v')) k = Some v"
      using Put Cons.prems(1,3) by (intro Cons.IH [of "put k' v' m s"]) (simp_all add: ok_put)
    then show ?thesis using Put by simp
  next
    case Clear
    with Cons.prems(1,3) show ?thesis by (auto intro: Cons.IH ok_clear simp: clear_find)
  qed
qed simp

lemma hit_stored:
  assumes "ok s" and "\<And>k. find s k = None" and "fst (get k now (run_calls get put clear cs s)) = Some v"
  shows "stored cs Map.empty k = Some v \<and> \<not> expired_at now v"
  using assms(3) find_stored [OF assms(1), of Map.empty cs k v] assms(2)
  by (auto simp: get_value ok_run [OF assms(1)] split: option.splits if_splits)

end

end
