(* ===== verification/L1_Cache.thy ===== *)
theory L1_Cache
  imports Cache_Contract "HOL-Library.Finite_Map"
begin

text \<open>
  The in-process cache of one gateway, \<open>gateway/l1_cache.go\<close>: a Go map from keys to
  elements of a doubly linked list (\<open>container/list\<close>) that holds the entries in order of
  use. Elements are addresses, \<open>elems\<close> is the heap they point into, and \<open>cacheOrder\<close>
  the list, front first. Every operation runs under the mutex \<open>h.mu\<close>, so it is one step.

  The second half relates this pointer structure to a plain list of key-value pairs, most
  recently used first, and states the contract a bounded cache has with its user.
\<close>

section \<open>State\<close>

record l1_state =
  cache :: "(string, nat) fmap"
  cacheOrder :: "nat list"
  elems :: "nat \<Rightarrow> CacheEntry"
  next_elem :: nat

definition empty_l1 :: l1_state where
  "empty_l1 = \<lparr>cache = fmempty, cacheOrder = [],
     elems = (\<lambda>_. \<lparr>EntryKey = [], EntryValue = no_KeyValue\<rparr>), next_elem = 0\<rparr>"

text \<open>\<open>container/list\<close>: the operations the cache uses.\<close>

definition list_move_to_front :: "nat \<Rightarrow> nat list \<Rightarrow> nat list" where
  "list_move_to_front e l = (if e \<in> set l then e # remove1 e l else l)"

definition list_back :: "nat list \<Rightarrow> nat option" where
  "list_back l = (if l = [] then None else Some (last l))"

section \<open>Operations\<close>

definition getL1 :: "string \<Rightarrow> time \<Rightarrow> l1_state \<Rightarrow> KeyValue option \<times> l1_state" where
  "getL1 key now h =
     (case fmlookup (cache h) key of
        None \<Rightarrow> (None, h)
      | Some element \<Rightarrow>
          let entry = elems h element;
              l1Expired = L1Expiration (EntryValue entry) < now;
              l2Expired = (\<not> isZero (L2Expiration (EntryValue entry)) \<and>
                           L2Expiration (EntryValue entry) < now)
          in if l1Expired \<or> l2Expired
             then (None, h\<lparr>cache := fmdrop key (cache h),
                           cacheOrder := remove1 element (cacheOrder h)\<rparr>)
             else (Some (EntryValue entry),
                   h\<lparr>cacheOrder := list_move_to_front element (cacheOrder h)\<rparr>))"

definition removeL1LRU :: "l1_state \<Rightarrow> l1_state" where
  "removeL1LRU h =
     (case list_back (cacheOrder h) of
        None \<Rightarrow> h
      | Some element \<Rightarrow>
          h\<lparr>cache := fmdrop (EntryKey (elems h element)) (cache h),
            cacheOrder := remove1 element (cacheOrder h)\<rparr>)"

definition setL1 :: "string \<Rightarrow> KeyValue \<Rightarrow> int \<Rightarrow> l1_state \<Rightarrow> l1_state" where
  "setL1 key value maxEntries h =
     (if maxEntries \<le> 0 then h
      else case fmlookup (cache h) key of
        Some element \<Rightarrow>
          h\<lparr>elems := (elems h)(element := (elems h element)\<lparr>EntryValue := value\<rparr>),
            cacheOrder := list_move_to_front element (cacheOrder h)\<rparr>
      | None \<Rightarrow>
          let h = (if int (fcard (fmdom (cache h))) \<ge> maxEntries then removeL1LRU h else h);
              element = next_elem h
          in h\<lparr>elems := (elems h)(element := \<lparr>EntryKey = key, EntryValue = value\<rparr>),
               next_elem := element + 1,
               cacheOrder := element # cacheOrder h,
               cache := fmupd key element (cache h)\<rparr>)"

definition clearL1 :: "l1_state \<Rightarrow> l1_state" where
  "clearL1 h = h\<lparr>cache := fmempty, cacheOrder := []\<rparr>"

section \<open>The structural invariant\<close>

text \<open>
  The map and the list hold the same elements, each under its entry's key, and no element
  of the list will be allocated again.
\<close>

definition l1_inv :: "l1_state \<Rightarrow> bool" where
  "l1_inv h \<longleftrightarrow> distinct (cacheOrder h) \<and> (\<forall>e \<in> set (cacheOrder h). e < next_elem h) \<and>
     (\<forall>k e. fmlookup (cache h) k = Some e \<longleftrightarrow> e \<in> set (cacheOrder h) \<and> EntryKey (elems h e) = k)"

lemma l1_invD:
  assumes "l1_inv h"
  shows "distinct (cacheOrder h)" and "e \<in> set (cacheOrder h) \<Longrightarrow> e < next_elem h"
    and "fmlookup (cache h) k = Some e \<longleftrightarrow> e \<in> set (cacheOrder h) \<and> EntryKey (elems h e) = k"
  using assms by (auto simp: l1_inv_def)

lemma l1_inv_keys: "l1_inv h \<Longrightarrow> e \<in> set (cacheOrder h) \<Longrightarrow> e' \<in> set (cacheOrder h) \<Longrightarrow>
    EntryKey (elems h e) = EntryKey (elems h e') \<Longrightarrow> e = e'"
  by (metis l1_invD(3) option.inject)

lemma l1_inv_None: "l1_inv h \<Longrightarrow> fmlookup (cache h) k = None \<longleftrightarrow>
    (\<forall>e \<in> set (cacheOrder h). EntryKey (elems h e) \<noteq> k)"
  by (metis l1_invD(3) not_None_eq option.distinct(1))

lemma l1_inv_empty: "l1_inv empty_l1"
  by (simp add: l1_inv_def empty_l1_def)

lemma l1_inv_clear: "l1_inv (clearL1 h)"
  by (simp add: l1_inv_def clearL1_def)

lemma set_move_to_front [simp]: "set (list_move_to_front e l) = set l"
  by (induction l) (auto simp: list_move_to_front_def split: if_splits)

lemma distinct_move_to_front [simp]: "distinct l \<Longrightarrow> distinct (list_move_to_front e l)"
  by (simp add: list_move_to_front_def distinct_remove1 set_remove1_eq)

lemma length_move_to_front [simp]: "length (list_move_to_front e l) = length l"
  by (auto simp: list_move_to_front_def length_remove1 dest: length_pos_if_in_set)

text \<open>Taking one element out of both structures keeps the invariant.\<close>

lemma l1_inv_drop:
  assumes inv: "l1_inv h" and e: "e \<in> set (cacheOrder h)"
  shows "l1_inv (h\<lparr>cache := fmdrop (EntryKey (elems h e)) (cache h),
                   cacheOrder := remove1 e (cacheOrder h)\<rparr>)"
proof -
  have "EntryKey (elems h e') \<noteq> EntryKey (elems h e)" if "e' \<in> set (cacheOrder h)" "e' \<noteq> e" for e'
    using l1_inv_keys [OF inv e, of e'] that by auto
  then show ?thesis using l1_invD [OF inv] by (auto simp: l1_inv_def)
qed

lemma l1_inv_get: "l1_inv h \<Longrightarrow> l1_inv (snd (getL1 key now h))"
proof -
  assume inv: "l1_inv h"
  show ?thesis
  proof (cases "fmlookup (cache h) key")
    case None
    then show ?thesis using inv by (simp add: getL1_def)
  next
    case (Some e)
    then have e: "e \<in> set (cacheOrder h)" "EntryKey (elems h e) = key" using l1_invD(3) [OF inv] by auto
    have "l1_inv (h\<lparr>cacheOrder := list_move_to_front e (cacheOrder h)\<rparr>)"
      using inv by (simp add: l1_inv_def)
    then show ?thesis using l1_inv_drop [OF inv e(1)] e(2) Some by (simp add: getL1_def Let_def)
  qed
qed

lemma l1_inv_removeL1LRU: "l1_inv h \<Longrightarrow> l1_inv (removeL1LRU h)"
  by (auto simp: removeL1LRU_def list_back_def intro: l1_inv_drop)

lemma removeL1LRU_frame [simp]:
  "elems (removeL1LRU h) = elems h" "next_elem (removeL1LRU h) = next_elem h"
  by (auto simp: removeL1LRU_def split: option.split)

lemma l1_inv_push:
  assumes inv: "l1_inv h" and new: "fmlookup (cache h) key = None"
  shows "l1_inv (h\<lparr>elems := (elems h)(next_elem h := \<lparr>EntryKey = key, EntryValue = v\<rparr>),
     next_elem := next_elem h + 1, cacheOrder := next_elem h # cacheOrder h,
     cache := fmupd key (next_elem h) (cache h)\<rparr>)"
    (is "l1_inv ?h'")
proof -
  have fresh: "next_elem h \<notin> set (cacheOrder h)" using l1_invD(2) [OF inv] by blast
  have "(fmlookup (cache ?h') k = Some e) =
      (e \<in> set (cacheOrder ?h') \<and> EntryKey (elems ?h' e) = k)" for k e
    using l1_invD(3) [OF inv, of k e] l1_inv_None [OF inv, of key] new fresh
    by (cases "e = next_elem h") auto
  then show ?thesis using l1_invD(1,2) [OF inv] fresh by (auto simp: l1_inv_def less_SucI)
qed

lemma removeL1LRU_None: "fmlookup (cache h) key = None \<Longrightarrow> fmlookup (cache (removeL1LRU h)) key = None"
  by (simp add: removeL1LRU_def split: option.split)

lemma setL1_hit:
  assumes "fmlookup (cache h) key = Some e"
  shows "setL1 key v m h = (if m \<le> 0 then h else
    h\<lparr>elems := (elems h)(e := (elems h e)\<lparr>EntryValue := v\<rparr>),
      cacheOrder := list_move_to_front e (cacheOrder h)\<rparr>)"
  using assms by (simp add: setL1_def)

lemma setL1_off: "m \<le> 0 \<Longrightarrow> setL1 key v m h = h"
  by (simp add: setL1_def)

lemma l1_inv_overwrite: "l1_inv h \<Longrightarrow>
    l1_inv (h\<lparr>elems := (elems h)(e := (elems h e)\<lparr>EntryValue := v\<rparr>),
              cacheOrder := list_move_to_front e' (cacheOrder h)\<rparr>)"
  by (simp add: l1_inv_def)

lemma l1_inv_set: "l1_inv h \<Longrightarrow> l1_inv (setL1 key v m h)"
proof -
  assume inv: "l1_inv h"
  show ?thesis
  proof (cases "fmlookup (cache h) key")
    case None
    then show ?thesis
      using inv l1_inv_push [of h key v] l1_inv_push [of "removeL1LRU h" key v]
      by (simp add: setL1_def Let_def l1_inv_removeL1LRU removeL1LRU_None)
  next
    case (Some e)
    then show ?thesis using inv by (simp add: setL1_hit l1_inv_overwrite)
  qed
qed

lemmas l1_invs = l1_inv_empty l1_inv_clear l1_inv_get l1_inv_set l1_inv_removeL1LRU


section \<open>The abstract cache: a list of pairs, most recently used first\<close>

definition lru_del :: "string \<Rightarrow> (string \<times> KeyValue) list \<Rightarrow> (string \<times> KeyValue) list" where
  "lru_del k xs = filter (\<lambda>p. fst p \<noteq> k) xs"

definition lru_get :: "string \<Rightarrow> time \<Rightarrow> (string \<times> KeyValue) list \<Rightarrow>
    KeyValue option \<times> (string \<times> KeyValue) list" where
  "lru_get k now xs = (case map_of xs k of
       None \<Rightarrow> (None, xs)
     | Some v \<Rightarrow> if expired_at now v then (None, lru_del k xs) else (Some v, (k, v) # lru_del k xs))"

definition lru_put :: "string \<Rightarrow> KeyValue \<Rightarrow> int \<Rightarrow> (string \<times> KeyValue) list \<Rightarrow>
    (string \<times> KeyValue) list" where
  "lru_put k v m xs = (if m \<le> 0 then xs
     else if map_of xs k \<noteq> None then (k, v) # lru_del k xs
     else (k, v) # (if m \<le> int (length xs) then butlast xs else xs))"

definition l1_abs :: "l1_state \<Rightarrow> (string \<times> KeyValue) list" where
  "l1_abs h = map (\<lambda>e. (EntryKey (elems h e), EntryValue (elems h e))) (cacheOrder h)"

section \<open>The pointer structure refines the abstract cache\<close>

lemma map_of_entries:
  "distinct (map f l) \<Longrightarrow> map_of (map (\<lambda>e. (f e, g e)) l) k = Some v \<longleftrightarrow> (\<exists>e \<in> set l. f e = k \<and> g e = v)"
  by (induction l) (auto simp: image_iff)

lemma l1_keys_distinct: "l1_inv h \<Longrightarrow> distinct (map (\<lambda>e. EntryKey (elems h e)) (cacheOrder h))"
  by (auto simp: distinct_map l1_invD(1) intro!: inj_onI dest: l1_inv_keys)

lemma l1_abs_lookup:
  assumes inv: "l1_inv h"
  shows "map_of (l1_abs h) k = map_option (\<lambda>e. EntryValue (elems h e)) (fmlookup (cache h) k)"
proof (cases "fmlookup (cache h) k")
  case None
  then show ?thesis using l1_inv_None [OF inv, of k]
    by (auto simp: l1_abs_def map_of_eq_None_iff image_iff)
next
  case (Some e)
  then have "e \<in> set (cacheOrder h)" "EntryKey (elems h e) = k" using l1_invD(3) [OF inv] by auto
  then have "map_of (l1_abs h) k = Some (EntryValue (elems h e))"
    unfolding l1_abs_def map_of_entries [OF l1_keys_distinct [OF inv]] by blast
  then show ?thesis using Some by simp
qed

lemma l1_length:
  assumes inv: "l1_inv h"
  shows "fcard (fmdom (cache h)) = length (l1_abs h)"
proof -
  have "fset (fmdom (cache h)) = set (map (\<lambda>e. EntryKey (elems h e)) (cacheOrder h))"
  proof (rule set_eqI)
    fix k
    have "k \<in> fset (fmdom (cache h)) \<longleftrightarrow> (\<exists>e. fmlookup (cache h) k = Some e)"
      by (simp add: fmlookup_dom_iff)
    then show "k \<in> fset (fmdom (cache h)) \<longleftrightarrow> k \<in> set (map (\<lambda>e. EntryKey (elems h e)) (cacheOrder h))"
      using l1_invD(3) [OF inv] by auto
  qed
  then show ?thesis
    using distinct_card [OF l1_keys_distinct [OF inv]] by (simp add: fcard_def l1_abs_def)
qed

lemma l1_abs_remove:
  assumes inv: "l1_inv h" and e: "e \<in> set (cacheOrder h)"
  shows "map (\<lambda>e. (EntryKey (elems h e), EntryValue (elems h e))) (remove1 e (cacheOrder h)) =
    lru_del (EntryKey (elems h e)) (l1_abs h)"
proof -
  have "remove1 e (cacheOrder h) = filter (\<lambda>x. EntryKey (elems h x) \<noteq> EntryKey (elems h e)) (cacheOrder h)"
    using l1_inv_keys [OF inv e] l1_invD(1) [OF inv]
    by (auto simp: distinct_remove1_removeAll removeAll_filter_not_eq intro!: filter_cong)
  then show ?thesis by (simp add: lru_del_def l1_abs_def filter_map o_def)
qed

lemma l1_abs_front:
  assumes "l1_inv h" and "fmlookup (cache h) k = Some e"
  shows "map (\<lambda>e. (EntryKey (elems h e), EntryValue (elems h e))) (list_move_to_front e (cacheOrder h)) =
    (k, EntryValue (elems h e)) # lru_del k (l1_abs h)"
  using assms l1_abs_remove [of h e] by (auto simp: list_move_to_front_def l1_invD(3))

lemma l1_abs_upd:
  "l1_abs (h\<lparr>cacheOrder := l\<rparr>) = map (\<lambda>e. (EntryKey (elems h e), EntryValue (elems h e))) l"
  "l1_abs (h\<lparr>cache := c, cacheOrder := l\<rparr>) = map (\<lambda>e. (EntryKey (elems h e), EntryValue (elems h e))) l"
  by (simp_all add: l1_abs_def)

lemma l1_abs_get:
  assumes inv: "l1_inv h"
  shows "fst (getL1 k now h) = fst (lru_get k now (l1_abs h))"
    and "l1_abs (snd (getL1 k now h)) = snd (lru_get k now (l1_abs h))"
proof -
  have "fst (getL1 k now h) = fst (lru_get k now (l1_abs h)) \<and>
      l1_abs (snd (getL1 k now h)) = snd (lru_get k now (l1_abs h))"
  proof (cases "fmlookup (cache h) k")
    case None
    then show ?thesis by (simp add: getL1_def lru_get_def l1_abs_lookup [OF inv])
  next
    case (Some e)
    then have e: "e \<in> set (cacheOrder h)" "EntryKey (elems h e) = k" using l1_invD(3) [OF inv] by auto
    show ?thesis
      using Some l1_abs_remove [OF inv e(1)] l1_abs_front [OF inv Some] e(2)
      by (simp add: getL1_def lru_get_def l1_abs_lookup [OF inv] Let_def expired_at_def l1_abs_upd)
  qed
  then show "fst (getL1 k now h) = fst (lru_get k now (l1_abs h))"
    and "l1_abs (snd (getL1 k now h)) = snd (lru_get k now (l1_abs h))" by auto
qed

lemma l1_abs_removeL1LRU: "l1_inv h \<Longrightarrow> l1_abs (removeL1LRU h) = butlast (l1_abs h)"
proof -
  assume inv: "l1_inv h"
  have "remove1 (last l) l = butlast l" if "l \<noteq> []" "distinct l" for l :: "nat list"
    using that by (induction l) auto
  then show ?thesis using l1_invD(1) [OF inv]
    by (auto simp: removeL1LRU_def list_back_def l1_abs_def map_butlast)
qed

lemma l1_abs_push: "l1_inv h \<Longrightarrow>
    l1_abs (h\<lparr>elems := (elems h)(next_elem h := \<lparr>EntryKey = k, EntryValue = v\<rparr>), next_elem := n,
      cacheOrder := next_elem h # cacheOrder h, cache := c\<rparr>) = (k, v) # l1_abs h"
  using l1_invD(2) [of h "next_elem h"] by (auto simp: l1_abs_def)

lemma lru_del_map_cong:
  "(\<And>x. x \<in> set l \<Longrightarrow> fst (f x) = fst (g x)) \<Longrightarrow>
   (\<And>x. x \<in> set l \<Longrightarrow> fst (g x) \<noteq> k \<Longrightarrow> f x = g x) \<Longrightarrow>
   lru_del k (map f l) = lru_del k (map g l)"
  by (induction l) (auto simp: lru_del_def)

lemma l1_abs_put:
  assumes inv: "l1_inv h"
  shows "l1_abs (setL1 k v m h) = lru_put k v m (l1_abs h)"
proof (cases "fmlookup (cache h) k")
  case None
  then show ?thesis
    using l1_abs_push [OF inv] l1_abs_push [OF l1_inv_removeL1LRU [OF inv]]
    by (simp add: setL1_def lru_put_def l1_abs_lookup [OF inv] l1_length [OF inv] Let_def
        l1_abs_removeL1LRU [OF inv])
next
  case (Some e)
  let ?h = "h\<lparr>elems := (elems h)(e := (elems h e)\<lparr>EntryValue := v\<rparr>)\<rparr>"
  have inv': "l1_inv ?h" using inv by (simp add: l1_inv_def)
  have "lru_del k (l1_abs ?h) = lru_del k (l1_abs h)"
    unfolding l1_abs_def using l1_invD(3) [OF inv, of k e] Some by (auto intro!: lru_del_map_cong)
  moreover have "l1_abs (?h\<lparr>cacheOrder := list_move_to_front e (cacheOrder h)\<rparr>) = (k, v) # lru_del k (l1_abs ?h)"
    using l1_abs_front [OF inv', of k e] Some by (simp add: l1_abs_def)
  ultimately show ?thesis
    using Some by (simp add: setL1_hit lru_put_def l1_abs_lookup [OF inv])
qed

lemma l1_abs_clear: "l1_abs (clearL1 h) = []"
  by (simp add: l1_abs_def clearL1_def)

lemmas l1_refines = l1_abs_get l1_abs_put l1_abs_clear l1_abs_removeL1LRU


section \<open>The code meets the contract\<close>

definition l1_find :: "l1_state \<Rightarrow> string \<Rightarrow> KeyValue option" where
  "l1_find h = map_of (l1_abs h)"

definition l1_entries :: "l1_state \<Rightarrow> nat" where
  "l1_entries h = fcard (fmdom (cache h))"

lemma map_of_lru_del [simp]: "map_of (lru_del k xs) k' = (if k' = k then None else map_of xs k')"
  by (induction xs) (auto simp: lru_del_def)

lemma length_lru_del: "length (lru_del k xs) \<le> length xs"
  by (simp add: lru_del_def)

lemma length_lru_del_present: "map_of xs k = Some v \<Longrightarrow> length (lru_del k xs) < length xs"
  by (induction xs) (auto simp: lru_del_def less_Suc_eq_le split: if_splits intro: le_trans [OF length_filter_le])

lemma map_of_butlast: "distinct (map fst xs) \<Longrightarrow> map_of (butlast xs) k = Some v \<Longrightarrow> map_of xs k = Some v"
  by (metis distinct_map in_set_butlastD map_butlast distinct_butlast map_of_SomeD map_of_is_SomeI)

lemma l1_abs_distinct: "l1_inv h \<Longrightarrow> distinct (map fst (l1_abs h))"
  using l1_keys_distinct [of h] by (simp add: l1_abs_def o_def)

interpretation l1: bounded_cache l1_inv l1_find l1_entries getL1 setL1 clearL1
proof (unfold_locales, goal_cases)
  case (4 s k now)
  then show ?case by (simp add: l1_find_def l1_refines lru_get_def split: option.split)
next
  case (5 s k now k')
  then show ?case by (auto simp: l1_find_def l1_refines lru_get_def split: option.split)
next
  case (6 s k now)
  then show ?case
    using length_lru_del [of k "l1_abs s"] length_lru_del_present [of "l1_abs s" k]
    by (auto simp: l1_entries_def l1_length l1_inv_get l1_refines lru_get_def Suc_le_eq split: option.split)
next
  case (9 s k' k v m w)
  then show ?case using map_of_butlast [OF l1_abs_distinct]
    by (auto simp: l1_find_def l1_refines lru_put_def split: if_splits)
next
  case (10 s M m k v)
  then show ?case
    using length_lru_del_present [of "l1_abs s" k]
    by (fastforce simp: l1_entries_def l1_length l1_inv_set l1_refines lru_put_def)
next
  case 12
  then show ?case by (simp add: l1_entries_def clearL1_def)
qed (auto simp: l1_invs l1_find_def l1_refines lru_put_def setL1_off)


lemma l1_entries_empty [simp]: "l1_entries empty_l1 = 0"
  by (simp add: l1_entries_def empty_l1_def fcard_def)

section \<open>Properties\<close>

text \<open>
  C4. The map-and-linked-list structure is a least-recently-used cache: on a well-formed
  state \<open>getL1\<close>, \<open>setL1\<close> and \<open>clearL1\<close> return and leave behind exactly what the list of
  pairs does, so a hit moves the entry to the front, an expired entry is dropped, a new entry
  goes to the front and, at capacity, the entry used longest ago is the one evicted.
\<close>

theorem l1_refines_lru:
  assumes "l1_inv h"
  shows "fst (getL1 k now h) = fst (lru_get k now (l1_abs h)) \<and>
    l1_abs (snd (getL1 k now h)) = snd (lru_get k now (l1_abs h)) \<and>
    l1_abs (setL1 k v m h) = lru_put k v m (l1_abs h) \<and>
    l1_abs (removeL1LRU h) = butlast (l1_abs h) \<and>
    l1_abs (clearL1 h) = []"
  using assms by (simp add: l1_refines)

text \<open>
  However the requests' calls on the cache interleave, map and list stay consistent:
  the same elements, each under its own key, no element twice.
\<close>

theorem l1_always_consistent: "l1_inv (run_calls getL1 setL1 clearL1 cs empty_l1)"
  by (rule l1.ok_run [OF l1_inv_empty])

text \<open>
  The number of entries never passes the largest capacity the calls were made with.
\<close>

theorem l1_capacity:
  assumes "within_capacity M cs" and "0 \<le> M"
  shows "int (l1_entries (run_calls getL1 setL1 clearL1 cs empty_l1)) \<le> M"
  using assms l1.run_within [OF l1_inv_empty, of M cs] by simp

text \<open>
  C36. A hit is never stale: the value is the last one stored under the key since the last
  clear, its L1 deadline has not passed, and neither has its L2 deadline when it has one.
\<close>

theorem l1_hit_is_fresh:
  assumes "fst (getL1 k now (run_calls getL1 setL1 clearL1 cs empty_l1)) = Some v"
  shows "stored cs Map.empty k = Some v \<and> now \<le> L1Expiration v \<and>
    (isZero (L2Expiration v) \<or> now \<le> L2Expiration v)"
proof -
  have "l1_find empty_l1 k = None" for k by (simp add: l1_find_def l1_abs_def empty_l1_def)
  from l1.hit_stored [OF l1_inv_empty this assms] show ?thesis by (auto simp: expired_at_def)
qed

text \<open>
  A value just stored with a positive capacity is found until it expires, also when the
  cache was full.
\<close>

theorem l1_store_then_hit:
  assumes "0 < m" and "now \<le> L1Expiration v" and "isZero (L2Expiration v) \<or> now \<le> L2Expiration v"
  shows "fst (getL1 k now (setL1 k v m (run_calls getL1 setL1 clearL1 cs empty_l1))) = Some v"
  using assms by (intro l1.get_after_put l1.ok_run l1_inv_empty) (auto simp: expired_at_def)

section \<open>Witnesses\<close>

text \<open>Three stores into a cache of two entries: the first key is evicted.\<close>

definition sample_value :: "string \<Rightarrow> KeyValue" where
  "sample_value s = \<lparr>Value = s, L1Expiration = 5 * second, L2Expiration = 9 * second,
                      RecomputeDuration = 250 * millisecond\<rparr>"

definition sample_calls :: "cache_call list" where
  "sample_calls = [Put ''a'' (sample_value ''1'') 2, Put ''b'' (sample_value ''2'') 2,
                   Get ''a'' second, Put ''c'' (sample_value ''3'') 2]"

lemma sample_abs: "l1_abs (run_calls getL1 setL1 clearL1 sample_calls empty_l1) =
    [(''c'', sample_value ''3''), (''a'', sample_value ''1'')]"
proof -
  have e: "l1_abs empty_l1 = []" by (simp add: l1_abs_def empty_l1_def)
  show ?thesis
    by (simp add: sample_calls_def l1_refines l1_invs e lru_put_def lru_get_def lru_del_def
        expired_at_def sample_value_def isZero_def zero_time_def)
qed

theorem l1_refines_lru_witness:
  "l1_inv (run_calls getL1 setL1 clearL1 sample_calls empty_l1) \<and>
   map fst (l1_abs (setL1 ''d'' (sample_value ''4'') 2
      (run_calls getL1 setL1 clearL1 sample_calls empty_l1))) = [''d'', ''c'']"
proof -
  let ?h = "run_calls getL1 setL1 clearL1 sample_calls empty_l1"
  have inv: "l1_inv ?h" by (rule l1.ok_run [OF l1_inv_empty])
  have "l1_abs (setL1 ''d'' (sample_value ''4'') 2 ?h) = lru_put ''d'' (sample_value ''4'') 2 (l1_abs ?h)"
    using l1_refines_lru [OF inv, of "''d''" 0 "sample_value ''4''" 2] by blast
  then show ?thesis using inv by (simp add: sample_abs lru_put_def)
qed

theorem l1_capacity_witness:
  "within_capacity 2 sample_calls \<and>
   int (l1_entries (run_calls getL1 setL1 clearL1 sample_calls empty_l1)) \<le> 2"
proof -
  have w: "within_capacity 2 sample_calls" by (simp add: within_capacity_def sample_calls_def)
  show ?thesis using w l1_capacity [OF w] by simp
qed

theorem l1_hit_is_fresh_witness:
  "fst (getL1 ''a'' second (run_calls getL1 setL1 clearL1 sample_calls empty_l1)) =
     Some (sample_value ''1'') \<and> stored sample_calls Map.empty ''a'' = Some (sample_value ''1'')"
proof -
  let ?h = "run_calls getL1 setL1 clearL1 sample_calls empty_l1"
  have inv: "l1_inv ?h" by (rule l1.ok_run [OF l1_inv_empty])
  have hit: "fst (getL1 ''a'' second ?h) = Some (sample_value ''1'')"
    using inv by (simp add: l1_refines sample_abs lru_get_def expired_at_def sample_value_def)
  show ?thesis using hit l1_hit_is_fresh [OF hit] by blast
qed

theorem l1_store_then_hit_witness:
  "fst (getL1 ''z'' second (setL1 ''z'' (sample_value ''9'') 2
     (run_calls getL1 setL1 clearL1 sample_calls empty_l1))) = Some (sample_value ''9'')"
  by (rule l1_store_then_hit) (simp_all add: sample_value_def)

end
