(* ===== verification/Environment.thy ===== *)
theory Environment
  imports Gateway_Types
begin

text \<open>
  Everything the gateway calls that is not in the repository: the clock, randomness and
  timers, the Redis server and the client library that talks to it, JSON, the reverse proxy
  to the backend. All of it is a parameter: a record \<open>env\<close> of computations over an unknown
  world \<open>'w\<close>. A Redis value is of an unknown type \<open>'v\<close>.

  \<open>redis_do\<close> is a call of the client library: the command may not reach the server, its
  reply may be lost after it took effect, or it is served. The locales at the end state what
  Redis documents about the commands the gateway sends; theorems that need it name the locale
  as a hypothesis. \<open>Mini_Redis\<close> shows that the laws can hold.
\<close>

section \<open>Contexts, links, replies\<close>

text \<open>
  \<open>context.Context\<close>: the background context, the request's context, and a context with a
  deadline derived from another.
\<close>

datatype ctx = Background | RequestCtx | Deadline ctx time

text \<open>What becomes of a command that is sent.\<close>

datatype link = Delivered | NotSent string | ReplyLost string

text \<open>An element of a reply array of type \<open>interface{}\<close>: nil, a string, or anything else.\<close>

datatype 'v reply = RNil | RStr 'v | ROther

datatype zmember = ZStr string | ZOther

text \<open>
  How \<open>httputil.ReverseProxy.ServeHTTP\<close> ends: a backend answer copied to the recorder, a
  transport error handed to the error handler, or a panic with \<open>http.ErrAbortHandler\<close> when the
  body breaks off while it is copied.
\<close>

datatype proxy_outcome = Answered int string | TransportError goerr | AbortPanic

text \<open>
  How the \<open>select\<close> of a request that waits for another request's call fires: the call is done,
  with what it published, or the request's own context is.
\<close>

datatype select_event = CallDone string int "goerr option" | ContextDone

text \<open>
  What the gateway looks at in a request: the method and the URL. \<open>RawPath\<close> is
  empty unless the path has an encoding of its own.
\<close>

record request =
  Method :: string
  Path :: string
  RawPath :: string
  RawQuery :: string

record ('w, 'v) redis_env =
  link_status :: "ctx \<Rightarrow> ('w, link) state"
  c_get :: "string \<Rightarrow> ('w, 'v option) state"
  c_set :: "string \<Rightarrow> 'v \<Rightarrow> duration \<Rightarrow> ('w, unit) state"
  c_setnx :: "string \<Rightarrow> 'v \<Rightarrow> duration \<Rightarrow> ('w, bool) state"
  c_del :: "string list \<Rightarrow> ('w, int) state"
  c_exists :: "string \<Rightarrow> ('w, int) state"
  c_incr :: "string \<Rightarrow> ('w, string + int) state"
  c_mget :: "string list \<Rightarrow> ('w, 'v reply list) state"
  c_zadd :: "string \<Rightarrow> string \<Rightarrow> f64 \<Rightarrow> ('w, unit) state"
  c_zrem :: "string \<Rightarrow> string \<Rightarrow> ('w, unit) state"
  c_zcard :: "string \<Rightarrow> ('w, int) state"
  c_zpopmin :: "string \<Rightarrow> int \<Rightarrow> ('w, zmember list) state"
  c_zrange :: "string \<Rightarrow> ('w, string list) state"
  string_value :: "string \<Rightarrow> 'v"
  int_value :: "int \<Rightarrow> 'v"
  parse_int :: "'v \<Rightarrow> int option"
  enc_l2 :: "L2CacheValue \<Rightarrow> 'v option"
  dec_l2 :: "'v \<Rightarrow> L2CacheValue option"
  enc_config :: "GatewayConfig \<Rightarrow> 'v option"
  dec_config :: "'v \<Rightarrow> GatewayConfig option"
  enc_snapshot :: "AdaptiveTTLSnapshot \<Rightarrow> 'v option"
  dec_snapshot :: "'v \<Rightarrow> AdaptiveTTLSnapshot option"

record ('w, 'v) env = "('w, 'v) redis_env" +
  now :: "('w, time) state"
  random_token :: "('w, string option) state"
  random_float :: "('w, f64) state"
  ctx_err :: "ctx \<Rightarrow> ('w, goerr option) state"
  sleep_or_done :: "ctx \<Rightarrow> duration \<Rightarrow> ('w, bool) state"
  sha256_hex :: "string \<Rightarrow> string"
  math_log :: "f64 \<Rightarrow> f64"
  math_exp :: "f64 \<Rightarrow> f64"
  float_overflow :: "f64 \<Rightarrow> int"
  escape_path :: "string \<Rightarrow> string"
  proxy_serve :: "ctx \<Rightarrow> request \<Rightarrow> ('w, proxy_outcome) state"
  http_get_load :: "ctx \<Rightarrow> ('w, goerr + int \<times> BackendLoadSignals option) state"
  select_call :: "nat \<Rightarrow> ('w, select_event) state"

text \<open>\<open>URL.RequestURI\<close> of the Go library: the encoded path, never empty, and the query.\<close>

definition RequestURI :: "('w, 'v) env \<Rightarrow> request \<Rightarrow> string" where
  "RequestURI E r =
     (let p = (if RawPath r \<noteq> [] then RawPath r else escape_path E (Path r));
          p = (if p = [] then ''/'' else p)
      in if RawQuery r \<noteq> [] then p @ ''?'' @ RawQuery r else p)"

section \<open>The state of a running gateway process, seen from its helpers\<close>

text \<open>
  Calls into the metrics library, in order. Metrics are never read back by the code, so the
  trace of calls is all a model needs.
\<close>

datatype metric =
    IncUserRequests | IncFailedRequests | IncL1Hits | IncL2Hits | IncCacheMisses
  | ObserveRequestDuration duration | ObserveBackendDuration duration
  | IncWaiting | DecWaiting | IncLockAttempts string
  | IncBackendCalls string | IncLogicalRefreshes string
  | SetAdaptiveFactor f64 | SetEffectiveSeconds string f64 | SetAdaptiveState f64 | SetBackendP99 f64

record 'w sys =
  world :: 'w
  metrics :: "metric list"

definition on_world :: "('w, 'a) state \<Rightarrow> (('w, 'x) sys_scheme, 'a) state" where
  "on_world m = State (\<lambda>s. let (a, w) = run_state m (world s) in (a, s\<lparr>world := w\<rparr>))"

definition emit :: "metric \<Rightarrow> (('w, 'x) sys_scheme, unit) state" where
  "emit e = State (\<lambda>s. ((), s\<lparr>metrics := metrics s @ [e]\<rparr>))"

lemma run_on_world [run]:
  "run_state (on_world m) s = (result m (world s), s\<lparr>world := exec m (world s)\<rparr>)"
  by (simp add: on_world_def result_def exec_def split: prod.split)

lemma exec_on_world [run]: "exec (on_world m) s = s\<lparr>world := exec m (world s)\<rparr>"
  and result_on_world [run]: "result (on_world m) s = result m (world s)"
  by (simp_all add: exec_def result_def run_on_world)

lemma run_emit [run]: "run_state (emit e) s = ((), s\<lparr>metrics := metrics s @ [e]\<rparr>)"
  by (simp add: emit_def)

lemma exec_emit [run]: "exec (emit e) s = s\<lparr>metrics := metrics s @ [e]\<rparr>"
  by (simp add: exec_def run_emit)

section \<open>Redis calls\<close>

definition redis_do :: "('w, 'v, 'z) redis_env_scheme \<Rightarrow> ctx \<Rightarrow> ('w, 'a) state \<Rightarrow> ('w, goerr + 'a) state" where
  "redis_do E c cmd = do {
     l \<leftarrow> link_status E c;
     case l of
       Delivered \<Rightarrow> do { a \<leftarrow> cmd; ret (Inr a) }
     | NotSent e \<Rightarrow> ret (Inl (LibErr e))
     | ReplyLost e \<Rightarrow> do { _ \<leftarrow> cmd; ret (Inl (LibErr e)) } }"

definition redis :: "('w, 'v, 'z) redis_env_scheme \<Rightarrow> ctx \<Rightarrow> ('w, 'a) state \<Rightarrow>
    (('w, 'x) sys_scheme, goerr + 'a) state" where
  "redis E c cmd = on_world (redis_do E c cmd)"

text \<open>\<open>context.WithTimeout\<close> reads the clock once.\<close>

definition with_timeout :: "('w, 'v) env \<Rightarrow> ctx \<Rightarrow> duration \<Rightarrow> (('w, 'x) sys_scheme, ctx) state" where
  "with_timeout E c d = do { t \<leftarrow> on_world (now E); ret (Deadline c (t + d)) }"

definition time_now :: "('w, 'v) env \<Rightarrow> (('w, 'x) sys_scheme, time) state" where
  "time_now E = on_world (now E)"

section \<open>What Redis documents\<close>

text \<open>
  What a client can observe of a server: its clock, its string keys with their expiry, and
  its sorted sets.
\<close>

record 'v view =
  server_time :: time
  keys :: "string \<Rightarrow> ('v \<times> time option) option"
  zsets :: "string \<Rightarrow> string \<Rightarrow> f64 option"

definition lookup_at :: "'v view \<Rightarrow> string \<Rightarrow> 'v option" where
  "lookup_at v k = (case keys v k of
       None \<Rightarrow> None
     | Some (x, None) \<Rightarrow> Some x
     | Some (x, Some t) \<Rightarrow> if server_time v < t then Some x else None)"

text \<open>
  A time to live of 0 means none; the client library sends a positive one in whole
  milliseconds, rounded down.
\<close>

definition expiry_for :: "'v view \<Rightarrow> duration \<Rightarrow> time option \<Rightarrow> bool" where
  "expiry_for v ttl e \<longleftrightarrow> (if ttl = 0 then e = None
     else \<exists>t. e = Some t \<and> server_time v + ttl - millisecond < t \<and> t \<le> server_time v + ttl)"

definition ttl_ok :: "duration \<Rightarrow> bool" where
  "ttl_ok ttl \<longleftrightarrow> ttl = 0 \<or> millisecond \<le> ttl"

definition put_key :: "string \<Rightarrow> 'v \<Rightarrow> time option \<Rightarrow> 'v view \<Rightarrow> 'v view" where
  "put_key k x e v = v\<lparr>keys := (keys v)(k \<mapsto> (x, e))\<rparr>"

definition del_keys :: "string list \<Rightarrow> 'v view \<Rightarrow> 'v view" where
  "del_keys ks v = v\<lparr>keys := (\<lambda>k. if k \<in> set ks then None else keys v k),
                     zsets := (\<lambda>k. if k \<in> set ks then Map.empty else zsets v k)\<rparr>"

definition zput :: "string \<Rightarrow> string \<Rightarrow> f64 \<Rightarrow> 'v view \<Rightarrow> 'v view" where
  "zput z m s v = v\<lparr>zsets := (zsets v)(z := (zsets v z)(m \<mapsto> s))\<rparr>"

definition zdrop :: "string \<Rightarrow> string set \<Rightarrow> 'v view \<Rightarrow> 'v view" where
  "zdrop z ms v = v\<lparr>zsets := (zsets v)(z := (zsets v z) |` (- ms))\<rparr>"

text \<open>The server's state when it serves a command: the command's moment, nothing else changed.\<close>

definition served :: "('w \<Rightarrow> 'v view) \<Rightarrow> ('w, 'a) state \<Rightarrow> 'w \<Rightarrow> 'v view" where
  "served vw m w = (vw w)\<lparr>server_time := server_time (vw (exec m w))\<rparr>"

definition time_passes :: "('w \<Rightarrow> 'v view) \<Rightarrow> ('w, 'a) state \<Rightarrow> 'w \<Rightarrow> bool" where
  "time_passes vw m w \<longleftrightarrow> server_time (vw w) \<le> server_time (vw (exec m w))"

text \<open>String keys: reading and writing them, deleting them, and the link and clock.\<close>

locale redis_strings =
  fixes E :: "('w, 'v) env" and vw :: "'w \<Rightarrow> 'v view"
  assumes link_quiet: "vw (exec (link_status E c) w) = served vw (link_status E c) w"
    and link_time: "time_passes vw (link_status E c) w"
    and now_quiet: "vw (exec (now E) w) = served vw (now E) w"
    and now_time: "time_passes vw (now E) w"
    and token_quiet: "vw (exec (random_token E) w) = served vw (random_token E) w"
    and token_time: "time_passes vw (random_token E) w"
    and get_result: "result (c_get E k) w = lookup_at (served vw (c_get E k) w) k"
    and get_effect: "vw (exec (c_get E k) w) = served vw (c_get E k) w"
    and get_time: "time_passes vw (c_get E k) w"
    and set_effect: "ttl_ok ttl \<Longrightarrow> \<exists>e. expiry_for (served vw (c_set E k x ttl) w) ttl e \<and>
          vw (exec (c_set E k x ttl) w) = put_key k x e (served vw (c_set E k x ttl) w)"
    and set_time: "time_passes vw (c_set E k x ttl) w"
    and setnx_result: "ttl_ok ttl \<Longrightarrow> result (c_setnx E k x ttl) w \<longleftrightarrow>
          lookup_at (served vw (c_setnx E k x ttl) w) k = None"
    and setnx_effect: "ttl_ok ttl \<Longrightarrow> result (c_setnx E k x ttl) w \<Longrightarrow>
          \<exists>e. expiry_for (served vw (c_setnx E k x ttl) w) ttl e \<and>
          vw (exec (c_setnx E k x ttl) w) = put_key k x e (served vw (c_setnx E k x ttl) w)"
    and setnx_refused: "ttl_ok ttl \<Longrightarrow> \<not> result (c_setnx E k x ttl) w \<Longrightarrow>
          vw (exec (c_setnx E k x ttl) w) = served vw (c_setnx E k x ttl) w"
    and setnx_time: "time_passes vw (c_setnx E k x ttl) w"
    and del_effect: "vw (exec (c_del E ks) w) = del_keys ks (served vw (c_del E ks) w)"
    and del_time: "time_passes vw (c_del E ks) w"

text \<open>Sorted sets, and the JSON form of cached values.\<close>

locale redis_l2 = redis_strings E vw for E :: "('w, 'v) env" and vw :: "'w \<Rightarrow> 'v view" +
  assumes zset_finite: "finite (dom (zsets (vw w) z))"
    and zadd_effect: "vw (exec (c_zadd E z m s) w) = zput z m s (served vw (c_zadd E z m s) w)"
    and zadd_time: "time_passes vw (c_zadd E z m s) w"
    and zrem_effect: "vw (exec (c_zrem E z m) w) = zdrop z {m} (served vw (c_zrem E z m) w)"
    and zrem_time: "time_passes vw (c_zrem E z m) w"
    and zcard_result: "result (c_zcard E z) w = int (card (dom (zsets (vw w) z)))"
    and zcard_effect: "vw (exec (c_zcard E z) w) = served vw (c_zcard E z) w"
    and zcard_time: "time_passes vw (c_zcard E z) w"
    and zpop_effect: "0 \<le> n \<Longrightarrow> \<exists>ms. result (c_zpopmin E z n) w = map ZStr ms \<and> distinct ms \<and>
          set ms \<subseteq> dom (zsets (vw w) z) \<and>
          length ms = min (nat n) (card (dom (zsets (vw w) z))) \<and>
          (\<forall>m \<in> set ms. \<forall>m' \<in> dom (zsets (vw w) z) - set ms.
             the (zsets (vw w) z m) \<le> the (zsets (vw w) z m')) \<and>
          vw (exec (c_zpopmin E z n) w) = zdrop z (set ms) (served vw (c_zpopmin E z n) w)"
    and zpop_time: "time_passes vw (c_zpopmin E z n) w"
    and zrange_result: "set (result (c_zrange E z) w) = dom (zsets (vw w) z)"
    and zrange_effect: "vw (exec (c_zrange E z) w) = served vw (c_zrange E z) w"
    and zrange_time: "time_passes vw (c_zrange E z) w"
    and l2_json: "in64 (RecomputeDurationMs x) \<Longrightarrow> in64 (ExpiresAtUnixMs x) \<Longrightarrow>
          \<exists>d. enc_l2 E x = Some d \<and> dec_l2 E d = Some x"

text \<open>A link that delivers every command.\<close>

definition reliable :: "('w, 'v) env \<Rightarrow> bool" where
  "reliable E \<longleftrightarrow> (\<forall>c w. result (link_status E c) w = Delivered)"


section \<open>Consequences for calls over a reliable link\<close>

lemma served_simps [simp]:
  "keys (served vw m w) = keys (vw w)" "zsets (served vw m w) = zsets (vw w)"
  "server_time (served vw m w) = server_time (vw (exec m w))"
  by (simp_all add: served_def)

lemma view_fields [simp]:
  "keys (put_key k x e v) = (keys v)(k \<mapsto> (x, e))" "zsets (put_key k x e v) = zsets v"
  "server_time (put_key k x e v) = server_time v"
  "keys (zput z m s v) = keys v" "zsets (zput z m s v) = (zsets v)(z := (zsets v z)(m \<mapsto> s))"
  "server_time (zput z m s v) = server_time v"
  "keys (zdrop z ms v) = keys v" "zsets (zdrop z ms v) = (zsets v)(z := (zsets v z) |` (- ms))"
  "server_time (zdrop z ms v) = server_time v"
  "keys (del_keys ks v) = (\<lambda>k. if k \<in> set ks then None else keys v k)"
  "zsets (del_keys ks v) = (\<lambda>k. if k \<in> set ks then Map.empty else zsets v k)"
  "server_time (del_keys ks v) = server_time v"
  by (simp_all add: put_key_def zput_def zdrop_def del_keys_def)

lemma view_time [simp]:
  "put_key k x e (v\<lparr>server_time := t\<rparr>) = (put_key k x e v)\<lparr>server_time := t\<rparr>"
  "zput z m sc (v\<lparr>server_time := t\<rparr>) = (zput z m sc v)\<lparr>server_time := t\<rparr>"
  "zdrop z ms (v\<lparr>server_time := t\<rparr>) = (zdrop z ms v)\<lparr>server_time := t\<rparr>"
  "del_keys ks (v\<lparr>server_time := t\<rparr>) = (del_keys ks v)\<lparr>server_time := t\<rparr>"
  by (auto intro!: view.equality)

lemma lookup_at_later: "server_time v \<le> u \<Longrightarrow> lookup_at (v\<lparr>server_time := u\<rparr>) k = Some x \<Longrightarrow> lookup_at v k = Some x"
  by (auto simp: lookup_at_def split: option.splits if_splits)

lemma lookup_at_del: "lookup_at (del_keys ks v) k = (if k \<in> set ks then None else lookup_at v k)"
  by (cases "k \<in> set ks") (simp_all add: lookup_at_def split: option.split)

lemma lookup_at_z [simp]: "lookup_at (zput z m sc v) k = lookup_at v k" "lookup_at (zdrop z ms v) k = lookup_at v k"
  by (simp_all add: lookup_at_def split: option.split)

lemma lookup_at_put [simp]: "k \<noteq> k' \<Longrightarrow> lookup_at (put_key k' x e v) k = lookup_at v k"
  by (simp add: lookup_at_def split: option.split)

lemma effect_at:
  "vw (exec m w) = f (served vw m w) \<Longrightarrow> time_passes vw m w \<Longrightarrow>
   \<exists>t \<ge> server_time (vw w). vw (exec m w) = f ((vw w)\<lparr>server_time := t\<rparr>)"
  by (auto simp: served_def time_passes_def)

lemma served_shift: "vw (exec m w) = served vw m w \<Longrightarrow>
    vw (exec m w) = (vw w)\<lparr>server_time := server_time (vw (exec m w))\<rparr>"
  by (simp add: served_def)

lemma lookup_at_None: "keys v k = None \<Longrightarrow> lookup_at v k = None"
  by (simp add: lookup_at_def)

lemma lookup_at_Some:
  "keys v k = Some (x, e) \<Longrightarrow> (\<And>t. e = Some t \<Longrightarrow> server_time v < t) \<Longrightarrow> lookup_at v k = Some x"
  by (cases e) (simp_all add: lookup_at_def)

lemma redis_delivered:
  assumes "reliable E"
  shows "result (redis E c cmd) s = Inr (result cmd (exec (link_status E c) (world s)))"
    and "exec (redis E c cmd) s = s\<lparr>world := exec cmd (exec (link_status E c) (world s))\<rparr>"
  using assms by (simp_all add: redis_def redis_do_def run reliable_def)

lemma time_now_run [run]:
  "result (time_now E) s = result (now E) (world s)"
  "exec (time_now E) s = s\<lparr>world := exec (now E) (world s)\<rparr>"
  by (simp_all add: time_now_def run)

context redis_strings
begin

lemma link_view:
  "\<exists>t \<ge> server_time (vw w). vw (exec (link_status E c) w) = (vw w)\<lparr>server_time := t\<rparr>"
  using served_shift [OF link_quiet, of c w] link_time [of c w] unfolding time_passes_def by blast

lemma now_view:
  "\<exists>t \<ge> server_time (vw w). vw (exec (now E) w) = (vw w)\<lparr>server_time := t\<rparr>"
  using served_shift [OF now_quiet, of w] now_time [of w] unfolding time_passes_def by blast

lemma redis_effect:
  assumes rel: "reliable E"
    and eff: "\<And>w. vw (exec cmd w) = f (served vw cmd w)"
    and tp: "\<And>w. time_passes vw cmd w"
  shows "\<exists>t \<ge> server_time (vw (world s)).
    vw (world (exec (redis E c cmd) s)) = f ((vw (world s))\<lparr>server_time := t\<rparr>)"
proof -
  let ?w = "exec (link_status E c) (world s)"
  obtain t where t: "server_time (vw (world s)) \<le> t" "vw ?w = (vw (world s))\<lparr>server_time := t\<rparr>"
    using link_view by blast
  have "vw (exec cmd ?w) = f ((vw (world s))\<lparr>server_time := server_time (vw (exec cmd ?w))\<rparr>)"
    using eff [of ?w] t(2) by (simp add: served_def)
  moreover have "t \<le> server_time (vw (exec cmd ?w))" using tp [of ?w] t(2) by (simp add: time_passes_def)
  ultimately show ?thesis using t(1) redis_delivered(2) [OF rel, of c cmd s] by (auto intro: order_trans)
qed

lemma redis_get:
  assumes "reliable E"
  shows "\<exists>t \<ge> server_time (vw (world s)).
    vw (world (exec (redis E c (c_get E k)) s)) = (vw (world s))\<lparr>server_time := t\<rparr> \<and>
    result (redis E c (c_get E k)) s = Inr (lookup_at ((vw (world s))\<lparr>server_time := t\<rparr>) k)"
proof -
  let ?w = "exec (link_status E c) (world s)"
  obtain t where t: "server_time (vw (world s)) \<le> t"
      "vw (world (exec (redis E c (c_get E k)) s)) = (vw (world s))\<lparr>server_time := t\<rparr>"
    using redis_effect [OF assms get_effect get_time] by blast
  have "result (c_get E k) ?w = lookup_at (vw (exec (c_get E k) ?w)) k"
    by (simp add: get_result get_effect)
  then show ?thesis using t redis_delivered [OF assms, of c "c_get E k" s] by auto
qed

lemma redis_set:
  assumes rel: "reliable E" and ttl: "ttl_ok ttl"
  shows "\<exists>t e. server_time (vw (world s)) \<le> t \<and> expiry_for ((vw (world s))\<lparr>server_time := t\<rparr>) ttl e \<and>
    vw (world (exec (redis E c (c_set E k x ttl)) s)) =
      put_key k x e ((vw (world s))\<lparr>server_time := t\<rparr>)"
proof -
  let ?w = "exec (link_status E c) (world s)" and ?m = "c_set E k x ttl"
  obtain t where t: "server_time (vw (world s)) \<le> t" "vw ?w = (vw (world s))\<lparr>server_time := t\<rparr>"
    using link_view by blast
  obtain e where e: "expiry_for (served vw ?m ?w) ttl e" "vw (exec ?m ?w) = put_key k x e (served vw ?m ?w)"
    using set_effect [OF ttl] by blast
  have sv: "served vw ?m ?w = (vw (world s))\<lparr>server_time := server_time (vw (exec ?m ?w))\<rparr>"
    using t(2) by (simp add: served_def)
  have "t \<le> server_time (vw (exec ?m ?w))" using set_time [of k x ttl ?w] t(2) by (simp add: time_passes_def)
  then show ?thesis
    using e t(1) redis_delivered(2) [OF rel, of c ?m s] unfolding sv
    by (intro exI [of _ "server_time (vw (exec ?m ?w))"] exI [of _ e]) auto
qed

end

section \<open>What a computation reports\<close>

text \<open>
  \<open>logs m P\<close>: from any state the computation only appends to the trace of metric calls, and
  \<open>P\<close> holds of its value and what it appended.
\<close>

definition logs :: "(('w, 'x) sys_scheme, 'a) state \<Rightarrow> ('a \<Rightarrow> metric list \<Rightarrow> bool) \<Rightarrow> bool" where
  "logs m P \<longleftrightarrow> (\<forall>s. \<exists>tr. metrics (exec m s) = metrics s @ tr \<and> P (result m s) tr)"

lemma logsD: "logs m P \<Longrightarrow> \<exists>tr. metrics (exec m s) = metrics s @ tr \<and> P (result m s) tr"
  by (simp add: logs_def)

lemma logs_conseq: "logs m Q \<Longrightarrow> (\<And>a tr. Q a tr \<Longrightarrow> P a tr) \<Longrightarrow> logs m P"
  unfolding logs_def by blast

lemma logs_conj: "logs m P \<Longrightarrow> logs m Q \<Longrightarrow> logs m (\<lambda>a tr. P a tr \<and> Q a tr)"
  unfolding logs_def by (metis same_append_eq)

lemma logs_return [wp]: "P x [] \<Longrightarrow> logs (ret x) P"
  by (simp add: logs_def run)

lemma logs_bind [wp]: "logs m (\<lambda>a tr. logs (f a) (\<lambda>b tr'. P b (tr @ tr'))) \<Longrightarrow> logs (Monad_Syntax.bind m f) P"
  unfolding logs_def run by (metis append.assoc)

lemma logs_emit [wp]: "P () [e] \<Longrightarrow> logs (emit e) P"
  by (simp add: logs_def run)

lemma logs_on_world [wp]: "(\<And>a. P a []) \<Longrightarrow> logs (on_world m) P"
  by (simp add: logs_def run)

lemma logs_redis [wp]: "(\<And>a. P a []) \<Longrightarrow> logs (redis E c cmd) P"
  by (simp add: redis_def logs_on_world)

lemma logs_time_now [wp]: "(\<And>a. P a []) \<Longrightarrow> logs (time_now E) P"
  by (simp add: time_now_def logs_on_world)

lemma logs_with_timeout [wp]: "(\<And>a. P a []) \<Longrightarrow> logs (with_timeout E c d) P"
  by (simp add: with_timeout_def logs_on_world logs_bind logs_return)

lemma logs_if [wp]: "(b \<Longrightarrow> logs m P) \<Longrightarrow> (\<not> b \<Longrightarrow> logs n P) \<Longrightarrow> logs (if b then m else n) P"
  by simp

lemma logs_case_option [wp]:
  "(x = None \<Longrightarrow> logs m P) \<Longrightarrow> (\<And>y. x = Some y \<Longrightarrow> logs (f y) P) \<Longrightarrow> logs (case_option m f x) P"
  by (cases x) auto

lemma logs_case_sum [wp]:
  "(\<And>y. x = Inl y \<Longrightarrow> logs (f y) P) \<Longrightarrow> (\<And>y. x = Inr y \<Longrightarrow> logs (g y) P) \<Longrightarrow> logs (case_sum f g x) P"
  by (cases x) auto

lemma logs_case_prod [wp]: "(\<And>y z. x = (y, z) \<Longrightarrow> logs (f y z) P) \<Longrightarrow> logs (case_prod f x) P"
  by (cases x) auto

lemma logs_case_go [wp]:
  "(\<And>y. x = Ret y \<Longrightarrow> logs (f y) P) \<Longrightarrow> (x = Panic \<Longrightarrow> logs m P) \<Longrightarrow> logs (case_go f m x) P"
  by (cases x) auto

lemma logs_let [wp]: "(\<And>y. y = x \<Longrightarrow> logs (f y) P) \<Longrightarrow> logs (Let x f) P"
  by simp

text \<open>How many calls of a kind a trace has.\<close>

definition calls :: "(metric \<Rightarrow> bool) \<Rightarrow> metric list \<Rightarrow> nat" where
  "calls p tr = length (filter p tr)"

lemma calls_simps [simp]: "calls p [] = 0" "calls p (e # tr) = (if p e then 1 else 0) + calls p tr"
  "calls p (tr @ tr') = calls p tr + calls p tr'"
  by (simp_all add: calls_def)

end
