(* ===== verification/Mini_Redis.thy ===== *)
theory Mini_Redis
  imports Environment "HOL-Library.AList"
begin

text \<open>
  A small Redis in memory, as the repository's own tests use one (miniredis): it shows that
  the documented laws can hold together, and the witnesses of the theorems about Redis run on
  it. Commands take no time; sleeping and calling the backend move the clock. What a lossy
  link does, what the backend answers and what the random source gives is read from scripts.
\<close>

datatype mval = MStr string | MInt int | ML2 L2CacheValue | MConfig GatewayConfig
  | MSnapshot AdaptiveTTLSnapshot

record mini =
  m_time :: time
  m_keys :: "string \<Rightarrow> (mval \<times> time option) option"
  m_zsets :: "string \<Rightarrow> (string \<times> f64) list"
  m_links :: "link list"
  m_tokens :: nat
  m_floats :: "f64 list"
  m_backend :: "(duration \<times> proxy_outcome) list"
  m_load :: BackendLoadSignals

definition mini_view :: "mini \<Rightarrow> mval view" where
  "mini_view m = \<lparr>server_time = m_time m, keys = m_keys m, zsets = (\<lambda>z. map_of (m_zsets m z))\<rparr>"

definition m_lookup :: "mini \<Rightarrow> string \<Rightarrow> mval option" where
  "m_lookup m k = (case m_keys m k of
       None \<Rightarrow> None
     | Some (x, None) \<Rightarrow> Some x
     | Some (x, Some t) \<Rightarrow> if m_time m < t then Some x else None)"

definition m_expiry :: "mini \<Rightarrow> duration \<Rightarrow> time option" where
  "m_expiry m ttl = (if ttl \<le> 0 then None
     else Some (m_time m + (if ttl < millisecond then millisecond else ttl div millisecond * millisecond)))"

definition m_int :: "mval \<Rightarrow> int option" where
  "m_int x = (case x of MInt n \<Rightarrow> Some n | _ \<Rightarrow> None)"

text \<open>A sorted set by score, each member once.\<close>

definition m_ranked :: "mini \<Rightarrow> string \<Rightarrow> (string \<times> f64) list" where
  "m_ranked m z = sort_key snd (AList.clearjunk (m_zsets m z))"

definition token_name :: "nat \<Rightarrow> string" where
  "token_name n = replicate n (CHR ''t'')"

definition advance :: "duration \<Rightarrow> mini \<Rightarrow> mini" where
  "advance d m = m\<lparr>m_time := m_time m + max 0 d\<rparr>"

text \<open>Contexts are done when their deadline has passed; the request's own context never is.\<close>

fun m_ctx_done :: "mini \<Rightarrow> ctx \<Rightarrow> bool" where
  "m_ctx_done m Background = False"
| "m_ctx_done m RequestCtx = False"
| "m_ctx_done m (Deadline c t) = (t \<le> m_time m \<or> m_ctx_done m c)"

definition mini_env :: "(mini, mval) env" where
  "mini_env = \<lparr>
     link_status = (\<lambda>c. ret Delivered),
     c_get = (\<lambda>k. State (\<lambda>m. (m_lookup m k, m))),
     c_set = (\<lambda>k x ttl. State (\<lambda>m. ((), m\<lparr>m_keys := (m_keys m)(k \<mapsto> (x, m_expiry m ttl))\<rparr>))),
     c_setnx = (\<lambda>k x ttl. State (\<lambda>m. if m_lookup m k = None
        then (True, m\<lparr>m_keys := (m_keys m)(k \<mapsto> (x, m_expiry m ttl))\<rparr>) else (False, m))),
     c_del = (\<lambda>ks. State (\<lambda>m. (int (length (filter (\<lambda>k. m_lookup m k \<noteq> None) (remdups ks))),
        m\<lparr>m_keys := (\<lambda>k. if k \<in> set ks then None else m_keys m k),
          m_zsets := (\<lambda>k. if k \<in> set ks then [] else m_zsets m k)\<rparr>))),
     c_exists = (\<lambda>k. State (\<lambda>m. (if m_lookup m k = None then 0 else 1, m))),
     c_incr = (\<lambda>k. State (\<lambda>m. case m_lookup m k of
        None \<Rightarrow> (Inr 1, m\<lparr>m_keys := (m_keys m)(k \<mapsto> (MInt 1, None))\<rparr>)
      | Some x \<Rightarrow> (case m_int x of
          None \<Rightarrow> (Inl ''ERR value is not an integer'', m)
        | Some n \<Rightarrow> (Inr (n + 1), m\<lparr>m_keys := (m_keys m)(k \<mapsto> (MInt (n + 1), Option.bind (m_keys m k) snd))\<rparr>)))),
     c_mget = (\<lambda>ks. State (\<lambda>m. (map (\<lambda>k. case m_lookup m k of None \<Rightarrow> RNil | Some x \<Rightarrow> RStr x) ks, m))),
     c_zadd = (\<lambda>z x s. State (\<lambda>m. ((), m\<lparr>m_zsets := (m_zsets m)(z := (x, s) # m_zsets m z)\<rparr>))),
     c_zrem = (\<lambda>z x. State (\<lambda>m. ((), m\<lparr>m_zsets := (m_zsets m)(z := filter (\<lambda>p. fst p \<noteq> x) (m_zsets m z))\<rparr>))),
     c_zcard = (\<lambda>z. State (\<lambda>m. (int (length (m_ranked m z)), m))),
     c_zpopmin = (\<lambda>z n. State (\<lambda>m. let ms = map fst (take (nat n) (m_ranked m z))
        in (map ZStr ms, m\<lparr>m_zsets := (m_zsets m)(z := filter (\<lambda>p. fst p \<notin> set ms) (m_zsets m z))\<rparr>))),
     c_zrange = (\<lambda>z. State (\<lambda>m. (map fst (m_ranked m z), m))),
     string_value = MStr,
     int_value = MInt,
     parse_int = m_int,
     enc_l2 = (\<lambda>x. Some (ML2 x)),
     dec_l2 = (\<lambda>d. case d of ML2 x \<Rightarrow> Some x | _ \<Rightarrow> None),
     enc_config = (\<lambda>x. Some (MConfig x)),
     dec_config = (\<lambda>d. case d of MConfig x \<Rightarrow> Some x | _ \<Rightarrow> None),
     enc_snapshot = (\<lambda>x. Some (MSnapshot x)),
     dec_snapshot = (\<lambda>d. case d of MSnapshot x \<Rightarrow> Some x | _ \<Rightarrow> None),
     now = State (\<lambda>m. (m_time m, m)),
     random_token = State (\<lambda>m. (Some (token_name (m_tokens m)), m\<lparr>m_tokens := m_tokens m + 1\<rparr>)),
     random_float = State (\<lambda>m. case m_floats m of [] \<Rightarrow> (1 / 2, m) | x # xs \<Rightarrow> (x, m\<lparr>m_floats := xs\<rparr>)),
     ctx_err = (\<lambda>c. State (\<lambda>m. (if m_ctx_done m c then Some (LibErr ''context deadline exceeded'') else None, m))),
     sleep_or_done = (\<lambda>c d. State (\<lambda>m. (\<not> m_ctx_done (advance d m) c, advance d m))),
     sha256_hex = (\<lambda>s. s),
     math_log = (\<lambda>x. x - 1),
     math_exp = (\<lambda>x. 1 / (1 - x)),
     float_overflow = (\<lambda>x. - (2 ^ 63)),
     escape_path = (\<lambda>p. p),
     proxy_serve = (\<lambda>c r. State (\<lambda>m. case m_backend m of
        [] \<Rightarrow> (Answered 200 (Path r), m)
      | (d, out) # rest \<Rightarrow> (out, advance d (m\<lparr>m_backend := rest\<rparr>)))),
     http_get_load = (\<lambda>c. State (\<lambda>m. (Inr (200, Some (m_load m)), m))),
     select_call = (\<lambda>call. ret ContextDone)\<rparr>"

text \<open>The same server behind a link that follows a script, and delivers when it has run out.\<close>

definition flaky_env :: "(mini, mval) env" where
  "flaky_env = mini_env\<lparr>link_status := (\<lambda>c. State (\<lambda>m. case m_links m of
      [] \<Rightarrow> (Delivered, m) | l # ls \<Rightarrow> (l, m\<lparr>m_links := ls\<rparr>)))\<rparr>"

definition empty_mini :: mini where
  "empty_mini = \<lparr>m_time = 0, m_keys = Map.empty, m_zsets = (\<lambda>_. []), m_links = [], m_tokens = 1,
     m_floats = [], m_backend = [],
     m_load = \<lparr>P99LatencyMs = 0, ActiveRequests = 0, MaxConcurrentRequests = 0, SampleCount = 0\<rparr>\<rparr>"

lemma mini_run [run]:
  "result (State f) w = fst (f w)" "exec (State f) w = snd (f w)"
  by (simp_all add: result_def exec_def)

lemma m_lookup_view: "m_lookup m k = lookup_at (mini_view m) k"
  by (cases "m_keys m k") (auto simp: m_lookup_def lookup_at_def mini_view_def split: option.split)

lemma m_expiry_ok: "ttl_ok ttl \<Longrightarrow> expiry_for (mini_view m) ttl (m_expiry m ttl)"
proof (cases "ttl = 0")
  case False
  assume "ttl_ok ttl"
  then have "millisecond \<le> ttl" using False by (simp add: ttl_ok_def)
  moreover have "ttl - millisecond < ttl div millisecond * millisecond" "ttl div millisecond * millisecond \<le> ttl"
    by presburger+
  ultimately show ?thesis using False by (simp add: expiry_for_def m_expiry_def mini_view_def)
qed (simp add: expiry_for_def m_expiry_def)

lemma m_ranked_distinct: "distinct (map fst (m_ranked m z))"
proof -
  have "distinct (map fst (AList.clearjunk (m_zsets m z)))" by (rule distinct_clearjunk)
  then have "inj_on fst (set (AList.clearjunk (m_zsets m z)))" "distinct (AList.clearjunk (m_zsets m z))"
    by (simp_all add: distinct_map)
  then show ?thesis by (simp add: m_ranked_def distinct_map)
qed

lemma m_ranked_map_of: "map_of (m_ranked m z) = map_of (m_zsets m z)"
proof -
  have "map_of (m_ranked m z) = map_of (AList.clearjunk (m_zsets m z))"
    using m_ranked_distinct [of m z] distinct_clearjunk [of "m_zsets m z"]
    by (intro map_of_inject_set [THEN iffD2]) (simp_all add: m_ranked_def)
  then show ?thesis by (simp add: map_of_clearjunk)
qed

lemma m_ranked_dom: "set (map fst (m_ranked m z)) = dom (map_of (m_zsets m z))"
  by (metis m_ranked_map_of dom_map_of_conv_image_fst set_map)

lemma m_ranked_card: "length (m_ranked m z) = card (dom (map_of (m_zsets m z)))"
  by (metis m_ranked_distinct m_ranked_dom distinct_card length_map)

text \<open>Taking from the front of the ranking takes the lowest scores.\<close>

lemma m_ranked_front:
  assumes "k \<in> set (map fst (take n (m_ranked m z)))" "k' \<in> dom (map_of (m_zsets m z)) - set (map fst (take n (m_ranked m z)))"
  shows "the (map_of (m_zsets m z) k) \<le> the (map_of (m_zsets m z) k')"
proof -
  let ?r = "m_ranked m z"
  have k': "k' \<in> set (map fst ?r)" "k' \<notin> set (map fst (take n ?r))"
    using assms(2) m_ranked_dom [of m z] by auto
  have "set ?r = set (take n ?r) \<union> set (drop n ?r)" by (metis append_take_drop_id set_append)
  then obtain b where b: "(k', b) \<in> set (drop n ?r)" using k' by fastforce
  obtain a where a: "(k, a) \<in> set (take n ?r)" using assms(1) by auto
  have "sorted (map snd (take n ?r @ drop n ?r))" by (simp add: m_ranked_def)
  then have "a \<le> b" using a b unfolding map_append sorted_append by fastforce
  moreover have "map_of ?r k = Some a" "map_of ?r k' = Some b"
    using a b m_ranked_distinct [of m z] by (auto intro!: map_of_is_SomeI dest: in_set_takeD in_set_dropD)
  ultimately show ?thesis by (simp add: m_ranked_map_of)
qed

lemma map_of_filter_fst: "map_of (filter (\<lambda>p. P (fst p)) xs) = map_of xs |` Collect P"
  by (induction xs) (auto simp: fun_eq_iff restrict_map_def)

text \<open>The documented laws hold of it.\<close>

lemmas mini_laws = mini_env_def mini_run served_def time_passes_def mini_view_def

lemma mini_zpop:
  "\<exists>ms. result (c_zpopmin mini_env z n) w = map ZStr ms \<and> distinct ms \<and>
     set ms \<subseteq> dom (zsets (mini_view w) z) \<and> length ms = min (nat n) (card (dom (zsets (mini_view w) z))) \<and>
     (\<forall>m \<in> set ms. \<forall>m' \<in> dom (zsets (mini_view w) z) - set ms.
        the (zsets (mini_view w) z m) \<le> the (zsets (mini_view w) z m')) \<and>
     mini_view (exec (c_zpopmin mini_env z n) w) =
       zdrop z (set ms) (served mini_view (c_zpopmin mini_env z n) w)"
proof (intro exI conjI)
  let ?ms = "map fst (take (nat n) (m_ranked w z))"
  show "result (c_zpopmin mini_env z n) w = map ZStr ?ms"
    by (simp add: mini_laws Let_def)
  show "distinct ?ms" using m_ranked_distinct [of w z] by (metis distinct_take take_map)
  show "set ?ms \<subseteq> dom (zsets (mini_view w) z)"
    using m_ranked_dom [of w z] set_take_subset [of "nat n" "map fst (m_ranked w z)"]
    by (simp add: mini_view_def take_map)
  show "length ?ms = min (nat n) (card (dom (zsets (mini_view w) z)))"
    by (simp add: mini_view_def m_ranked_card min.commute)
  show "\<forall>m \<in> set ?ms. \<forall>m' \<in> dom (zsets (mini_view w) z) - set ?ms.
      the (zsets (mini_view w) z m) \<le> the (zsets (mini_view w) z m')"
    using m_ranked_front by (simp add: mini_view_def)
  show "mini_view (exec (c_zpopmin mini_env z n) w) =
      zdrop z (set ?ms) (served mini_view (c_zpopmin mini_env z n) w)"
    by (simp add: mini_laws Let_def zdrop_def fun_eq_iff map_of_filter_fst [of "\<lambda>k. k \<notin> set ?ms", simplified]
        Compl_eq)
qed

lemma mini_setnx: "ttl_ok ttl \<Longrightarrow> result (c_setnx mini_env k x ttl) w \<Longrightarrow>
    \<exists>e. expiry_for (served mini_view (c_setnx mini_env k x ttl) w) ttl e \<and>
    mini_view (exec (c_setnx mini_env k x ttl) w) = put_key k x e (served mini_view (c_setnx mini_env k x ttl) w)"
  using m_expiry_ok [of ttl w]
  by (intro exI [of _ "m_expiry w ttl"]) (auto simp: mini_laws put_key_def fun_eq_iff expiry_for_def split: if_splits)

lemma mini_set: "ttl_ok ttl \<Longrightarrow>
    \<exists>e. expiry_for (served mini_view (c_set mini_env k x ttl) w) ttl e \<and>
    mini_view (exec (c_set mini_env k x ttl) w) = put_key k x e (served mini_view (c_set mini_env k x ttl) w)"
  using m_expiry_ok [of ttl w]
  by (intro exI [of _ "m_expiry w ttl"]) (auto simp: mini_laws put_key_def fun_eq_iff expiry_for_def split: if_splits)

lemma mini_zrange: "set (result (c_zrange mini_env z) w) = dom (zsets (mini_view w) z)"
  using m_ranked_dom [of w z] by (simp add: mini_laws)

lemma mini_get: "result (c_get mini_env k) w = lookup_at (served mini_view (c_get mini_env k) w) k"
  by (simp add: m_lookup_view mini_env_def mini_run served_def mini_view_def)

lemma mini_setnx_result: "result (c_setnx mini_env k x ttl) w \<longleftrightarrow>
    lookup_at (served mini_view (c_setnx mini_env k x ttl) w) k = None"
  by (auto simp: m_lookup_view mini_env_def mini_run served_def mini_view_def)

lemma mini_zrem: "mini_view (exec (c_zrem mini_env z m) w) =
    zdrop z {m} (served mini_view (c_zrem mini_env z m) w)"
  by (simp add: mini_laws zdrop_def fun_eq_iff map_of_filter_fst [of "\<lambda>k. k \<noteq> m", simplified] Compl_eq)

interpretation mini: redis_l2 mini_env mini_view
  by unfold_locales
    (((erule mini_set | erule (1) mini_setnx | rule mini_zpop mini_zrange mini_get mini_setnx_result mini_zrem); fail) |
      (auto simp: mini_laws run m_lookup_def del_keys_def zput_def finite_dom_map_of m_ranked_card fun_eq_iff
        Let_def split: if_splits; fail))+

lemma mini_reliable [simp]: "reliable mini_env"
  by (simp add: reliable_def mini_laws run)

section \<open>Running it\<close>

lemma mini_cmds [run]:
  "result (link_status mini_env c) w = Delivered" "exec (link_status mini_env c) w = w"
  "result (c_get mini_env k) w = m_lookup w k" "exec (c_get mini_env k) w = w"
  "exec (c_set mini_env k x ttl) w = w\<lparr>m_keys := (m_keys w)(k \<mapsto> (x, m_expiry w ttl))\<rparr>"
  "result (c_setnx mini_env k x ttl) w \<longleftrightarrow> m_lookup w k = None"
  "exec (c_setnx mini_env k x ttl) w = (if m_lookup w k = None
     then w\<lparr>m_keys := (m_keys w)(k \<mapsto> (x, m_expiry w ttl))\<rparr> else w)"
  "exec (c_del mini_env ks) w = w\<lparr>m_keys := (\<lambda>k. if k \<in> set ks then None else m_keys w k),
     m_zsets := (\<lambda>k. if k \<in> set ks then [] else m_zsets w k)\<rparr>"
  "result (c_exists mini_env k) w = (if m_lookup w k = None then 0 else 1)" "exec (c_exists mini_env k) w = w"
  "exec (c_zadd mini_env z y sc) w = w\<lparr>m_zsets := (m_zsets w)(z := (y, sc) # m_zsets w z)\<rparr>"
  "exec (c_zrem mini_env z y) w = w\<lparr>m_zsets := (m_zsets w)(z := filter (\<lambda>p. fst p \<noteq> y) (m_zsets w z))\<rparr>"
  "result (c_zcard mini_env z) w = int (length (m_ranked w z))" "exec (c_zcard mini_env z) w = w"
  "result (c_zrange mini_env z) w = map fst (m_ranked w z)" "exec (c_zrange mini_env z) w = w"
  "result (now mini_env) w = m_time w" "exec (now mini_env) w = w"
  "result (random_token mini_env) w = Some (token_name (m_tokens w))"
  "exec (random_token mini_env) w = w\<lparr>m_tokens := m_tokens w + 1\<rparr>"
  "result (c_mget mini_env ks) w = map (\<lambda>k. case m_lookup w k of None \<Rightarrow> RNil | Some x \<Rightarrow> RStr x) ks"
  "exec (c_mget mini_env ks) w = w"
  "result (ctx_err mini_env c) w = (if m_ctx_done w c then Some (LibErr ''context deadline exceeded'') else None)"
  "exec (ctx_err mini_env c) w = w"
  "result (sleep_or_done mini_env c d) w \<longleftrightarrow> \<not> m_ctx_done (advance d w) c"
  "exec (sleep_or_done mini_env c d) w = advance d w"
  "result (proxy_serve mini_env c r) w = (case m_backend w of [] \<Rightarrow> Answered 200 (Path r) | (d, out) # rest \<Rightarrow> out)"
  "exec (proxy_serve mini_env c r) w = (case m_backend w of [] \<Rightarrow> w | (d, out) # rest \<Rightarrow> advance d (w\<lparr>m_backend := rest\<rparr>))"
  "result (random_float mini_env) w = (case m_floats w of [] \<Rightarrow> 1 / 2 | x # xs \<Rightarrow> x)"
  "exec (random_float mini_env) w = (case m_floats w of [] \<Rightarrow> w | x # xs \<Rightarrow> w\<lparr>m_floats := xs\<rparr>)"
  "result (http_get_load mini_env c) w = Inr (200, Some (m_load w))" "exec (http_get_load mini_env c) w = w"
  by (simp_all add: mini_env_def mini_run run split: list.split prod.split)

lemma mini_codecs [simp]:
  "enc_l2 mini_env x = Some (ML2 x)" "dec_l2 mini_env (ML2 x) = Some x"
  "enc_config mini_env g = Some (MConfig g)" "dec_config mini_env (MConfig g) = Some g"
  "enc_snapshot mini_env p = Some (MSnapshot p)" "dec_snapshot mini_env (MSnapshot p) = Some p"
  "string_value mini_env t = MStr t" "int_value mini_env i = MInt i" "parse_int mini_env (MInt i) = Some i"
  "sha256_hex mini_env t = t" "escape_path mini_env t = t" "math_log mini_env x' = x' - 1"
  "math_exp mini_env x' = 1 / (1 - x')" "float_overflow mini_env x' = - (2 ^ 63)"
  by (simp_all add: mini_env_def m_int_def)

lemma mini_redis [run]:
  "result (redis mini_env c cmd) s = Inr (result cmd (world s))"
  "exec (redis mini_env c cmd) s = s\<lparr>world := exec cmd (world s)\<rparr>"
  by (simp_all add: redis_delivered run)

text \<open>A gateway process on it that has just started.\<close>

definition mini_sys :: "mini \<Rightarrow> mini sys" where
  "mini_sys m = \<lparr>world = m, metrics = []\<rparr>"

lemma mini_sys_simps [simp]: "world (mini_sys m) = m" "metrics (mini_sys m) = []"
  "(mini_sys m)\<lparr>world := m'\<rparr> = mini_sys m'"
  by (simp_all add: mini_sys_def)

end
