(* ===== verification/Config_Store.thy ===== *)
theory Config_Store
  imports Mini_Redis
begin

text \<open>
  The configuration all gateways share, \<open>gateway/gateway_config_store.go\<close>: its JSON and a
  version that every update increments, both in Redis. The initialisation script and the
  update's transaction are one atomic command each; a command of a transaction that fails does
  not undo the others.
\<close>

definition gatewayConfigKey :: string where
  "gatewayConfigKey = ''gateway:config:data''"

definition gatewayConfigVersionKey :: string where
  "gatewayConfigVersionKey = ''gateway:config:version''"

definition initialize_script :: "('w, 'v) env \<Rightarrow> string \<Rightarrow> string \<Rightarrow> 'v \<Rightarrow> ('w, int) state" where
  "initialize_script E key1 key2 data = do {
     n \<leftarrow> c_exists E key1;
     if n = 0 then do {
       _ \<leftarrow> c_set E key1 data 0;
       _ \<leftarrow> c_set E key2 (int_value E 1) 0;
       ret 1 }
     else do {
       n \<leftarrow> c_exists E key2;
       _ \<leftarrow> (if n = 0 then c_set E key2 (int_value E 1) 0 else ret ());
       ret 0 } }"

definition Initialize :: "('w, 'v) env \<Rightarrow> ctx \<Rightarrow> GatewayConfig \<Rightarrow> (('w, 'x) sys_scheme, goerr option) state" where
  "Initialize E c defaultConfig =
     (case enc_config E defaultConfig of
        None \<Rightarrow> ret (Some (Wrap ''marshal default gateway config'' (LibErr ''json'')))
      | Some data \<Rightarrow> do {
          r \<leftarrow> redis E c (initialize_script E gatewayConfigKey gatewayConfigVersionKey data);
          case r of
            Inl err \<Rightarrow> ret (Some (Wrap ''initialize gateway config'' err))
          | Inr _ \<Rightarrow> ret None })"

text \<open>The checks of \<open>Get\<close> on the reply of \<open>MGET\<close>, in their order.\<close>

fun decode_reply :: "('w, 'v) env \<Rightarrow> 'v reply list \<Rightarrow> goerr + GatewayConfig \<times> int" where
  "decode_reply E [RNil, _] = Inl (Msg ''gateway configuration is not initialized'')"
| "decode_reply E [_, RNil] = Inl (Msg ''gateway configuration is not initialized'')"
| "decode_reply E [ROther, _] = Inl (Msg ''invalid gateway configuration value'')"
| "decode_reply E [RStr _, ROther] = Inl (Msg ''invalid gateway configuration version'')"
| "decode_reply E [RStr configJSON, RStr versionValue] =
     (case dec_config E configJSON of
        None \<Rightarrow> Inl (Wrap ''decode gateway config'' (LibErr ''json''))
      | Some config \<Rightarrow>
          (case parse_int E versionValue of
             None \<Rightarrow> Inl (Wrap ''parse gateway config version'' (LibErr ''strconv''))
           | Some version \<Rightarrow> Inr (applyAdaptiveTTLDefaults config, version)))"
| "decode_reply E _ = Inl (Msg ''gateway configuration is not initialized'')"

definition GetConfigStore :: "('w, 'v) env \<Rightarrow> ctx \<Rightarrow> (('w, 'x) sys_scheme, goerr + GatewayConfig \<times> int) state" where
  "GetConfigStore E c = do {
     r \<leftarrow> redis E c (c_mget E [gatewayConfigKey, gatewayConfigVersionKey]);
     case r of
       Inl err \<Rightarrow> ret (Inl (Wrap ''read gateway config'' err))
     | Inr values \<Rightarrow> ret (decode_reply E values) }"

definition update_transaction :: "('w, 'v) env \<Rightarrow> 'v \<Rightarrow> ('w, string + int) state" where
  "update_transaction E data = do {
     _ \<leftarrow> c_set E gatewayConfigKey data 0;
     c_incr E gatewayConfigVersionKey }"

text \<open>A failed command makes \<open>TxPipelined\<close> return its error, so reading the version cannot fail.\<close>

definition UpdateConfigStore :: "('w, 'v) env \<Rightarrow> ctx \<Rightarrow> GatewayConfig \<Rightarrow> (('w, 'x) sys_scheme, goerr + int) state" where
  "UpdateConfigStore E c config =
     (case enc_config E config of
        None \<Rightarrow> ret (Inl (Wrap ''marshal gateway config'' (LibErr ''json'')))
      | Some data \<Rightarrow> do {
          r \<leftarrow> redis E c (update_transaction E data);
          case r of
            Inl err \<Rightarrow> ret (Inl (Wrap ''update gateway config'' err))
          | Inr (Inl err) \<Rightarrow> ret (Inl (Wrap ''update gateway config'' (LibErr err)))
          | Inr (Inr version) \<Rightarrow> ret (Inr version) })"


section \<open>What the store relies on\<close>

text \<open>The values a Go configuration can hold: 64-bit integers and finite float64s.\<close>

definition go_config :: "GatewayConfig \<Rightarrow> bool" where
  "go_config g \<longleftrightarrow> in64 (L1MaxEntries g) \<and> in64 (L2MaxEntries g) \<and> in64 (L1TTLSeconds g) \<and>
     in64 (L2TTLSeconds g) \<and> in64 (BackendTimeoutMs g) \<and> in64 (AdaptiveTTLLatencyThresholdMs g) \<and>
     in64 (AdaptiveTTLConcurrencyThreshold g) \<and> in64 (AdaptiveTTLAdjustmentIntervalMs g) \<and>
     rnd (EarlyRefreshBeta g) = EarlyRefreshBeta g \<and> rnd (AdaptiveTTLMinFactor g) = AdaptiveTTLMinFactor g \<and>
     rnd (AdaptiveTTLMaxFactor g) = AdaptiveTTLMaxFactor g"

text \<open>A counter key holds the integer \<open>n\<close>, or is absent, which \<open>INCR\<close> takes for 0.\<close>

definition counter_at :: "('w, 'v) env \<Rightarrow> 'v view \<Rightarrow> string \<Rightarrow> int option" where
  "counter_at E v k = (case lookup_at v k of None \<Rightarrow> Some 0 | Some x \<Rightarrow> parse_int E x)"

locale redis_config = redis_strings E vw for E :: "('w, 'v) env" and vw :: "'w \<Rightarrow> 'v view" +
  assumes exists_result: "result (c_exists E k) w =
        (if lookup_at (served vw (c_exists E k) w) k = None then 0 else 1)"
    and exists_effect: "vw (exec (c_exists E k) w) = served vw (c_exists E k) w"
    and exists_time: "time_passes vw (c_exists E k) w"
    and mget_result: "result (c_mget E ks) w =
        map (\<lambda>k. case lookup_at (served vw (c_mget E ks) w) k of None \<Rightarrow> RNil | Some x \<Rightarrow> RStr x) ks"
    and mget_effect: "vw (exec (c_mget E ks) w) = served vw (c_mget E ks) w"
    and mget_time: "time_passes vw (c_mget E ks) w"
    and incr_ok: "counter_at E (served vw (c_incr E k) w) k = Some n \<Longrightarrow> in64 (n + 1) \<Longrightarrow>
        result (c_incr E k) w = Inr (n + 1) \<and>
        vw (exec (c_incr E k) w) = put_key k (int_value E (n + 1))
          (case keys (served vw (c_incr E k) w) k of
             Some (x, e) \<Rightarrow> if lookup_at (served vw (c_incr E k) w) k = None then None else e
           | None \<Rightarrow> None)
          (served vw (c_incr E k) w)"
    and incr_bad: "counter_at E (served vw (c_incr E k) w) k = None \<Longrightarrow>
        (\<exists>e. result (c_incr E k) w = Inl e) \<and> vw (exec (c_incr E k) w) = served vw (c_incr E k) w"
    and incr_time: "time_passes vw (c_incr E k) w"
    and parse_int_value: "in64 n \<Longrightarrow> parse_int E (int_value E n) = Some n"
    and config_json: "go_config g \<Longrightarrow> \<exists>d. enc_config E g = Some d \<and> dec_config E d = Some g"

text \<open>
  What a server holds for the gateways: a configuration and its version, neither with an
  expiry.
\<close>

definition holds_config :: "('w, 'v) env \<Rightarrow> 'v view \<Rightarrow> GatewayConfig \<Rightarrow> int \<Rightarrow> bool" where
  "holds_config E v g n \<longleftrightarrow> (\<exists>d x. keys v gatewayConfigKey = Some (d, None) \<and> dec_config E d = Some g \<and>
     keys v gatewayConfigVersionKey = Some (x, None) \<and> parse_int E x = Some n)"

primrec run_updates :: "('w, 'v) env \<Rightarrow> ctx \<Rightarrow> GatewayConfig list \<Rightarrow> (('w, 'x) sys_scheme, unit) state" where
  "run_updates E c [] = ret ()"
| "run_updates E c (g # gs) = do { _ \<leftarrow> UpdateConfigStore E c g; run_updates E c gs }"

lemma config_keys [simp]: "gatewayConfigKey \<noteq> gatewayConfigVersionKey"
  "gatewayConfigVersionKey \<noteq> gatewayConfigKey"
  by (simp_all add: gatewayConfigKey_def gatewayConfigVersionKey_def)

lemma holds_config_time [simp]: "holds_config E (v\<lparr>server_time := t\<rparr>) g n = holds_config E v g n"
  by (simp add: holds_config_def)

lemma ttl_ok_0 [simp]: "ttl_ok 0"
  by (simp add: ttl_ok_def)

lemma expiry_for_0 [simp]: "expiry_for v 0 e \<longleftrightarrow> e = None"
  by (simp add: expiry_for_def)

lemma lookup_persistent: "keys v k = Some (x, None) \<Longrightarrow> lookup_at v k = Some x"
  by (simp add: lookup_at_def)

context redis_config
begin

lemma set_persistent:
  "\<exists>t \<ge> server_time (vw w). vw (exec (c_set E k x 0) w) = (put_key k x None (vw w))\<lparr>server_time := t\<rparr>"
  using set_effect [of 0 k x w] set_time [of k x 0 w]
  by (auto simp: served_def time_passes_def intro!: exI [of _ "server_time (vw (exec (c_set E k x 0) w))"])

lemma transaction_effect:
  assumes "parse_int E x = Some n" and "keys (vw w) gatewayConfigVersionKey = Some (x, None)" and "in64 (n + 1)"
  shows "result (update_transaction E d) w = Inr (n + 1)"
    and "\<exists>t \<ge> server_time (vw w). vw (exec (update_transaction E d) w) =
      (put_key gatewayConfigVersionKey (int_value E (n + 1)) None (put_key gatewayConfigKey d None (vw w)))
        \<lparr>server_time := t\<rparr>"
proof -
  let ?w1 = "exec (c_set E gatewayConfigKey d 0) w" and ?i = "c_incr E gatewayConfigVersionKey"
  obtain t where t: "server_time (vw w) \<le> t" "vw ?w1 = (put_key gatewayConfigKey d None (vw w))\<lparr>server_time := t\<rparr>"
    using set_persistent by blast
  let ?sv = "served vw ?i ?w1"
  have ks: "keys ?sv gatewayConfigVersionKey = Some (x, None)" using t(2) assms(2) by simp
  then have "counter_at E ?sv gatewayConfigVersionKey = Some n"
    using assms(1) by (simp add: counter_at_def lookup_persistent)
  note i = incr_ok [OF this assms(3)]
  show "result (update_transaction E d) w = Inr (n + 1)" using i by (simp add: update_transaction_def run)
  have "vw (exec ?i ?w1) = put_key gatewayConfigVersionKey (int_value E (n + 1)) None ?sv"
    using i ks by simp
  from effect_at [where f = "put_key gatewayConfigVersionKey (int_value E (n + 1)) None", OF this incr_time]
  obtain u where u: "server_time (vw ?w1) \<le> u"
    "vw (exec ?i ?w1) = put_key gatewayConfigVersionKey (int_value E (n + 1)) None ((vw ?w1)\<lparr>server_time := u\<rparr>)"
    by blast
  then show "\<exists>t \<ge> server_time (vw w). vw (exec (update_transaction E d) w) =
      (put_key gatewayConfigVersionKey (int_value E (n + 1)) None (put_key gatewayConfigKey d None (vw w)))
        \<lparr>server_time := t\<rparr>"
    using t by (intro exI [of _ u]) (simp add: update_transaction_def run)
qed

lemma update_effect:
  assumes rel: "reliable E" and g: "go_config g" and n: "in64 (n + 1)"
    and held: "holds_config E (vw (world s)) g0 n"
  shows "result (UpdateConfigStore E c g) s = Inr (n + 1)"
    and "holds_config E (vw (world (exec (UpdateConfigStore E c g) s))) g (n + 1)"
proof -
  obtain d where d: "enc_config E g = Some d" "dec_config E d = Some g" using config_json [OF g] by blast
  let ?w = "exec (link_status E c) (world s)"
  obtain t where t: "vw ?w = (vw (world s))\<lparr>server_time := t\<rparr>" using link_view by blast
  obtain x where x: "keys (vw ?w) gatewayConfigVersionKey = Some (x, None)" "parse_int E x = Some n"
    using held t by (auto simp: holds_config_def)
  note tr = transaction_effect [OF x(2,1) n, of d]
  show "result (UpdateConfigStore E c g) s = Inr (n + 1)"
    using d(1) tr(1) by (simp add: UpdateConfigStore_def run redis_delivered [OF rel])
  have "exec (UpdateConfigStore E c g) s = s\<lparr>world := exec (update_transaction E d) ?w\<rparr>"
    using d(1) tr(1) by (simp add: UpdateConfigStore_def run redis_delivered [OF rel])
  then show "holds_config E (vw (world (exec (UpdateConfigStore E c g) s))) g (n + 1)"
    using tr(2) d(2) parse_int_value [OF n] by (auto simp: holds_config_def)
qed

lemma update_half:
  assumes rel: "reliable E" and g: "go_config g"
    and x: "keys (vw (world s)) gatewayConfigVersionKey = Some (x, None)" "parse_int E x = None"
  shows "\<exists>err d. result (UpdateConfigStore E c g) s = Inl (Wrap ''update gateway config'' err) \<and>
    dec_config E d = Some g \<and>
    keys (vw (world (exec (UpdateConfigStore E c g) s))) gatewayConfigKey = Some (d, None) \<and>
    keys (vw (world (exec (UpdateConfigStore E c g) s))) gatewayConfigVersionKey = Some (x, None)"
proof -
  obtain d where d: "enc_config E g = Some d" "dec_config E d = Some g" using config_json [OF g] by blast
  let ?w = "exec (link_status E c) (world s)" and ?i = "c_incr E gatewayConfigVersionKey"
  obtain t where t: "vw ?w = (vw (world s))\<lparr>server_time := t\<rparr>" using link_view by blast
  let ?w1 = "exec (c_set E gatewayConfigKey d 0) ?w"
  obtain t1 where t1: "vw ?w1 = (put_key gatewayConfigKey d None (vw (world s)))\<lparr>server_time := t1\<rparr>"
    using set_persistent [of ?w gatewayConfigKey d] t by auto
  have "counter_at E (served vw ?i ?w1) gatewayConfigVersionKey = None"
    using t1 x by (simp add: counter_at_def lookup_persistent)
  note bad = incr_bad [OF this]
  have "result (UpdateConfigStore E c g) s = (case result ?i ?w1 of
      Inl e \<Rightarrow> Inl (Wrap ''update gateway config'' (LibErr e)) | Inr v \<Rightarrow> Inr v)"
    "world (exec (UpdateConfigStore E c g) s) = exec ?i ?w1"
    using d(1) bad
    by (auto simp: UpdateConfigStore_def update_transaction_def run redis_delivered [OF rel] split: sum.split)
  then show ?thesis using bad t1 d x by auto
qed

lemma get_held:
  assumes rel: "reliable E" and held: "holds_config E (vw (world s)) g n"
  shows "result (GetConfigStore E c) s = Inr (applyAdaptiveTTLDefaults g, n)"
proof -
  let ?ks = "[gatewayConfigKey, gatewayConfigVersionKey]" and ?w = "exec (link_status E c) (world s)"
  obtain t where t: "vw ?w = (vw (world s))\<lparr>server_time := t\<rparr>" using link_view by blast
  obtain d x where "keys (vw ?w) gatewayConfigKey = Some (d, None)" "dec_config E d = Some g"
      "keys (vw ?w) gatewayConfigVersionKey = Some (x, None)" "parse_int E x = Some n"
    using held t by (auto simp: holds_config_def)
  then show ?thesis
    by (simp add: GetConfigStore_def run redis_delivered [OF rel] mget_result lookup_persistent)
qed

lemma updates_effect:
  "reliable E \<Longrightarrow> list_all go_config gs \<Longrightarrow> 0 \<le> n \<Longrightarrow> in64 (n + int (length gs)) \<Longrightarrow>
   holds_config E (vw (world s)) g n \<Longrightarrow>
   holds_config E (vw (world (exec (run_updates E c gs) s))) (last (g # gs)) (n + int (length gs))"
proof (induction gs arbitrary: s g n)
  case (Cons g' gs)
  have "in64 (n + 1)" using Cons.prems(3,4) by (simp add: in64_def)
  with Cons.prems have "holds_config E (vw (world (exec (UpdateConfigStore E c g') s))) g' (n + 1)"
    by (intro update_effect) auto
  then show ?case
    using Cons.IH [of "n + 1" "exec (UpdateConfigStore E c g') s" g'] Cons.prems by (simp add: run add.assoc)
qed (simp add: run)

lemma exists_seen:
  "\<exists>t \<ge> server_time (vw w). vw (exec (c_exists E k) w) = (vw w)\<lparr>server_time := t\<rparr> \<and>
     result (c_exists E k) w = (if lookup_at ((vw w)\<lparr>server_time := t\<rparr>) k = None then 0 else 1)"
proof -
  obtain t where t: "server_time (vw w) \<le> t" "vw (exec (c_exists E k) w) = (vw w)\<lparr>server_time := t\<rparr>"
    using effect_at [where f = "\<lambda>v. v", OF exists_effect exists_time, of w k] by blast
  have sv: "served vw (c_exists E k) w = (vw w)\<lparr>server_time := t\<rparr>" using t(2) by (simp add: served_def)
  show ?thesis using t exists_result [of k w] unfolding sv by (intro exI [of _ t]) simp
qed

lemma script_fresh:
  assumes "keys (vw w) gatewayConfigKey = None"
  shows "\<exists>t. vw (exec (initialize_script E gatewayConfigKey gatewayConfigVersionKey d) w) =
    (put_key gatewayConfigVersionKey (int_value E 1) None (put_key gatewayConfigKey d None (vw w)))
      \<lparr>server_time := t\<rparr>"
proof -
  let ?w1 = "exec (c_exists E gatewayConfigKey) w"
  obtain t where t: "vw ?w1 = (vw w)\<lparr>server_time := t\<rparr>" "result (c_exists E gatewayConfigKey) w = 0"
    using exists_seen [of w gatewayConfigKey] assms by (auto simp: lookup_at_None)
  let ?w2 = "exec (c_set E gatewayConfigKey d 0) ?w1"
  obtain t2 where t2: "vw ?w2 = (put_key gatewayConfigKey d None (vw w))\<lparr>server_time := t2\<rparr>"
    using set_persistent [of ?w1 gatewayConfigKey d] t by auto
  obtain t3 where "vw (exec (c_set E gatewayConfigVersionKey (int_value E 1) 0) ?w2) =
      (put_key gatewayConfigVersionKey (int_value E 1) None
        (put_key gatewayConfigKey d None (vw w)))\<lparr>server_time := t3\<rparr>"
    using set_persistent [of ?w2 gatewayConfigVersionKey "int_value E 1"] t2 by auto
  then show ?thesis
    using t(2) by (intro exI [of _ t3]) (simp add: initialize_script_def run)
qed

lemma script_again:
  assumes "keys (vw w) gatewayConfigKey = Some (d0, None)" and "keys (vw w) gatewayConfigVersionKey = Some (x, None)"
  shows "\<exists>t. vw (exec (initialize_script E gatewayConfigKey gatewayConfigVersionKey d) w) =
    (vw w)\<lparr>server_time := t\<rparr>"
proof -
  let ?w1 = "exec (c_exists E gatewayConfigKey) w"
  obtain t where t: "vw ?w1 = (vw w)\<lparr>server_time := t\<rparr>" "result (c_exists E gatewayConfigKey) w = 1"
    using exists_seen [of w gatewayConfigKey] assms by (auto simp: lookup_persistent)
  obtain t2 where "vw (exec (c_exists E gatewayConfigVersionKey) ?w1) = (vw ?w1)\<lparr>server_time := t2\<rparr>"
      "result (c_exists E gatewayConfigVersionKey) ?w1 = 1"
    using exists_seen [of ?w1 gatewayConfigVersionKey] assms t(1) by (auto simp: lookup_persistent)
  then show ?thesis using t by (intro exI [of _ t2]) (simp add: initialize_script_def run)
qed

lemma initialize_effect:
  assumes rel: "reliable E" and g: "go_config g"
  shows "result (Initialize E c g) s = None"
    and "keys (vw (world s)) gatewayConfigKey = None \<Longrightarrow> holds_config E (vw (world (exec (Initialize E c g) s))) g 1"
    and "holds_config E (vw (world s)) g0 n \<Longrightarrow> holds_config E (vw (world (exec (Initialize E c g) s))) g0 n"
proof -
  obtain d where d: "enc_config E g = Some d" "dec_config E d = Some g" using config_json [OF g] by blast
  let ?m = "initialize_script E gatewayConfigKey gatewayConfigVersionKey d"
  let ?w = "exec (link_status E c) (world s)"
  obtain t where t: "vw ?w = (vw (world s))\<lparr>server_time := t\<rparr>" using link_view by blast
  show "result (Initialize E c g) s = None" using d by (simp add: Initialize_def run redis_delivered [OF rel])
  have ex: "world (exec (Initialize E c g) s) = exec ?m ?w"
    using d by (simp add: Initialize_def run redis_delivered [OF rel])
  show "holds_config E (vw (world (exec (Initialize E c g) s))) g 1" if "keys (vw (world s)) gatewayConfigKey = None"
    using script_fresh [of ?w d] that t d(2) parse_int_value [of 1]
    by (auto simp: ex holds_config_def in64_def)
  show "holds_config E (vw (world (exec (Initialize E c g) s))) g0 n" if "holds_config E (vw (world s)) g0 n"
  proof -
    have "\<exists>t. vw (exec ?m ?w) = (vw ?w)\<lparr>server_time := t\<rparr>"
      using that t script_again [of ?w] by (auto simp: holds_config_def)
    then show ?thesis using that t by (auto simp: ex)
  qed
qed

end

lemma mini_incr_ok:
  "counter_at mini_env (served mini_view (c_incr mini_env k) w) k = Some n \<Longrightarrow>
   result (c_incr mini_env k) w = Inr (n + 1) \<and>
   mini_view (exec (c_incr mini_env k) w) = put_key k (int_value mini_env (n + 1))
     (case keys (served mini_view (c_incr mini_env k) w) k of
        Some (x, e) \<Rightarrow> if lookup_at (served mini_view (c_incr mini_env k) w) k = None then None else e
      | None \<Rightarrow> None)
     (served mini_view (c_incr mini_env k) w)"
  by (auto simp: mini_laws counter_at_def lookup_at_def m_lookup_def m_int_def put_key_def fun_eq_iff
      split: option.splits mval.splits if_splits)

lemma mini_incr_bad:
  "counter_at mini_env (served mini_view (c_incr mini_env k) w) k = None \<Longrightarrow>
   (\<exists>e. result (c_incr mini_env k) w = Inl e) \<and>
   mini_view (exec (c_incr mini_env k) w) = served mini_view (c_incr mini_env k) w"
  by (auto simp: mini_laws counter_at_def lookup_at_def m_lookup_def m_int_def
      split: option.splits mval.splits if_splits)

lemma mini_incr_time: "time_passes mini_view (c_incr mini_env k) w"
  by (auto simp: mini_laws m_lookup_def m_int_def split: option.splits mval.splits)

lemma mini_mget: "result (c_mget mini_env ks) w = map (\<lambda>k. case lookup_at (served mini_view (c_mget mini_env ks) w) k of
    None \<Rightarrow> RNil | Some x \<Rightarrow> RStr x) ks"
  by (simp add: mini_laws m_lookup_view)

lemma mini_exists: "result (c_exists mini_env k) w =
    (if lookup_at (served mini_view (c_exists mini_env k) w) k = None then 0 else 1)"
  by (simp add: mini_laws m_lookup_view)

interpretation mini_config: redis_config mini_env mini_view
  by unfold_locales
    (((erule mini_incr_ok mini_incr_bad | rule mini_incr_time mini_mget mini_exists); fail) |
      (simp add: mini_laws m_int_def; fail))+


section \<open>Properties\<close>

text \<open>
  C16. After any sequence of updates by any gateways, a gateway reads the last configuration
  (with the adaptive defaults filled in) together with the version that counts the updates:
  never one configuration with another's version.
\<close>

theorem config_updates_then_get:
  assumes "redis_config E vw" and "reliable E" and "list_all go_config gs" and "0 \<le> n"
    and "in64 (n + int (length gs))" and "holds_config E (vw (world s)) g n"
  shows "result (GetConfigStore E c') (exec (run_updates E c gs) s) =
    Inr (applyAdaptiveTTLDefaults (last (g # gs)), n + int (length gs))"
  using redis_config.get_held [OF assms(1,2) redis_config.updates_effect [OF assms]] .

text \<open>
  An update returns the incremented version and installs the configuration, so that every
  gateway that remembers the old version sees a newer one.
\<close>

theorem config_update_version:
  assumes "redis_config E vw" and "reliable E" and "go_config g" and "in64 (n + 1)"
    and "holds_config E (vw (world s)) g0 n"
  shows "result (UpdateConfigStore E c g) s = Inr (n + 1) \<and>
    holds_config E (vw (world (exec (UpdateConfigStore E c g) s))) g (n + 1)"
  using redis_config.update_effect [OF assms] by blast

text \<open>
  Initialising an empty store installs the default configuration as version 1;
  initialising a store that has a configuration, as every gateway that starts later does,
  changes nothing.
\<close>

theorem config_initialize:
  assumes "redis_config E vw" and "reliable E" and "go_config g"
    and "keys (vw (world s)) gatewayConfigKey = None \<or> holds_config E (vw (world s)) g0 n"
  shows "result (Initialize E c g) s = None \<and>
    (if keys (vw (world s)) gatewayConfigKey = None
     then holds_config E (vw (world (exec (Initialize E c g) s))) g 1
     else holds_config E (vw (world (exec (Initialize E c g) s))) g0 n)"
  using redis_config.initialize_effect [OF assms(1-3)] assms(4) by auto

text \<open>
  When the version key holds no integer, an update reports an error although the new
  configuration is already stored: the version stays, so no gateway is told of the change.
\<close>

theorem config_update_half_done:
  assumes "redis_config E vw" and "reliable E" and "go_config g"
    and "keys (vw (world s)) gatewayConfigVersionKey = Some (x, None)" and "parse_int E x = None"
  shows "\<exists>err d. result (UpdateConfigStore E c g) s = Inl (Wrap ''update gateway config'' err) \<and>
    dec_config E d = Some g \<and>
    keys (vw (world (exec (UpdateConfigStore E c g) s))) gatewayConfigKey = Some (d, None) \<and>
    keys (vw (world (exec (UpdateConfigStore E c g) s))) gatewayConfigVersionKey = Some (x, None)"
  by (rule redis_config.update_half [OF assms])

section \<open>Witnesses\<close>

definition sample_config :: GatewayConfig where
  "sample_config = \<lparr>L1MaxEntries = 100, L2MaxEntries = 500, L1TTLSeconds = 10, L2TTLSeconds = 30,
     SingleFlightEnabled = True, DistributedLockEnabled = True, ProbabilisticEarlyRefreshEnabled = False,
     EarlyRefreshBeta = 1, BackendTimeoutMs = 2000, AdaptiveTTLEnabled = True, AdaptiveTTLMinFactor = 1 / 2,
     AdaptiveTTLMaxFactor = 4, AdaptiveTTLLatencyThresholdMs = 500, AdaptiveTTLConcurrencyThreshold = 12,
     AdaptiveTTLAdjustmentIntervalMs = 5000\<rparr>"

lemma sample_config_go: "go_config sample_config" "go_config (sample_config\<lparr>L1TTLSeconds := 5\<rparr>)"
  using rnd_of_int [of 1] rnd_of_int [of 4] rnd_half
  by (simp_all add: go_config_def sample_config_def in64_def)

text \<open>A server that holds it as version 3.\<close>

definition configured :: mini where
  "configured = empty_mini\<lparr>m_keys := [gatewayConfigKey \<mapsto> (MConfig sample_config, None),
     gatewayConfigVersionKey \<mapsto> (MInt 3, None)]\<rparr>"

lemma configured_holds: "holds_config mini_env (mini_view (world (mini_sys configured))) sample_config 3"
  by (simp add: holds_config_def configured_def mini_view_def)

theorem config_updates_then_get_witness:
  "result (GetConfigStore mini_env Background) (exec (run_updates mini_env RequestCtx
     [sample_config\<lparr>L1TTLSeconds := 5\<rparr>, sample_config]) (mini_sys configured)) = Inr (sample_config, 5)"
  using config_updates_then_get [OF mini_config.redis_config_axioms mini_reliable _ _ _ configured_holds,
      of "[sample_config\<lparr>L1TTLSeconds := 5\<rparr>, sample_config]" Background RequestCtx] sample_config_go
  by (simp add: in64_def adaptive_ok_def sample_config_def)

theorem config_update_version_witness:
  "result (UpdateConfigStore mini_env Background (sample_config\<lparr>L1TTLSeconds := 5\<rparr>)) (mini_sys configured) = Inr 4"
  using config_update_version [OF mini_config.redis_config_axioms mini_reliable sample_config_go(2) _ configured_holds]
  by (simp add: in64_def)

theorem config_initialize_witness:
  "holds_config mini_env (mini_view (world (exec (Initialize mini_env Background sample_config) (mini_sys empty_mini))))
     sample_config 1 \<and>
   holds_config mini_env (mini_view (world (exec (Initialize mini_env Background (sample_config\<lparr>L1TTLSeconds := 5\<rparr>))
     (mini_sys configured)))) sample_config 3"
  using config_initialize [OF mini_config.redis_config_axioms mini_reliable sample_config_go(1), of "mini_sys empty_mini"]
    config_initialize [OF mini_config.redis_config_axioms mini_reliable sample_config_go(2), of "mini_sys configured"]
    configured_holds
  by (simp add: mini_view_def empty_mini_def configured_def)

theorem config_update_half_done_witness:
  "\<exists>err. result (UpdateConfigStore mini_env Background sample_config)
     (mini_sys (configured\<lparr>m_keys := (m_keys configured)(gatewayConfigVersionKey \<mapsto> (MStr ''x'', None))\<rparr>)) =
     Inl (Wrap ''update gateway config'' err)"
  using config_update_half_done [OF mini_config.redis_config_axioms mini_reliable sample_config_go(1),
      of "mini_sys (configured\<lparr>m_keys := (m_keys configured)(gatewayConfigVersionKey \<mapsto> (MStr ''x'', None))\<rparr>)" "MStr ''x''"
        Background]
  by (auto simp: mini_view_def mini_env_def m_int_def)

end
