(* ===== verification/L2_Cache.thy ===== *)
theory L2_Cache
  imports Mini_Redis
begin

text \<open>
  The cache all gateways share in Redis, \<open>gateway/l2_cache.go\<close>: the values as JSON under
  their request URI, and one sorted set, the index, that scores every key by the time of its
  last use. Log output is left out.
\<close>

definition l2LRUKey :: string where
  "l2LRUKey = ''gateway:l2:lru''"

text \<open>The value stored for a cached value, and the value read back.\<close>

definition to_l2 :: "KeyValue \<Rightarrow> L2CacheValue" where
  "to_l2 value = \<lparr>L2Value = Value value,
     RecomputeDurationMs = quot (RecomputeDuration value) millisecond,
     ExpiresAtUnixMs = unix_milli (L2Expiration value)\<rparr>"

definition of_l2 :: "L2CacheValue \<Rightarrow> KeyValue" where
  "of_l2 cachedValue = \<lparr>Value = L2Value cachedValue, L1Expiration = zero_time,
     L2Expiration = time_of_milli (ExpiresAtUnixMs cachedValue),
     RecomputeDuration = dur_mul (RecomputeDurationMs cachedValue) millisecond\<rparr>"

text \<open>\<open>float64(time.Now().UnixNano())\<close>\<close>

definition use_score :: "time \<Rightarrow> f64" where
  "use_score t = f64_of_int (wrap64 t)"

definition getL2 :: "('w, 'v) env \<Rightarrow> ctx \<Rightarrow> string \<Rightarrow> (('w, 'x) sys_scheme, KeyValue option) state" where
  "getL2 E c key = do {
     r \<leftarrow> redis E c (c_get E key);
     case r of
       Inr None \<Rightarrow> do {
         _ \<leftarrow> redis E c (c_zrem E l2LRUKey key);
         ret None }
     | Inl err \<Rightarrow> ret None
     | Inr (Some data) \<Rightarrow>
         (case dec_l2 E data of
            None \<Rightarrow> do {
              _ \<leftarrow> redis E c (c_del E [key]);
              _ \<leftarrow> redis E c (c_zrem E l2LRUKey key);
              ret None }
          | Some cachedValue \<Rightarrow> do {
              t \<leftarrow> time_now E;
              _ \<leftarrow> redis E c (c_zadd E l2LRUKey key (use_score t));
              ret (Some (of_l2 cachedValue)) }) }"

primrec del_evicted :: "('w, 'v) env \<Rightarrow> ctx \<Rightarrow> zmember list \<Rightarrow> (('w, 'x) sys_scheme, unit) state" where
  "del_evicted E c [] = ret ()"
| "del_evicted E c (element # elements) =
     (case element of
        ZOther \<Rightarrow> del_evicted E c elements
      | ZStr key \<Rightarrow> do {
          _ \<leftarrow> redis E c (c_del E [key]);
          del_evicted E c elements })"

definition removeL2LRU :: "('w, 'v) env \<Rightarrow> ctx \<Rightarrow> int \<Rightarrow> (('w, 'x) sys_scheme, unit) state" where
  "removeL2LRU E c count = do {
     r \<leftarrow> redis E c (c_zpopmin E l2LRUKey count);
     case r of
       Inl err \<Rightarrow> ret ()
     | Inr elements \<Rightarrow> del_evicted E c elements }"

definition setL2 :: "('w, 'v) env \<Rightarrow> ctx \<Rightarrow> string \<Rightarrow> KeyValue \<Rightarrow> duration \<Rightarrow> int \<Rightarrow>
    (('w, 'x) sys_scheme, unit) state" where
  "setL2 E c key value ttl maxEntries =
     (if maxEntries \<le> 0 then ret ()
      else case enc_l2 E (to_l2 value) of
        None \<Rightarrow> ret ()
      | Some data \<Rightarrow> do {
          r \<leftarrow> redis E c (c_set E key data ttl);
          case r of
            Inl err \<Rightarrow> ret ()
          | Inr _ \<Rightarrow> do {
              t \<leftarrow> time_now E;
              r \<leftarrow> redis E c (c_zadd E l2LRUKey key (use_score t));
              case r of
                Inl err \<Rightarrow> ret ()
              | Inr _ \<Rightarrow> do {
                  r \<leftarrow> redis E c (c_zcard E l2LRUKey);
                  case r of
                    Inl err \<Rightarrow> ret ()
                  | Inr count \<Rightarrow>
                      if count > maxEntries then removeL2LRU E c (count - maxEntries) else ret ()
                  } } })"

definition clearL2 :: "('w, 'v) env \<Rightarrow> ctx \<Rightarrow> (('w, 'x) sys_scheme, goerr option) state" where
  "clearL2 E c = do {
     r \<leftarrow> redis E c (c_zrange E l2LRUKey);
     case r of
       Inl err \<Rightarrow> ret (Some err)
     | Inr ks \<Rightarrow> do {
         r \<leftarrow> (if 0 < length ks then redis E c (c_del E ks) else ret (Inr 0));
         case r of
           Inl err \<Rightarrow> ret (Some err)
         | Inr _ \<Rightarrow> do {
             r \<leftarrow> redis E c (c_del E [l2LRUKey]);
             case r of
               Inl err \<Rightarrow> ret (Some err)
             | Inr _ \<Rightarrow> ret None } } }"


section \<open>Effects on a reliable Redis that serves one call at a time\<close>

lemma del_keys_Nil [simp]: "del_keys [] v = v"
  by (simp add: del_keys_def)

lemma del_keys_Cons: "del_keys ks (del_keys [k] v) = del_keys (k # ks) v"
  by (auto simp: del_keys_def fun_eq_iff)

lemma zdrop_empty [simp]: "zdrop z {} v = v"
  by (simp add: zdrop_def restrict_map_def)

lemma in64_quot: "in64 d \<Longrightarrow> in64 (quot d millisecond)"
proof -
  assume "in64 d"
  then have "\<bar>d\<bar> div millisecond \<le> 2 ^ 63 div millisecond"
    by (intro zdiv_mono1) (auto simp: in64_def)
  moreover have "0 \<le> \<bar>d\<bar> div millisecond" by simp
  ultimately show ?thesis by (auto simp: quot_def in64_def sgn_if)
qed

lemma in64_to_l2:
  "in64 (RecomputeDuration v) \<Longrightarrow> in64 (RecomputeDurationMs (to_l2 v))"
  "in64 (ExpiresAtUnixMs (to_l2 v))"
  by (simp_all add: to_l2_def in64_quot unix_milli_def)

text \<open>\<open>ms\<close> are the members that leave an index \<open>z\<close> so that \<open>n\<close> are left: those used longest ago.\<close>

definition evicts :: "nat \<Rightarrow> (string \<Rightarrow> f64 option) \<Rightarrow> string list \<Rightarrow> bool" where
  "evicts n z ms \<longleftrightarrow> distinct ms \<and> set ms \<subseteq> dom z \<and> length ms = card (dom z) - n \<and>
     (\<forall>m \<in> set ms. \<forall>m' \<in> dom z - set ms. the (z m) \<le> the (z m'))"

context redis_l2
begin

lemmas zadd_view = redis_effect [where f = "zput z m sc", OF _ zadd_effect zadd_time] for z m sc
lemmas zrem_view = redis_effect [where f = "zdrop z {m}", OF _ zrem_effect zrem_time] for z m
lemmas del_view = redis_effect [where f = "del_keys ks", OF _ del_effect del_time] for ks
lemmas zcard_view = redis_effect [where f = "\<lambda>v. v", OF _ zcard_effect zcard_time]
lemmas zrange_view = redis_effect [where f = "\<lambda>v. v", OF _ zrange_effect zrange_time]

lemma getL2_effect:
  assumes rel: "reliable E"
  shows "\<exists>t u sc. server_time (vw (world s)) \<le> t \<and> t \<le> u \<and>
    (case lookup_at ((vw (world s))\<lparr>server_time := t\<rparr>) key of
       None \<Rightarrow> result (getL2 E c key) s = None \<and>
         vw (world (exec (getL2 E c key) s)) = (zdrop l2LRUKey {key} (vw (world s)))\<lparr>server_time := u\<rparr>
     | Some d \<Rightarrow> (case dec_l2 E d of
         None \<Rightarrow> result (getL2 E c key) s = None \<and> vw (world (exec (getL2 E c key) s)) =
           (zdrop l2LRUKey {key} (del_keys [key] (vw (world s))))\<lparr>server_time := u\<rparr>
       | Some cv \<Rightarrow> result (getL2 E c key) s = Some (of_l2 cv) \<and>
           vw (world (exec (getL2 E c key) s)) =
             (zput l2LRUKey key sc (vw (world s)))\<lparr>server_time := u\<rparr>))"
proof -
  let ?s1 = "exec (redis E c (c_get E key)) s"
  obtain t where t: "server_time (vw (world s)) \<le> t" "vw (world ?s1) = (vw (world s))\<lparr>server_time := t\<rparr>"
      "result (redis E c (c_get E key)) s = Inr (lookup_at ((vw (world s))\<lparr>server_time := t\<rparr>) key)"
    using redis_get [OF rel] by blast
  show ?thesis
  proof (cases "lookup_at ((vw (world s))\<lparr>server_time := t\<rparr>) key")
    case None
    obtain u where "t \<le> u" "vw (world (exec (redis E c (c_zrem E l2LRUKey key)) ?s1)) =
        (zdrop l2LRUKey {key} (vw (world s)))\<lparr>server_time := u\<rparr>"
      using zrem_view [OF rel, of ?s1 c l2LRUKey key] t(2) by auto
    with None t show ?thesis by (intro exI [of _ t] exI [of _ u]) (auto simp: getL2_def run)
  next
    case (Some d)
    show ?thesis
    proof (cases "dec_l2 E d")
      case None
      let ?s2 = "exec (redis E c (c_del E [key])) ?s1"
      obtain u1 where u1: "t \<le> u1" "vw (world ?s2) = (del_keys [key] (vw (world s)))\<lparr>server_time := u1\<rparr>"
        using del_view [OF rel, of ?s1 c "[key]"] t(2) by auto
      obtain u where "u1 \<le> u" "vw (world (exec (redis E c (c_zrem E l2LRUKey key)) ?s2)) =
          (zdrop l2LRUKey {key} (del_keys [key] (vw (world s))))\<lparr>server_time := u\<rparr>"
        using zrem_view [OF rel, of ?s2 c l2LRUKey key] u1(2) by auto
      with None Some t u1 show ?thesis
        by (intro exI [of _ t] exI [of _ u]) (auto simp: getL2_def run)
    next
      case (Some cv)
      let ?s2 = "?s1\<lparr>world := exec (now E) (world ?s1)\<rparr>" and ?n = "result (now E) (world ?s1)"
      obtain u1 where u1: "t \<le> u1" "vw (world ?s2) = (vw (world s))\<lparr>server_time := u1\<rparr>"
        using now_view [of "world ?s1"] t(2) by auto
      obtain u where "u1 \<le> u" "vw (world (exec (redis E c (c_zadd E l2LRUKey key (use_score ?n))) ?s2)) =
          (zput l2LRUKey key (use_score ?n) (vw (world s)))\<lparr>server_time := u\<rparr>"
        using zadd_view [OF rel, of ?s2 c l2LRUKey key "use_score ?n"] u1(2) by auto
      with Some \<open>lookup_at _ key = Some d\<close> t u1 show ?thesis
        by (intro exI [of _ t] exI [of _ u] exI [of _ "use_score ?n"]) (auto simp: getL2_def run)
    qed
  qed
qed

lemma del_evicted_effect:
  assumes rel: "reliable E"
  shows "\<exists>u \<ge> server_time (vw (world s)).
    vw (world (exec (del_evicted E c (map ZStr ms)) s)) = (del_keys ms (vw (world s)))\<lparr>server_time := u\<rparr>"
proof (induction ms arbitrary: s)
  case Nil
  show ?case by (rule exI [of _ "server_time (vw (world s))"]) (simp add: run)
next
  case (Cons m ms)
  let ?s1 = "exec (redis E c (c_del E [m])) s"
  obtain t where t: "server_time (vw (world s)) \<le> t" "vw (world ?s1) = (del_keys [m] (vw (world s)))\<lparr>server_time := t\<rparr>"
    using del_view [OF rel, of s c "[m]"] by auto
  obtain u where "t \<le> u" "vw (world (exec (del_evicted E c (map ZStr ms)) ?s1)) =
      (del_keys ms (del_keys [m] (vw (world s))))\<lparr>server_time := u\<rparr>"
    using Cons [of ?s1] t(2) by auto
  with t show ?case by (intro exI [of _ u]) (auto simp: run del_keys_Cons)
qed

lemma removeL2LRU_effect:
  assumes rel: "reliable E" and n: "0 \<le> n"
  shows "\<exists>ms u. server_time (vw (world s)) \<le> u \<and>
    evicts (card (dom (zsets (vw (world s)) l2LRUKey)) - nat n) (zsets (vw (world s)) l2LRUKey) ms \<and>
    vw (world (exec (removeL2LRU E c n) s)) =
      (del_keys ms (zdrop l2LRUKey (set ms) (vw (world s))))\<lparr>server_time := u\<rparr>"
proof -
  let ?w = "exec (link_status E c) (world s)" and ?m = "c_zpopmin E l2LRUKey n"
  let ?s1 = "exec (redis E c ?m) s"
  obtain t where t: "server_time (vw (world s)) \<le> t" "vw ?w = (vw (world s))\<lparr>server_time := t\<rparr>"
    using link_view by blast
  obtain ms where ms: "result ?m ?w = map ZStr ms" "distinct ms" "set ms \<subseteq> dom (zsets (vw ?w) l2LRUKey)"
      "length ms = min (nat n) (card (dom (zsets (vw ?w) l2LRUKey)))"
      "\<forall>m \<in> set ms. \<forall>m' \<in> dom (zsets (vw ?w) l2LRUKey) - set ms.
         the (zsets (vw ?w) l2LRUKey m) \<le> the (zsets (vw ?w) l2LRUKey m')"
      "vw (exec ?m ?w) = zdrop l2LRUKey (set ms) (served vw ?m ?w)"
    using zpop_effect [OF n, of l2LRUKey ?w] by blast
  have tp: "t \<le> server_time (vw (exec ?m ?w))"
    using zpop_time [of l2LRUKey n ?w] t(2) by (simp add: time_passes_def)
  have v1: "vw (world ?s1) = (zdrop l2LRUKey (set ms) (vw (world s)))\<lparr>server_time := server_time (vw (exec ?m ?w))\<rparr>"
    using ms(6) t(2) by (simp add: redis_delivered [OF rel] served_def)
  obtain u where u: "server_time (vw (world ?s1)) \<le> u"
      "vw (world (exec (del_evicted E c (map ZStr ms)) ?s1)) = (del_keys ms (vw (world ?s1)))\<lparr>server_time := u\<rparr>"
    using del_evicted_effect [OF rel] by blast
  have "evicts (card (dom (zsets (vw (world s)) l2LRUKey)) - nat n) (zsets (vw (world s)) l2LRUKey) ms"
    using ms(2-5) t(2) by (auto simp: evicts_def)
  moreover have "exec (removeL2LRU E c n) s = exec (del_evicted E c (map ZStr ms)) ?s1"
    using ms(1) by (simp add: removeL2LRU_def run redis_delivered [OF rel])
  moreover have "server_time (vw (world s)) \<le> u" using u(1) v1 tp t(1) by simp
  ultimately show ?thesis using u(2) v1 by (intro exI [of _ ms] exI [of _ u]) simp
qed

text \<open>Storing a value: it is set with its expiry, indexed, and the surplus is evicted.\<close>

lemma setL2_effect:
  assumes rel: "reliable E" and m: "0 < maxEntries" and ttl: "ttl_ok ttl"
    and dur: "in64 (RecomputeDuration value)"
  shows "\<exists>d e t u sc ms. dec_l2 E d = Some (to_l2 value) \<and> server_time (vw (world s)) \<le> t \<and> t \<le> u \<and>
    expiry_for ((vw (world s))\<lparr>server_time := t\<rparr>) ttl e \<and>
    evicts (nat maxEntries) ((zsets (vw (world s)) l2LRUKey)(key \<mapsto> sc)) ms \<and>
    (\<exists>n. sc = use_score n) \<and>
    vw (world (exec (setL2 E c key value ttl maxEntries) s)) =
      (del_keys ms (zdrop l2LRUKey (set ms) (zput l2LRUKey key sc (put_key key d e (vw (world s))))))
        \<lparr>server_time := u\<rparr>"
proof -
  obtain d where d: "enc_l2 E (to_l2 value) = Some d" "dec_l2 E d = Some (to_l2 value)"
    using l2_json in64_to_l2 [of "value"] dur by blast
  let ?s1 = "exec (redis E c (c_set E key d ttl)) s"
  obtain t e where t: "server_time (vw (world s)) \<le> t" "expiry_for ((vw (world s))\<lparr>server_time := t\<rparr>) ttl e"
      "vw (world ?s1) = (put_key key d e (vw (world s)))\<lparr>server_time := t\<rparr>"
    using redis_set [OF rel ttl] by fastforce
  let ?n = "result (now E) (world ?s1)" and ?s2 = "?s1\<lparr>world := exec (now E) (world ?s1)\<rparr>"
  obtain t2 where t2: "t \<le> t2" "vw (world ?s2) = (put_key key d e (vw (world s)))\<lparr>server_time := t2\<rparr>"
    using now_view [of "world ?s1"] t(3) by auto
  let ?sc = "use_score ?n" and ?s3 = "exec (redis E c (c_zadd E l2LRUKey key (use_score ?n))) ?s2"
  let ?v = "zput l2LRUKey key ?sc (put_key key d e (vw (world s)))"
  obtain t3 where t3: "t2 \<le> t3" "vw (world ?s3) = ?v\<lparr>server_time := t3\<rparr>"
    using zadd_view [OF rel, of ?s2 c l2LRUKey key ?sc] t2(2) by auto
  let ?s4 = "exec (redis E c (c_zcard E l2LRUKey)) ?s3"
  obtain t4 where t4: "t3 \<le> t4" "vw (world ?s4) = ?v\<lparr>server_time := t4\<rparr>"
    using zcard_view [OF rel, of ?s3 c l2LRUKey] t3(2) by auto
  let ?z = "(zsets (vw (world s)) l2LRUKey)(key \<mapsto> ?sc)"
  obtain t5 where "vw (exec (link_status E c) (world ?s3)) = ?v\<lparr>server_time := t5\<rparr>"
    using link_view [of "world ?s3" c] t3(2) by auto
  then have cnt: "result (redis E c (c_zcard E l2LRUKey)) ?s3 = Inr (int (card (dom ?z)))"
    by (simp add: redis_delivered [OF rel] zcard_result)
  let ?fin = "if int (card (dom ?z)) > maxEntries
      then exec (removeL2LRU E c (int (card (dom ?z)) - maxEntries)) ?s4 else ?s4"
  have run_eq: "exec (setL2 E c key value ttl maxEntries) s = ?fin"
    using m d(1) by (simp add: setL2_def run redis_delivered(1) [OF rel] cnt [simplified redis_delivered(1) [OF rel]])
  have "\<exists>ms u. t4 \<le> u \<and> evicts (nat maxEntries) ?z ms \<and>
      vw (world ?fin) = (del_keys ms (zdrop l2LRUKey (set ms) ?v))\<lparr>server_time := u\<rparr>"
  proof (cases "int (card (dom ?z)) > maxEntries")
    case True
    have zv: "zsets (vw (world ?s4)) l2LRUKey = ?z" using t4(2) by simp
    obtain ms u where "t4 \<le> u" "evicts (card (dom ?z) - nat (int (card (dom ?z)) - maxEntries)) ?z ms"
        "vw (world ?fin) = (del_keys ms (zdrop l2LRUKey (set ms) ?v))\<lparr>server_time := u\<rparr>"
      using removeL2LRU_effect [OF rel, of "int (card (dom ?z)) - maxEntries" ?s4 c] True t4(2)
      by (auto simp: zv simp del: dom_fun_upd)
    moreover have "card (dom ?z) - nat (int (card (dom ?z)) - maxEntries) = nat maxEntries"
      using True m by linarith
    ultimately show ?thesis by metis
  next
    case False
    then have "evicts (nat maxEntries) ?z []" by (simp add: evicts_def del: dom_fun_upd)
    then show ?thesis using False t4(2) by (intro exI [of _ "[]"] exI [of _ t4]) (simp del: dom_fun_upd)
  qed
  then obtain ms u where "t4 \<le> u" "evicts (nat maxEntries) ?z ms"
      "vw (world ?fin) = (del_keys ms (zdrop l2LRUKey (set ms) ?v))\<lparr>server_time := u\<rparr>" by blast
  then show ?thesis
    using d(2) t t2(1) t3(1) t4(1) unfolding run_eq
    by (intro exI [of _ d] exI [of _ e] exI [of _ t] exI [of _ u] exI [of _ ?sc] exI [of _ ms])
      (auto simp del: dom_fun_upd)
qed

lemma clearL2_effect:
  assumes rel: "reliable E"
  shows "\<exists>ks u. set ks = dom (zsets (vw (world s)) l2LRUKey) \<and> server_time (vw (world s)) \<le> u \<and>
    result (clearL2 E c) s = None \<and>
    vw (world (exec (clearL2 E c) s)) = (del_keys (ks @ [l2LRUKey]) (vw (world s)))\<lparr>server_time := u\<rparr>"
proof -
  let ?s1 = "exec (redis E c (c_zrange E l2LRUKey)) s"
  obtain t where t: "server_time (vw (world s)) \<le> t" "vw (world ?s1) = (vw (world s))\<lparr>server_time := t\<rparr>"
    using zrange_view [OF rel, of s c l2LRUKey] by auto
  let ?w = "exec (link_status E c) (world s)"
  define ks where "ks = result (c_zrange E l2LRUKey) ?w"
  obtain t0 where "vw ?w = (vw (world s))\<lparr>server_time := t0\<rparr>"
    using link_view [of "world s" c] by auto
  then have ks: "set ks = dom (zsets (vw (world s)) l2LRUKey)"
    using zrange_result [of l2LRUKey ?w] by (simp add: ks_def)
  have r1: "result (redis E c (c_zrange E l2LRUKey)) s = Inr ks"
    by (simp add: redis_delivered [OF rel] ks_def)
  let ?m = "if 0 < length ks then redis E c (c_del E ks) else ret (Inr 0)" and ?s2 = "exec (if 0 < length ks then redis E c (c_del E ks) else ret (Inr 0)) ?s1"
  obtain t2 where t2: "t \<le> t2" "vw (world ?s2) = (del_keys ks (vw (world s)))\<lparr>server_time := t2\<rparr>"
    using del_view [OF rel, of ?s1 c ks] t(2) by (cases "ks = []") (auto simp: run)
  have r2: "\<exists>n. result ?m ?s1 = Inr n"
    by (simp add: run redis_delivered [OF rel])
  obtain u where u: "t2 \<le> u" "vw (world (exec (redis E c (c_del E [l2LRUKey])) ?s2)) =
      (del_keys [l2LRUKey] (del_keys ks (vw (world s))))\<lparr>server_time := u\<rparr>"
    using del_view [OF rel, of ?s2 c "[l2LRUKey]"] t2(2) by auto
  have "del_keys [l2LRUKey] (del_keys ks (vw (world s))) = del_keys (ks @ [l2LRUKey]) (vw (world s))"
    by (auto simp: del_keys_def fun_eq_iff)
  moreover have "result (clearL2 E c) s = None"
      "exec (clearL2 E c) s = exec (redis E c (c_del E [l2LRUKey])) ?s2"
    using r2 by (auto simp: clearL2_def run r1 redis_delivered(1) [OF rel] ks_def)
  ultimately show ?thesis using ks t(1) t2(1) u by (intro exI [of _ ks] exI [of _ u]) simp
qed

end


section \<open>The index is complete\<close>

text \<open>
  Gateways use the cache for the keys \<open>K\<close>. Every key that holds a live value is in the index,
  nothing else is, and the index is not one of the keys.
\<close>

definition l2_indexed :: "string set \<Rightarrow> 'v view \<Rightarrow> bool" where
  "l2_indexed K v \<longleftrightarrow> (\<forall>k \<in> K. lookup_at v k \<noteq> None \<longrightarrow> k \<in> dom (zsets v l2LRUKey)) \<and>
     dom (zsets v l2LRUKey) \<subseteq> K \<and> l2LRUKey \<notin> K"

datatype l2_call = GetL2 ctx string | SetL2 ctx string KeyValue duration int | ClearL2 ctx

definition l2_call_ok :: "string set \<Rightarrow> l2_call \<Rightarrow> bool" where
  "l2_call_ok K a = (case a of
       GetL2 c k \<Rightarrow> k \<in> K
     | SetL2 c k v ttl m \<Rightarrow> k \<in> K \<and> ttl_ok ttl \<and> in64 (RecomputeDuration v)
     | ClearL2 c \<Rightarrow> True)"

primrec do_l2 :: "('w, 'v) env \<Rightarrow> l2_call \<Rightarrow> (('w, 'x) sys_scheme, unit) state" where
  "do_l2 E (GetL2 c k) = do { _ \<leftarrow> getL2 E c k; ret () }"
| "do_l2 E (SetL2 c k v ttl m) = setL2 E c k v ttl m"
| "do_l2 E (ClearL2 c) = do { _ \<leftarrow> clearL2 E c; ret () }"

primrec run_l2 :: "('w, 'v) env \<Rightarrow> l2_call list \<Rightarrow> (('w, 'x) sys_scheme, unit) state" where
  "run_l2 E [] = ret ()"
| "run_l2 E (a # as) = do { _ \<leftarrow> do_l2 E a; run_l2 E as }"

lemma l2_indexed_later: "l2_indexed K v \<Longrightarrow> server_time v \<le> u \<Longrightarrow> l2_indexed K (v\<lparr>server_time := u\<rparr>)"
  unfolding l2_indexed_def using lookup_at_later [of v u] by fastforce

lemma l2_indexed_zdrop:
  "l2_indexed K v \<Longrightarrow> lookup_at v k = None \<Longrightarrow> l2_indexed K (zdrop l2LRUKey {k} v)"
  by (auto simp: l2_indexed_def)

lemma l2_indexed_zput: "l2_indexed K v \<Longrightarrow> k \<in> K \<Longrightarrow> l2_indexed K (zput l2LRUKey k sc v)"
  by (auto simp: l2_indexed_def)

lemma l2_indexed_store:
  "l2_indexed K v \<Longrightarrow> k \<in> K \<Longrightarrow> l2_indexed K (zput l2LRUKey k sc (put_key k d e v))"
proof -
  assume "l2_indexed K v" "k \<in> K"
  moreover have "lookup_at (put_key k d e v) j = lookup_at v j \<or> j = k" for j by auto
  ultimately show ?thesis unfolding l2_indexed_def by auto
qed

lemma l2_indexed_evict:
  "l2_indexed K v \<Longrightarrow> set ms \<subseteq> K \<Longrightarrow> l2_indexed K (del_keys ms (zdrop l2LRUKey (set ms) v))"
  by (auto simp: l2_indexed_def lookup_at_del split: if_splits)

lemma l2_indexed_del: "l2_indexed K v \<Longrightarrow> k \<in> K \<Longrightarrow> l2_indexed K (del_keys [k] v)"
  by (auto simp: l2_indexed_def lookup_at_del split: if_splits)

lemma setL2_off: "maxEntries \<le> 0 \<Longrightarrow> setL2 E c key value ttl maxEntries = ret ()"
  by (simp add: setL2_def)

context redis_l2
begin

abbreviation indexed :: "string set \<Rightarrow> ('w, 'x) sys_scheme \<Rightarrow> bool" where
  "indexed K s \<equiv> l2_indexed K (vw (world s))"

lemma indexed_getL2: "reliable E \<Longrightarrow> k \<in> K \<Longrightarrow> keeps (indexed K) (getL2 E c k)"
proof (rule keepsI)
  fix s :: "('w, 'x) sys_scheme"
  assume rel: "reliable E" and k: "k \<in> K" and inv: "indexed K s"
  let ?v = "vw (world s)"
  obtain t u sc where t: "server_time ?v \<le> t" "t \<le> u" and cases:
    "case lookup_at (?v\<lparr>server_time := t\<rparr>) k of
       None \<Rightarrow> result (getL2 E c k) s = None \<and>
         vw (world (exec (getL2 E c k) s)) = (zdrop l2LRUKey {k} ?v)\<lparr>server_time := u\<rparr>
     | Some d \<Rightarrow> (case dec_l2 E d of
         None \<Rightarrow> result (getL2 E c k) s = None \<and> vw (world (exec (getL2 E c k) s)) =
           (zdrop l2LRUKey {k} (del_keys [k] ?v))\<lparr>server_time := u\<rparr>
       | Some cv \<Rightarrow> result (getL2 E c k) s = Some (of_l2 cv) \<and> vw (world (exec (getL2 E c k) s)) = (zput l2LRUKey k sc ?v)\<lparr>server_time := u\<rparr>)"
    using getL2_effect [OF rel, where s = s and key = k and c = c] by blast
  have invt: "l2_indexed K (?v\<lparr>server_time := t\<rparr>)" by (rule l2_indexed_later [OF inv t(1)])
  have late: "l2_indexed K w \<Longrightarrow> server_time w = t \<Longrightarrow> l2_indexed K (w\<lparr>server_time := u\<rparr>)" for w :: "'v view"
    using t(2) by (simp add: l2_indexed_later)
  show "indexed K (exec (getL2 E c k) s)"
  proof (cases "lookup_at (?v\<lparr>server_time := t\<rparr>) k")
    case None
    then show ?thesis using cases late [OF l2_indexed_zdrop [OF invt None]] by simp
  next
    case (Some d)
    have "lookup_at (del_keys [k] (?v\<lparr>server_time := t\<rparr>)) k = None"
      by (simp only: lookup_at_del) simp
    note gone = late [OF l2_indexed_zdrop [OF l2_indexed_del [OF invt k] this]]
    show ?thesis
      using Some cases gone late [OF l2_indexed_zput [OF invt k, of sc]] by (auto split: option.splits)
  qed
qed

lemma indexed_setL2:
  assumes rel: "reliable E" and k: "k \<in> K" and ttl: "ttl_ok ttl" and dur: "in64 (RecomputeDuration v)"
  shows "keeps (indexed K) (setL2 E c k v ttl m)"
proof (rule keepsI)
  fix s :: "('w, 'x) sys_scheme"
  assume inv: "indexed K s"
  let ?v = "vw (world s)"
  show "indexed K (exec (setL2 E c k v ttl m) s)"
  proof (cases "0 < m")
    case True
    obtain d e t u sc ms where t: "server_time ?v \<le> t" "t \<le> u" and ev:
        "evicts (nat m) ((zsets ?v l2LRUKey)(k \<mapsto> sc)) ms" and fin: "vw (world (exec (setL2 E c k v ttl m) s)) =
        (del_keys ms (zdrop l2LRUKey (set ms) (zput l2LRUKey k sc (put_key k d e ?v))))\<lparr>server_time := u\<rparr>"
      using setL2_effect [OF rel True ttl dur, where s = s and key = k and c = c] by blast
    have "set ms \<subseteq> insert k (dom (zsets ?v l2LRUKey))" using ev by (simp add: evicts_def)
    then have "set ms \<subseteq> K" using inv k unfolding l2_indexed_def by blast
    then show ?thesis
      using l2_indexed_later [OF l2_indexed_evict [OF l2_indexed_store [OF inv k]], where u = u] t
      unfolding fin by simp
  qed (use inv in \<open>simp add: setL2_off run\<close>)
qed

lemma indexed_clearL2:
  assumes rel: "reliable E"
  shows "keeps (indexed K) (clearL2 E c)"
proof (rule keepsI)
  fix s :: "('w, 'x) sys_scheme"
  assume inv: "indexed K s"
  obtain ks u where "set ks = dom (zsets (vw (world s)) l2LRUKey)" and fin:
      "vw (world (exec (clearL2 E c) s)) = (del_keys (ks @ [l2LRUKey]) (vw (world s)))\<lparr>server_time := u\<rparr>"
      "server_time (vw (world s)) \<le> u"
    using clearL2_effect [OF rel, of s c] by blast
  then have "l2_indexed K (del_keys (ks @ [l2LRUKey]) (vw (world s)))"
    using inv by (auto simp: l2_indexed_def lookup_at_del split: if_splits)
  then show "indexed K (exec (clearL2 E c) s)"
    using l2_indexed_later [of K "del_keys (ks @ [l2LRUKey]) (vw (world s))" u] fin by simp
qed

lemma indexed_run_l2: "reliable E \<Longrightarrow> list_all (l2_call_ok K) as \<Longrightarrow> keeps (indexed K) (run_l2 E as)"
proof (induction as)
  case (Cons a as)
  have "keeps (indexed K) (do_l2 E a)"
    using Cons.prems by (cases a) (auto simp: l2_call_ok_def
        intro!: wp indexed_getL2 indexed_setL2 indexed_clearL2)
  with Cons show ?case by (auto intro!: wp)
qed (auto intro!: wp)

end

lemma evicts_none: "evicts n z ms \<Longrightarrow> card (dom z) \<le> n \<Longrightarrow> ms = []"
  by (simp add: evicts_def)

lemma evicts_left:
  assumes "evicts n z ms" and "finite (dom z)"
  shows "card (dom (z |` (- set ms))) \<le> n"
proof -
  have "dom (z |` (- set ms)) = dom z - set ms" by auto
  moreover have "card (set ms) = card (dom z) - n" "set ms \<subseteq> dom z"
    using assms(1) by (auto simp: evicts_def distinct_card)
  ultimately show ?thesis using assms(2) by (simp add: card_Diff_subset)
qed

text \<open>What survives the trip through the L2 form: durations and deadlines lose their fraction of a millisecond.\<close>

lemma of_l2_to_l2:
  assumes dur: "in64 (RecomputeDuration v)" and exp: "in64 (L2Expiration v div millisecond)"
  shows "of_l2 (to_l2 v) = \<lparr>Value = Value v, L1Expiration = zero_time,
    L2Expiration = L2Expiration v div millisecond * millisecond,
    RecomputeDuration = quot (RecomputeDuration v) millisecond * millisecond\<rparr>"
proof -
  let ?d = "RecomputeDuration v"
  obtain q where q: "q = \<bar>?d\<bar> div millisecond * millisecond" by blast
  have "0 \<le> q" "q \<le> \<bar>?d\<bar>"
    by (simp_all add: q minus_mod_eq_div_mult [symmetric] pos_imp_zdiv_nonneg_iff zmod_le_nonneg_dividend)
  then have "in64 (sgn ?d * q)"
    using dur by (cases "?d = 0"; cases "0 < ?d") (auto simp: in64_def)
  moreover have "quot ?d millisecond * millisecond = sgn ?d * q" by (simp add: quot_def q)
  ultimately have "in64 (quot ?d millisecond * millisecond)" by metis
  with exp show ?thesis by (simp add: of_l2_def to_l2_def go_arith unix_milli_def time_of_milli_def)
qed

context redis_l2
begin

lemma roundtrip:
  assumes rel: "reliable E" and m: "0 < m" and ttl: "ttl_ok ttl" and dur: "in64 (RecomputeDuration v)"
    and room: "int (card (insert key (dom (zsets (vw (world s)) l2LRUKey)))) \<le> m"
    and soon: "ttl = 0 \<or> server_time (vw (world (exec (getL2 E c' key) (exec (setL2 E c key v ttl m) s))))
           + millisecond \<le> server_time (vw (world s)) + ttl"
  shows "result (getL2 E c' key) (exec (setL2 E c key v ttl m) s) = Some (of_l2 (to_l2 v))"
proof -
  let ?v = "vw (world s)" and ?s1 = "exec (setL2 E c key v ttl m) s"
  obtain d e t u sc ms where d: "dec_l2 E d = Some (to_l2 v)" and t: "server_time ?v \<le> t"
      "expiry_for (?v\<lparr>server_time := t\<rparr>) ttl e" "evicts (nat m) ((zsets ?v l2LRUKey)(key \<mapsto> sc)) ms"
      "vw (world ?s1) = (del_keys ms (zdrop l2LRUKey (set ms) (zput l2LRUKey key sc (put_key key d e ?v))))
        \<lparr>server_time := u\<rparr>"
    using setL2_effect [OF rel m ttl dur, where s = s and key = key and c = c] by blast
  have "ms = []" using evicts_none [OF t(3)] room m by (simp add: nat_le_iff)
  then have v1: "vw (world ?s1) = (zput l2LRUKey key sc (put_key key d e ?v))\<lparr>server_time := u\<rparr>"
    using t(4) by simp
  obtain t' u' sc' where t': "t' \<le> u'" and cases:
    "case lookup_at ((vw (world ?s1))\<lparr>server_time := t'\<rparr>) key of
       None \<Rightarrow> result (getL2 E c' key) ?s1 = None \<and>
         vw (world (exec (getL2 E c' key) ?s1)) = (zdrop l2LRUKey {key} (vw (world ?s1)))\<lparr>server_time := u'\<rparr>
     | Some d \<Rightarrow> (case dec_l2 E d of
         None \<Rightarrow> result (getL2 E c' key) ?s1 = None \<and> vw (world (exec (getL2 E c' key) ?s1)) =
           (zdrop l2LRUKey {key} (del_keys [key] (vw (world ?s1))))\<lparr>server_time := u'\<rparr>
       | Some cv \<Rightarrow> result (getL2 E c' key) ?s1 = Some (of_l2 cv) \<and>
           vw (world (exec (getL2 E c' key) ?s1)) = (zput l2LRUKey key sc' (vw (world ?s1)))\<lparr>server_time := u'\<rparr>)"
    using getL2_effect [OF rel, where s = ?s1 and key = key and c = c'] by blast
  have fin: "server_time (vw (world (exec (getL2 E c' key) ?s1))) = u'"
    using cases by (auto split: option.splits)
  have "lookup_at ((vw (world ?s1))\<lparr>server_time := t'\<rparr>) key = Some d"
  proof (rule lookup_at_Some)
    show "keys ((vw (world ?s1))\<lparr>server_time := t'\<rparr>) key = Some (d, e)" by (simp add: v1)
    fix x assume "e = Some x"
    then show "server_time ((vw (world ?s1))\<lparr>server_time := t'\<rparr>) < x"
      using t(1,2) t' soon fin by (auto simp: expiry_for_def split: if_splits)
  qed
  then show ?thesis using cases d by simp
qed

lemma setL2_within:
  assumes rel: "reliable E" and m: "0 < m" and ttl: "ttl_ok ttl" and dur: "in64 (RecomputeDuration v)"
    and key: "l2LRUKey \<notin> insert key (dom (zsets (vw (world s)) l2LRUKey))"
  shows "int (card (dom (zsets (vw (world (exec (setL2 E c key v ttl m) s))) l2LRUKey))) \<le> m"
proof -
  let ?v = "vw (world s)"
  obtain d e u sc ms where t: "evicts (nat m) ((zsets ?v l2LRUKey)(key \<mapsto> sc)) ms"
      "vw (world (exec (setL2 E c key v ttl m) s)) =
        (del_keys ms (zdrop l2LRUKey (set ms) (zput l2LRUKey key sc (put_key key d e ?v))))\<lparr>server_time := u\<rparr>"
    using setL2_effect [OF rel m ttl dur, where s = s and key = key and c = c] by blast
  have "l2LRUKey \<notin> set ms" using t(1) key by (auto simp: evicts_def)
  then have "zsets (vw (world (exec (setL2 E c key v ttl m) s))) l2LRUKey =
      ((zsets ?v l2LRUKey)(key \<mapsto> sc)) |` (- set ms)"
    by (simp add: t(2))
  moreover have "card (dom (((zsets ?v l2LRUKey)(key \<mapsto> sc)) |` (- set ms))) \<le> nat m"
    using evicts_left [OF t(1)] zset_finite [of "world s" l2LRUKey] by simp
  ultimately show ?thesis using m by simp
qed

lemma clear_after:
  assumes rel: "reliable E" and ok: "list_all (l2_call_ok K) as" and ix: "indexed K s"
  shows "result (clearL2 E c) (exec (run_l2 E as) s) = None"
    and "k \<in> K \<Longrightarrow> lookup_at (vw (world (exec (clearL2 E c) (exec (run_l2 E as) s)))) k = None"
    and "zsets (vw (world (exec (clearL2 E c) (exec (run_l2 E as) s)))) l2LRUKey = Map.empty"
    and "k \<notin> insert l2LRUKey K \<Longrightarrow> keys (vw (world (exec (clearL2 E c) (exec (run_l2 E as) s)))) k =
      keys (vw (world (exec (run_l2 E as) s))) k"
proof -
  let ?s = "exec (run_l2 E as) s"
  have inv: "indexed K ?s" using indexed_run_l2 [OF rel ok] ix by (rule keepsD)
  obtain ks u where ks: "set ks = dom (zsets (vw (world ?s)) l2LRUKey)" "server_time (vw (world ?s)) \<le> u"
      "result (clearL2 E c) ?s = None"
      "vw (world (exec (clearL2 E c) ?s)) = (del_keys (ks @ [l2LRUKey]) (vw (world ?s)))\<lparr>server_time := u\<rparr>"
    using clearL2_effect [OF rel, where s = ?s and c = c] by blast
  show "result (clearL2 E c) ?s = None" by (rule ks(3))
  show "zsets (vw (world (exec (clearL2 E c) ?s))) l2LRUKey = Map.empty" by (simp add: ks(4))
  show "keys (vw (world (exec (clearL2 E c) ?s))) k = keys (vw (world ?s)) k" if "k \<notin> insert l2LRUKey K"
    using that inv ks(1) by (auto simp: ks(4) l2_indexed_def)
  show "lookup_at (vw (world (exec (clearL2 E c) ?s))) k = None" if k: "k \<in> K"
  proof -
    have "lookup_at (del_keys (ks @ [l2LRUKey]) (vw (world ?s))) k = None"
      using inv k ks(1) by (auto simp: lookup_at_del l2_indexed_def)
    then show ?thesis
      using lookup_at_later [of "del_keys (ks @ [l2LRUKey]) (vw (world ?s))" u k] ks(2)
      by (cases "lookup_at (vw (world (exec (clearL2 E c) ?s))) k") (auto simp: ks(4))
  qed
qed

end


section \<open>Properties\<close>

text \<open>
  C7. A value stored in L2 while the index has room is read back by any gateway, as long as
  the server's clock is more than a millisecond short of the time to live: the same bytes, the
  deadline and the recomputation time truncated to whole milliseconds.
\<close>

theorem l2_set_then_get:
  assumes "redis_l2 E vw" and "reliable E" and "0 < m" and "ttl_ok ttl"
    and "in64 (RecomputeDuration v)" and "in64 (L2Expiration v div millisecond)"
    and "int (card (insert key (dom (zsets (vw (world s)) l2LRUKey)))) \<le> m"
    and "ttl = 0 \<or> server_time (vw (world (exec (getL2 E c' key) (exec (setL2 E c key v ttl m) s))))
           + millisecond \<le> server_time (vw (world s)) + ttl"
  shows "result (getL2 E c' key) (exec (setL2 E c key v ttl m) s) =
    Some \<lparr>Value = Value v, L1Expiration = zero_time,
      L2Expiration = L2Expiration v div millisecond * millisecond,
      RecomputeDuration = quot (RecomputeDuration v) millisecond * millisecond\<rparr>"
  using redis_l2.roundtrip [OF assms(1-5,7,8)] assms(5,6) by (simp add: of_l2_to_l2)

text \<open>
  C26. A store never leaves more entries in the index than its capacity: whatever the index
  held before, the surplus is evicted.
\<close>

theorem l2_capacity:
  assumes "redis_l2 E vw" and "reliable E" and "0 < m" and "ttl_ok ttl"
    and "in64 (RecomputeDuration v)" and "l2LRUKey \<notin> insert key (dom (zsets (vw (world s)) l2LRUKey))"
  shows "int (card (dom (zsets (vw (world (exec (setL2 E c key v ttl m) s))) l2LRUKey))) \<le> m"
  using assms by (rule redis_l2.setL2_within)

text \<open>
  The index never loses a live value: after any sequence of reads, stores and clears by
  any gateways over keys \<open>K\<close>, every live value is in the index and every member of the index is
  one of the keys, so every value can be evicted and cleared.
\<close>

theorem l2_index_complete:
  assumes "redis_l2 E vw" and "reliable E" and "list_all (l2_call_ok K) as"
    and "l2_indexed K (vw (world s))"
  shows "l2_indexed K (vw (world (exec (run_l2 E as) s)))"
  using redis_l2.indexed_run_l2 [OF assms(1-3)] assms(4) by (rule keepsD)

text \<open>
  Clearing the cache after any such sequence succeeds, leaves no live value of the cache
  and an empty index, and touches no other key of the server.
\<close>

theorem l2_clear_complete:
  assumes "redis_l2 E vw" and "reliable E" and "list_all (l2_call_ok K) as"
    and "l2_indexed K (vw (world s))" and "k \<in> K" and "k' \<notin> insert l2LRUKey K"
  shows "let t = exec (run_l2 E as) s; u = exec (clearL2 E c) t in
    result (clearL2 E c) t = None \<and> lookup_at (vw (world u)) k = None \<and>
    zsets (vw (world u)) l2LRUKey = Map.empty \<and> keys (vw (world u)) k' = keys (vw (world t)) k'"
  using redis_l2.clear_after [OF assms(1-4)] assms(5,6) by (simp add: Let_def)

section \<open>Witnesses\<close>

definition l2_sample :: KeyValue where
  "l2_sample = \<lparr>Value = ''body'', L1Expiration = 5 * second, L2Expiration = 9 * second + 250,
     RecomputeDuration = 1234567\<rparr>"

text \<open>A cache of two entries with two stored.\<close>

definition l2_calls :: "l2_call list" where
  "l2_calls = [SetL2 RequestCtx ''/a'' l2_sample (9 * second) 2, SetL2 RequestCtx ''/b'' l2_sample (9 * second) 2,
     GetL2 RequestCtx ''/a'']"

lemmas l2_eval = run setL2_def getL2_def m_lookup_def m_expiry_def m_ranked_def removeL2LRU_def clearL2_def
  empty_mini_def mini_view_def l2LRUKey_def to_l2_def l2_sample_def

text \<open>
  A store that loses the connection between writing the value and indexing it leaves a
  value that clearing the cache does not remove: with the second command lost, \<open>clearL2\<close> reports
  success and a gateway still reads the value afterwards.
\<close>

theorem l2_clear_misses_unindexed:
  "let lost = mini_sys (empty_mini\<lparr>m_links := [Delivered, NotSent ''i/o timeout'']\<rparr>);
       s = exec (setL2 flaky_env RequestCtx ''/a'' l2_sample (9 * second) 2) lost;
       t = exec (clearL2 flaky_env Background) s in
   result (clearL2 flaky_env Background) s = None \<and>
   result (getL2 flaky_env RequestCtx ''/a'') t = Some (of_l2 (to_l2 l2_sample))"
  by (simp add: l2_eval flaky_env_def redis_def redis_do_def mini_env_def mini_run time_now_def Let_def)

theorem l2_set_then_get_witness:
  "result (getL2 mini_env RequestCtx ''/a'')
     (exec (setL2 mini_env Background ''/a'' l2_sample (9 * second) 2) (mini_sys empty_mini)) =
   Some \<lparr>Value = ''body'', L1Expiration = zero_time, L2Expiration = 9 * second, RecomputeDuration = millisecond\<rparr>"
  using l2_set_then_get [OF mini.redis_l2_axioms mini_reliable, of 2 "9 * second" l2_sample "''/a''" "mini_sys empty_mini"
      RequestCtx Background]
  by (simp add: l2_eval ttl_ok_def in64_def quot_def)

theorem l2_capacity_witness:
  "let s = exec (run_l2 mini_env l2_calls) (mini_sys empty_mini) in
   int (card (dom (zsets (mini_view (world (exec (setL2 mini_env Background ''/c'' l2_sample (9 * second) 2) s)))
     l2LRUKey))) \<le> 2"
proof -
  let ?s = "exec (run_l2 mini_env l2_calls) (mini_sys empty_mini)"
  have "l2LRUKey \<notin> insert ''/c'' (dom (zsets (mini_view (world ?s)) l2LRUKey))"
    by (simp add: l2_eval l2_calls_def)
  then show ?thesis
    using l2_capacity [OF mini.redis_l2_axioms mini_reliable, of 2 "9 * second" l2_sample "''/c''" ?s Background]
    by (simp add: ttl_ok_def in64_def l2_sample_def Let_def)
qed

lemma l2_calls_ok: "list_all (l2_call_ok {''/a'', ''/b''}) l2_calls"
  by (simp add: l2_calls_def l2_call_ok_def ttl_ok_def in64_def l2_sample_def)

lemma l2_indexed_empty: "l2_indexed {''/a'', ''/b''} (mini_view (world (mini_sys empty_mini)))"
  by (simp add: l2_indexed_def empty_mini_def mini_view_def lookup_at_def l2LRUKey_def)

theorem l2_index_complete_witness:
  "l2_indexed {''/a'', ''/b''} (mini_view (world (exec (run_l2 mini_env l2_calls) (mini_sys empty_mini))))"
  by (rule l2_index_complete [OF mini.redis_l2_axioms mini_reliable l2_calls_ok l2_indexed_empty])

theorem l2_clear_complete_witness:
  "let t = exec (run_l2 mini_env l2_calls) (mini_sys empty_mini) in
   m_lookup (world t) ''/a'' = Some (ML2 (to_l2 l2_sample)) \<and>
   lookup_at (mini_view (world (exec (clearL2 mini_env Background) t))) ''/a'' = None"
  using l2_clear_complete [OF mini.redis_l2_axioms mini_reliable l2_calls_ok l2_indexed_empty,
      of "''/a''" "''config''" Background]
  by (simp add: Let_def l2LRUKey_def) (simp add: l2_eval l2_calls_def)

end
