(* ===== verification/Backend_Fetcher.thy ===== *)
theory Backend_Fetcher
  imports Mini_Redis
begin

text \<open>
  A call of the backend: the reverse proxy as \<open>NewHandler\<close> sets it up (\<open>gateway/handler.go\<close>),
  the count of backend calls per logical refresh (\<open>gateway/faf.go\<close>), and the call with its
  timeout (\<open>gateway/backend_fetcher.go\<close>).
\<close>

section \<open>The proxy\<close>

definition TrimPrefix :: "string \<Rightarrow> string \<Rightarrow> string" where
  "TrimPrefix s prefix = (if take (length prefix) s = prefix then drop (length prefix) s else s)"

definition director :: "request \<Rightarrow> request" where
  "director req =
     (let req = req\<lparr>Path := TrimPrefix (Path req) ''/api/backend''\<rparr>
      in if RawPath req \<noteq> [] then req\<lparr>RawPath := TrimPrefix (RawPath req) ''/api/backend''\<rparr> else req)"

text \<open>
  What the recorder and the error holder contain when the proxy is done. The error handler
  keeps the error and writes an answer of its own; \<open>http.Error\<close> ends its message with a newline.
\<close>

definition StatusOK :: int where "StatusOK = 200"
definition StatusBadGateway :: int where "StatusBadGateway = 502"
definition StatusServiceUnavailable :: int where "StatusServiceUnavailable = 503"
definition StatusGatewayTimeout :: int where "StatusGatewayTimeout = 504"

lemmas statuses = StatusOK_def StatusBadGateway_def StatusServiceUnavailable_def StatusGatewayTimeout_def

definition error_body :: "string \<Rightarrow> string" where
  "error_body msg = msg @ [CHR 0x0A]"

definition serve_recorded :: "proxy_outcome \<Rightarrow> (string \<times> int \<times> goerr option) go" where
  "serve_recorded out = (case out of
       Answered code body \<Rightarrow> Ret (body, code, None)
     | TransportError err \<Rightarrow> Ret (error_body ''Backend unavailable'', StatusBadGateway, Some err)
     | AbortPanic \<Rightarrow> Panic)"

section \<open>Calls and logical refreshes\<close>

definition fafRefreshMarkerPrefix :: string where
  "fafRefreshMarkerPrefix = ''gateway:faf:refresh:''"

definition fafRefreshSafetyMargin :: duration where
  "fafRefreshSafetyMargin = 2 * second"

definition fafRefreshMarkerKey :: "('w, 'v) env \<Rightarrow> string \<Rightarrow> string" where
  "fafRefreshMarkerKey E cacheKey = fafRefreshMarkerPrefix @ sha256_hex E cacheKey"

definition recordBackendCallForFAF :: "('w, 'v) env \<Rightarrow> ctx \<Rightarrow> string \<Rightarrow> duration \<Rightarrow>
    (('w, 'x) sys_scheme, unit) state" where
  "recordBackendCallForFAF E c cacheKey backendTimeout = do {
     _ \<leftarrow> emit (IncBackendCalls cacheKey);
     let markerKey = fafRefreshMarkerKey E cacheKey;
     let markerTTL = dur_add backendTimeout fafRefreshSafetyMargin;
     r \<leftarrow> redis E c (c_setnx E markerKey (string_value E ''1'') markerTTL);
     case r of
       Inl err \<Rightarrow> ret ()
     | Inr created \<Rightarrow> if \<not> created then ret () else emit (IncLogicalRefreshes cacheKey) }"

section \<open>The call\<close>

text \<open>
  The recorder's bytes are copied. \<open>ctx.Err()\<close> is read twice by the code; a context that is
  done stays so, with the same error.
\<close>

definition fetchFromBackend :: "('w, 'v) env \<Rightarrow> request \<Rightarrow> int \<Rightarrow>
    (('w, 'x) sys_scheme, (KeyValue \<times> int \<times> goerr option) go) state" where
  "fetchFromBackend E r backendTimeoutMs = do {
     backendStart \<leftarrow> time_now E;
     let timeout = dur_mul backendTimeoutMs millisecond;
     _ \<leftarrow> recordBackendCallForFAF E RequestCtx (RequestURI E r) timeout;
     ctx \<leftarrow> with_timeout E RequestCtx timeout;
     out \<leftarrow> on_world (proxy_serve E ctx (director r));
     case serve_recorded out of
       Panic \<Rightarrow> ret Panic
     | Ret (body, statusCode, held) \<Rightarrow> do {
         t \<leftarrow> time_now E;
         let duration = sub_time t backendStart;
         _ \<leftarrow> emit (ObserveBackendDuration duration);
         let res = no_KeyValue\<lparr>Value := body, RecomputeDuration := duration\<rparr>;
         (case held of
            Some err \<Rightarrow> ret (Ret (res, statusCode, Some err))
          | None \<Rightarrow> do {
              e \<leftarrow> on_world (ctx_err E ctx);
              case e of
                Some err \<Rightarrow> ret (Ret (res, StatusGatewayTimeout, Some err))
              | None \<Rightarrow> ret (Ret (res, statusCode, None)) }) } }"

section \<open>What a call reports and returns\<close>

abbreviation backend_calls :: "metric list \<Rightarrow> nat" where
  "backend_calls \<equiv> calls (\<lambda>e. \<exists>k. e = IncBackendCalls k)"

abbreviation logical_refreshes :: "metric list \<Rightarrow> nat" where
  "logical_refreshes \<equiv> calls (\<lambda>e. \<exists>k. e = IncLogicalRefreshes k)"

abbreviation backend_durations :: "metric list \<Rightarrow> nat" where
  "backend_durations \<equiv> calls (\<lambda>e. \<exists>d. e = ObserveBackendDuration d)"

text \<open>The counters that classify a request; a backend call leaves them alone.\<close>

abbreviation lookups :: "metric list \<Rightarrow> nat" where
  "lookups \<equiv> calls (\<lambda>e. e = IncL1Hits \<or> e = IncL2Hits \<or> e = IncCacheMisses)"

lemma logs_record:
  "logs (recordBackendCallForFAF E c k d) (\<lambda>_ tr. tr = [IncBackendCalls k] \<or> tr = [IncBackendCalls k, IncLogicalRefreshes k])"
  unfolding recordBackendCallForFAF_def Let_def by (intro wp) simp_all

lemma logs_fetchFromBackend:
  "logs (fetchFromBackend E r ms) (\<lambda>a tr. backend_calls tr = 1 \<and> logical_refreshes tr \<le> 1 \<and> lookups tr = 0 \<and>
     backend_durations tr = (case a of Panic \<Rightarrow> 0 | Ret _ \<Rightarrow> 1))"
  unfolding fetchFromBackend_def Let_def
  by (intro wp logs_conseq [OF logs_record]) auto

text \<open>The statuses with which a fetch fails.\<close>

definition failure_statuses :: "int set \<Rightarrow> (KeyValue \<times> int \<times> goerr option) go \<Rightarrow> bool" where
  "failure_statuses S a = (case a of Ret (v, code, Some err) \<Rightarrow> code \<in> S | _ \<Rightarrow> True)"

lemma failure_statuses_simps [simp]:
  "failure_statuses S Panic" "failure_statuses S (Ret (v, code, None))"
  "failure_statuses S (Ret (v, code, Some err)) \<longleftrightarrow> code \<in> S"
  by (simp_all add: failure_statuses_def)

lemma failure_statuses_mono: "failure_statuses S a \<Longrightarrow> S \<subseteq> T \<Longrightarrow> failure_statuses T a"
  by (auto simp: failure_statuses_def split: go.splits option.splits prod.splits)

lemma logs_fetch_failure: "logs (fetchFromBackend E r ms) (\<lambda>a tr. failure_statuses {502, 504} a)"
  unfolding fetchFromBackend_def Let_def
  by (intro wp logs_conseq [OF logs_record])
    (auto simp: serve_recorded_def statuses split: proxy_outcome.splits)

text \<open>The ways a call ends.\<close>

definition fetch_outcome :: "string \<times> int \<times> goerr option \<Rightarrow> goerr option \<Rightarrow> duration \<Rightarrow> KeyValue \<times> int \<times> goerr option" where
  "fetch_outcome rec ctxerr d = (case rec of (body, code, held) \<Rightarrow>
     (no_KeyValue\<lparr>Value := body, RecomputeDuration := d\<rparr>,
      (if held = None \<and> ctxerr \<noteq> None then StatusGatewayTimeout else code),
      (if held = None then ctxerr else held)))"

lemma fetch_result:
  "(\<exists>out ctxerr d. result (fetchFromBackend E r ms) s =
     (case serve_recorded out of Panic \<Rightarrow> Panic | Ret rec \<Rightarrow> Ret (fetch_outcome rec ctxerr d)))"
proof -
  let ?m1 = "time_now E" and ?t = "dur_mul ms millisecond"
  let ?m2 = "recordBackendCallForFAF E RequestCtx (RequestURI E r) ?t"
  let ?s2 = "exec ?m2 (exec ?m1 s)"
  let ?c = "result (with_timeout E RequestCtx ?t) ?s2" and ?s3 = "exec (with_timeout E RequestCtx ?t) ?s2"
  let ?out = "result (proxy_serve E ?c (director r)) (world ?s3)"
  show ?thesis
    by (intro exI [of _ ?out]) (auto simp: fetchFromBackend_def run Let_def fetch_outcome_def
        split: go.splits prod.splits option.splits)
qed

text \<open>A marker that has not expired yet keeps a call from counting as a refresh of its own.\<close>

context redis_strings
begin

lemma setnx_seen:
  assumes rel: "reliable E" and ttl: "ttl_ok ttl"
  shows "\<exists>t \<ge> server_time (vw (world s)). \<exists>e.
    let v = (vw (world s))\<lparr>server_time := t\<rparr>; r = redis E c (c_setnx E k x ttl) in
    if lookup_at v k = None
    then result r s = Inr True \<and> expiry_for v ttl e \<and> vw (world (exec r s)) = put_key k x e v
    else result r s = Inr False \<and> vw (world (exec r s)) = v"
proof -
  let ?w = "exec (link_status E c) (world s)" and ?m = "c_setnx E k x ttl"
  obtain u where u: "server_time (vw (world s)) \<le> u" "vw ?w = (vw (world s))\<lparr>server_time := u\<rparr>"
    using link_view by blast
  obtain t where t: "t = server_time (vw (exec ?m ?w))" by blast
  have sv: "served vw ?m ?w = (vw (world s))\<lparr>server_time := t\<rparr>" using u(2) by (simp add: served_def t)
  have le: "server_time (vw (world s)) \<le> t"
    using setnx_time [of k x ttl ?w] u by (simp add: time_passes_def t)
  have r: "result (redis E c ?m) s = Inr (result ?m ?w)" "world (exec (redis E c ?m) s) = exec ?m ?w"
    by (simp_all add: redis_delivered [OF rel])
  note laws = setnx_result [OF ttl, of k x ?w] setnx_effect [OF ttl, of k x ?w] setnx_refused [OF ttl, of k x ?w]
  show ?thesis using laws le unfolding sv by (intro exI [of _ t] conjI) (auto simp: Let_def r)
qed

lemma record_effect:
  fixes k :: string and c :: ctx and s :: "('w, 'x) sys_scheme"
  assumes rel: "reliable E" and ttl: "ttl_ok (dur_add d fafRefreshSafetyMargin)"
  defines "m \<equiv> recordBackendCallForFAF E c k d :: (('w, 'x) sys_scheme, unit) state"
  shows "\<exists>t \<ge> server_time (vw (world s)). \<exists>e.
    let v = (vw (world s))\<lparr>server_time := t\<rparr> in
    if lookup_at v (fafRefreshMarkerKey E k) = None
    then metrics (exec m s) = metrics s @ [IncBackendCalls k, IncLogicalRefreshes k] \<and>
      expiry_for v (dur_add d fafRefreshSafetyMargin) e \<and>
      vw (world (exec m s)) = put_key (fafRefreshMarkerKey E k) (string_value E ''1'') e v
    else metrics (exec m s) = metrics s @ [IncBackendCalls k] \<and> vw (world (exec m s)) = v"
proof -
  let ?s = "exec (emit (IncBackendCalls k)) s"
  have w: "world ?s = world s" by (simp add: run)
  from setnx_seen [OF rel ttl, where s = ?s and c = c and k = "fafRefreshMarkerKey E k" and x = "string_value E ''1''"]
  obtain t e where "server_time (vw (world s)) \<le> t" and
    "let v = (vw (world s))\<lparr>server_time := t\<rparr>;
       r = redis E c (c_setnx E (fafRefreshMarkerKey E k) (string_value E ''1'') (dur_add d fafRefreshSafetyMargin)) in
     if lookup_at v (fafRefreshMarkerKey E k) = None
     then result r ?s = Inr True \<and> expiry_for v (dur_add d fafRefreshSafetyMargin) e \<and>
       vw (world (exec r ?s)) = put_key (fafRefreshMarkerKey E k) (string_value E ''1'') e v
     else result r ?s = Inr False \<and> vw (world (exec r ?s)) = v" unfolding w by blast
  then show ?thesis
    by (intro exI [of _ t] conjI exI [of _ e])
      (auto simp: m_def recordBackendCallForFAF_def run Let_def redis_def split: if_splits)
qed

lemma second_call_same_refresh:
  fixes k :: string and c c' :: ctx and d d' :: duration and s :: "('w, 'x) sys_scheme"
  assumes rel: "reliable E" and ttl: "ttl_ok (dur_add d fafRefreshSafetyMargin)" "dur_add d fafRefreshSafetyMargin \<noteq> 0"
  defines "m \<equiv> recordBackendCallForFAF E c k d :: (('w, 'x) sys_scheme, unit) state"
  defines "u \<equiv> exec (recordBackendCallForFAF E c' k d') (exec m s)"
  assumes ttl': "ttl_ok (dur_add d' fafRefreshSafetyMargin)"
    and fresh: "lookup_at (vw (world s)) (fafRefreshMarkerKey E k) = None"
    and soon: "server_time (vw (world u)) + millisecond \<le> server_time (vw (world s)) + dur_add d fafRefreshSafetyMargin"
  shows "metrics u = metrics s @ [IncBackendCalls k, IncLogicalRefreshes k, IncBackendCalls k]"
proof -
  let ?k = "fafRefreshMarkerKey E k"
  obtain t e where t: "server_time (vw (world s)) \<le> t" and first:
    "let v = (vw (world s))\<lparr>server_time := t\<rparr> in
     if lookup_at v ?k = None
     then metrics (exec m s) = metrics s @ [IncBackendCalls k, IncLogicalRefreshes k] \<and>
       expiry_for v (dur_add d fafRefreshSafetyMargin) e \<and>
       vw (world (exec m s)) = put_key ?k (string_value E ''1'') e v
     else metrics (exec m s) = metrics s @ [IncBackendCalls k] \<and> vw (world (exec m s)) = v"
    using record_effect [OF rel ttl(1), where s = s and c = c and k = k] unfolding m_def by blast
  have "lookup_at ((vw (world s))\<lparr>server_time := t\<rparr>) ?k = None"
    using fresh lookup_at_later [OF t, of ?k] by (cases "lookup_at ((vw (world s))\<lparr>server_time := t\<rparr>) ?k") auto
  with first have one: "metrics (exec m s) = metrics s @ [IncBackendCalls k, IncLogicalRefreshes k]"
      "expiry_for ((vw (world s))\<lparr>server_time := t\<rparr>) (dur_add d fafRefreshSafetyMargin) e"
      "vw (world (exec m s)) = put_key ?k (string_value E ''1'') e ((vw (world s))\<lparr>server_time := t\<rparr>)"
    by simp_all
  obtain t' e' where t': "t \<le> t'" and scnd:
    "let v = (vw (world (exec m s)))\<lparr>server_time := t'\<rparr> in
     if lookup_at v ?k = None
     then metrics u = metrics (exec m s) @ [IncBackendCalls k, IncLogicalRefreshes k] \<and>
       expiry_for v (dur_add d' fafRefreshSafetyMargin) e' \<and>
       vw (world u) = put_key ?k (string_value E ''1'') e' v
     else metrics u = metrics (exec m s) @ [IncBackendCalls k] \<and> vw (world u) = v"
    using record_effect [OF rel ttl', where s = "exec m s" and c = c' and k = k] one(3) unfolding u_def by auto
  have now: "server_time (vw (world u)) = t'"
    using scnd by (simp add: Let_def split: if_splits)
  have "lookup_at ((vw (world (exec m s)))\<lparr>server_time := t'\<rparr>) ?k = Some (string_value E ''1'')"
    using one(2) t soon ttl(2) by (intro lookup_at_Some) (auto simp: one(3) now expiry_for_def)
  then show ?thesis using scnd one(1) by simp
qed

end


section \<open>Properties\<close>

text \<open>
  A backend call is counted exactly once, as at most one logical refresh, and never as a
  cache hit or miss; its duration is observed unless the proxy panics.
\<close>

theorem fetch_counted_once:
  "\<exists>tr. metrics (exec (fetchFromBackend E r ms) s) = metrics s @ tr \<and>
     backend_calls tr = 1 \<and> logical_refreshes tr \<le> 1 \<and> lookups tr = 0 \<and>
     backend_durations tr = (case result (fetchFromBackend E r ms) s of Panic \<Rightarrow> 0 | Ret _ \<Rightarrow> 1)"
  by (rule logsD [OF logs_fetchFromBackend])

text \<open>
  The value of a backend call has no deadline yet; a failed call has status 502 with the
  proxy's message when the proxy failed, and otherwise status 504 because the timeout passed.
\<close>

theorem fetch_failure_status:
  assumes "result (fetchFromBackend E r ms) s = Ret (value, statusCode, err)"
  shows "L1Expiration value = zero_time \<and> L2Expiration value = zero_time \<and>
    (err \<noteq> None \<longrightarrow> (statusCode = 502 \<and> Value value = error_body ''Backend unavailable'') \<or> statusCode = 504)"
proof -
  obtain out ctxerr d where "result (fetchFromBackend E r ms) s =
      (case serve_recorded out of Panic \<Rightarrow> Panic | Ret rec \<Rightarrow> Ret (fetch_outcome rec ctxerr d))"
    using fetch_result by blast
  with assms show ?thesis
    by (auto simp: serve_recorded_def fetch_outcome_def no_KeyValue_def statuses
        split: proxy_outcome.splits if_splits)
qed

text \<open>
  C40. Two backend calls for one key while the marker of the first has not expired count as
  two calls of one logical refresh.
\<close>

theorem faf_one_logical_refresh:
  assumes "redis_strings E vw" and "reliable E" and "ttl_ok (dur_add d fafRefreshSafetyMargin)"
    and "dur_add d fafRefreshSafetyMargin \<noteq> 0" and "ttl_ok (dur_add d' fafRefreshSafetyMargin)"
    and "lookup_at (vw (world s)) (fafRefreshMarkerKey E k) = None"
    and "server_time (vw (world (exec (recordBackendCallForFAF E c' k d') (exec (recordBackendCallForFAF E c k d) s))))
           + millisecond \<le> server_time (vw (world s)) + dur_add d fafRefreshSafetyMargin"
  shows "metrics (exec (recordBackendCallForFAF E c' k d') (exec (recordBackendCallForFAF E c k d) s)) =
    metrics s @ [IncBackendCalls k, IncLogicalRefreshes k, IncBackendCalls k]"
  using assms by (rule redis_strings.second_call_same_refresh)

section \<open>Witnesses\<close>

definition sample_request :: request where
  "sample_request = \<lparr>Method = ''GET'', Path = ''/api/backend/7'', RawPath = [], RawQuery = []\<rparr>"

text \<open>A backend that answers after the timeout of a second.\<close>

definition slow_backend :: mini where
  "slow_backend = empty_mini\<lparr>m_backend := [(1500 * millisecond, Answered 200 ''late'')]\<rparr>"

theorem fetch_failure_status_witness:
  "\<exists>v. result (fetchFromBackend mini_env sample_request 1000) (mini_sys slow_backend) =
     Ret (v, 504, Some (LibErr ''context deadline exceeded'')) \<and> L2Expiration v = zero_time"
proof -
  have "\<exists>v. result (fetchFromBackend mini_env sample_request 1000) (mini_sys slow_backend) =
      Ret (v, 504, Some (LibErr ''context deadline exceeded''))"
    by (simp add: fetchFromBackend_def recordBackendCallForFAF_def run time_now_def with_timeout_def
        slow_backend_def empty_mini_def serve_recorded_def statuses m_lookup_def Let_def advance_def
        dur_mul_def wrap64_def)
  then obtain v where "result (fetchFromBackend mini_env sample_request 1000) (mini_sys slow_backend) =
      Ret (v, 504, Some (LibErr ''context deadline exceeded''))" by blast
  with fetch_failure_status [OF this] show ?thesis by blast
qed

theorem faf_one_logical_refresh_witness:
  "metrics (exec (recordBackendCallForFAF mini_env RequestCtx ''/a'' second)
     (exec (recordBackendCallForFAF mini_env RequestCtx ''/a'' second) (mini_sys empty_mini))) =
   [IncBackendCalls ''/a'', IncLogicalRefreshes ''/a'', IncBackendCalls ''/a'']"
proof -
  have s: "mini_sys empty_mini = \<lparr>world = empty_mini, metrics = []\<rparr>" by (simp add: mini_sys_def)
  have d: "dur_add second fafRefreshSafetyMargin = 3 * second"
    by (simp add: fafRefreshSafetyMargin_def go_arith in64_def)
  show ?thesis
    using faf_one_logical_refresh [OF mini.redis_strings_axioms mini_reliable, of second second "mini_sys empty_mini" "''/a''"
        RequestCtx RequestCtx]
    by (simp add: d ttl_ok_def) (simp add: recordBackendCallForFAF_def run Let_def d mini_view_def empty_mini_def
        lookup_at_def m_lookup_def)
qed

end
