(* ===== verification/Lock_Contract.thy ===== *)
theory Lock_Contract
  imports Gw_Prelude
begin

text \<open>
  What the users of a lock in Redis rely on. The gateway has two such locks, the one per cache
  key (\<open>Distributed_Lock\<close>) and the one of the adaptive TTL controller (\<open>Adaptive_TTL\<close>); both
  discharge the laws. Mutual exclusion is proved here once, for any number of clients whose
  attempts, releases and crashes interleave, with leases that run out.
\<close>

section \<open>Clients of a lock\<close>

text \<open>
  A state of the system: the world \<open>'s\<close>, the tokens drawn so far, and per client the token and
  the end of the lease it obtained. An attempt \<open>acq c\<close> is made under some context \<open>c\<close>. A client that crashes simply takes no further step. Tokens
  are 128 random bits; that they do not repeat is the premise of \<open>lock_acquire\<close>.
\<close>

type_synonym 's lock_sys = "'s \<times> string set \<times> (nat \<Rightarrow> (string \<times> time) option)"

inductive lock_step ::
  "('c \<Rightarrow> ('s, goerr + string \<times> bool) state) \<Rightarrow> (string \<Rightarrow> ('s, unit) state) \<Rightarrow> ('s \<Rightarrow> time) \<Rightarrow>
   ('s \<Rightarrow> string \<Rightarrow> time \<Rightarrow> bool) \<Rightarrow> 's lock_sys \<Rightarrow> 's lock_sys \<Rightarrow> bool" for acq rel clock held where
  lock_acquire: "result (acq c) s = Inr (tok, True) \<Longrightarrow> tok \<notin> used \<Longrightarrow> held (exec (acq c) s) tok e \<Longrightarrow>
    lock_step acq rel clock held (s, used, own) (exec (acq c) s, insert tok used, own(i \<mapsto> (tok, e)))"
| lock_refused: "(\<forall>tok. result (acq c) s \<noteq> Inr (tok, True)) \<Longrightarrow>
    lock_step acq rel clock held (s, used, own) (exec (acq c) s, used, own)"
| lock_release: "own i = Some (tok, e) \<Longrightarrow>
    lock_step acq rel clock held (s, used, own) (exec (rel tok) s, used, own(i := None))"
| lock_elapse: "clock s \<le> clock s' \<Longrightarrow> (\<And>tok e. held s tok e \<Longrightarrow> clock s' < e \<Longrightarrow> held s' tok e) \<Longrightarrow>
    lock_step acq rel clock held (s, used, own) (s', used, own)"

inductive_cases lock_stepE: "lock_step acq rel clock held (s, used, own) t"

definition lock_start :: "'s lock_sys \<Rightarrow> bool" where
  "lock_start x = (case x of (s, used, own) \<Rightarrow> own = Map.empty)"

text \<open>Every lease that has not run out is the one the server knows of, and belongs to one client.\<close>

definition lock_good :: "('s \<Rightarrow> time) \<Rightarrow> ('s \<Rightarrow> string \<Rightarrow> time \<Rightarrow> bool) \<Rightarrow> 's lock_sys \<Rightarrow> bool" where
  "lock_good clock held x = (case x of (s, used, own) \<Rightarrow>
     (\<forall>i tok e. own i = Some (tok, e) \<longrightarrow> tok \<in> used \<and> (clock s < e \<longrightarrow> held s tok e)) \<and>
     (\<forall>i j tok e e'. own i = Some (tok, e) \<longrightarrow> own j = Some (tok, e') \<longrightarrow> i = j))"

lemma lock_goodI:
  assumes "\<And>i tok e. own i = Some (tok, e) \<Longrightarrow> tok \<in> used"
    and "\<And>i tok e. own i = Some (tok, e) \<Longrightarrow> clock s < e \<Longrightarrow> held s tok e"
    and "\<And>i j tok e e'. own i = Some (tok, e) \<Longrightarrow> own j = Some (tok, e') \<Longrightarrow> i = j"
  shows "lock_good clock held (s, used, own)"
  using assms unfolding lock_good_def by blast

lemma lock_goodD:
  assumes "lock_good clock held (s, used, own)" and "own i = Some (tok, e)"
  shows "tok \<in> used" "clock s < e \<Longrightarrow> held s tok e" "own j = Some (tok, e') \<Longrightarrow> i = j"
  using assms unfolding lock_good_def by blast+

section \<open>The contract\<close>

locale lock_service =
  fixes acq :: "'c \<Rightarrow> ('s, goerr + string \<times> bool) state"
    and rel :: "string \<Rightarrow> ('s, unit) state"
    and clock :: "'s \<Rightarrow> time"
    and held :: "'s \<Rightarrow> string \<Rightarrow> time \<Rightarrow> bool"
  assumes held_one: "held s tok e \<Longrightarrow> held s tok' e' \<Longrightarrow> tok = tok' \<and> e = e'"
    and acq_clock: "clock s \<le> clock (exec (acq c) s)"
    and acq_won: "result (acq c) s = Inr (tok, True) \<Longrightarrow> \<exists>e. held (exec (acq c) s) tok e"
    and acq_excludes: "result (acq c) s = Inr (tok, True) \<Longrightarrow> held s tok' e \<Longrightarrow> e \<le> clock (exec (acq c) s)"
    and acq_spares: "held s tok e \<Longrightarrow> clock (exec (acq c) s) < e \<Longrightarrow> held (exec (acq c) s) tok e"
    and rel_clock: "clock s \<le> clock (exec (rel tok) s)"
    and rel_spares: "held s tok e \<Longrightarrow> tok' \<noteq> tok \<Longrightarrow> held (exec (rel tok') s) tok e"
begin

lemma lock_good_step:
  assumes good: "lock_good clock held x" and step: "lock_step acq rel clock held x y"
  shows "lock_good clock held y"
  using step
proof cases
  case (lock_acquire c s tok used e own i)
  note g = lock_goodD [OF good [unfolded lock_acquire(1)]]
  have ran_out: "d \<le> clock (exec (acq c) s)" if "own j = Some (t, d)" for j t d
    using g(2) [OF that] acq_excludes [OF lock_acquire(3)] acq_clock [of s c] by force
  show ?thesis
    unfolding lock_acquire(2)
  proof (rule lock_goodI)
    fix j t d
    assume j: "(own(i \<mapsto> (tok, e))) j = Some (t, d)"
    show "t \<in> insert tok used" using j g(1) by (auto split: if_splits)
    show "held (exec (acq c) s) t d" if "clock (exec (acq c) s) < d"
      using j ran_out [of j t d] that lock_acquire(5) by (auto split: if_splits)
    fix k d'
    assume "(own(i \<mapsto> (tok, e))) k = Some (t, d')"
    with j show "j = k" using g(1) g(3) lock_acquire(4) by (auto split: if_splits)
  qed
next
  case (lock_refused c s used own)
  note g = lock_goodD [OF good [unfolded lock_refused(1)]]
  show ?thesis unfolding lock_refused(2)
    by (rule lock_goodI) (use g acq_spares acq_clock [of s c] in \<open>fastforce+\<close>)
next
  case (lock_release own i tok e s used)
  note g = lock_goodD [OF good [unfolded lock_release(1)]]
  show ?thesis unfolding lock_release(2)
  proof (rule lock_goodI)
    fix j t d
    assume j: "(own(i := None)) j = Some (t, d)"
    then have o: "own j = Some (t, d)" "j \<noteq> i" by (auto split: if_splits)
    show "t \<in> used" using g(1) [OF o(1)] .
    have "tok \<noteq> t" using g(3) [OF o(1)] lock_release(3) o by blast
    then show "held (exec (rel tok) s) t d" if "clock (exec (rel tok) s) < d"
      using that rel_clock [of s tok] g(2) [OF o(1)] rel_spares by simp
    fix k d'
    assume "(own(i := None)) k = Some (t, d')"
    then show "j = k" using g(3) [OF o(1)] by (auto split: if_splits)
  qed
next
  case (lock_elapse s s' used own)
  note g = lock_goodD [OF good [unfolded lock_elapse(1)]]
  show ?thesis unfolding lock_elapse(2)
    by (rule lock_goodI) (use g lock_elapse(3,4) in \<open>fastforce+\<close>)
qed

end

sublocale lock_service \<subseteq> lock: inductive_invariant lock_start "lock_step acq rel clock held" "lock_good clock held"
proof unfold_locales
  show "lock_good clock held x" if "lock_start x" for x
    using that by (auto simp: lock_start_def lock_good_def split: prod.splits)
  show "lock_good clock held y" if "lock_good clock held x" "lock_step acq rel clock held x y" for x y
    using that by (rule lock_good_step)
qed

context lock_service
begin

text \<open>At most one client has a lease that has not run out.\<close>

lemma mutual_exclusion:
  assumes "reaches lock_start (lock_step acq rel clock held) (s, used, own)"
    and "own i = Some (tok, e)" "clock s < e" and "own j = Some (tok', e')" "clock s < e'"
  shows "i = j"
proof -
  have g: "lock_good clock held (s, used, own)" using assms(1) by (rule lock.reaches_good)
  then have "held s tok e" "held s tok' e'" using assms(2-5) by (auto simp: lock_good_def)
  then have "tok = tok'" using held_one by blast
  then show ?thesis using g assms(2,4) by (auto simp: lock_good_def)
qed

end

end
