(* ===== verification/Distributed_Lock.thy ===== *)
theory Distributed_Lock
  imports L2_Cache Config_Store Backend_Fetcher Lock_Contract
begin

text \<open>
  The lock that keeps gateways from fetching one key at the same time,
  \<open>gateway/distributed_lock.go\<close>: a Redis key with a time to live that holds the owner's random
  token. Whoever does not get it polls the shared cache. Log output is left out.
\<close>

definition distributedLockPrefix :: string where
  "distributedLockPrefix = ''gateway:lock:''"

definition lockPollInterval :: duration where
  "lockPollInterval = 25 * millisecond"

definition lockSafetyMargin :: duration where
  "lockSafetyMargin = 2 * millisecond"

text \<open>The release script, one atomic command.\<close>

definition releaseDistributedLockScript :: "('w, 'v) env \<Rightarrow> string \<Rightarrow> string \<Rightarrow> ('w, int) state" where
  "releaseDistributedLockScript E key token = do {
     v \<leftarrow> c_get E key;
     if v = Some (string_value E token) then c_del E [key] else ret 0 }"

definition distributedLockKey :: "('w, 'v) env \<Rightarrow> string \<Rightarrow> string" where
  "distributedLockKey E cacheKey = distributedLockPrefix @ sha256_hex E cacheKey"

definition newDistributedLockToken :: "('w, 'v) env \<Rightarrow> (('w, 'x) sys_scheme, goerr + string) state" where
  "newDistributedLockToken E = do {
     tok \<leftarrow> on_world (random_token E);
     case tok of
       None \<Rightarrow> ret (Inl (Wrap ''generate distributed lock token'' (LibErr ''rand'')))
     | Some token \<Rightarrow> ret (Inr token) }"

definition tryAcquireDistributedLock :: "('w, 'v) env \<Rightarrow> ctx \<Rightarrow> string \<Rightarrow> duration \<Rightarrow>
    (('w, 'x) sys_scheme, goerr + string \<times> bool) state" where
  "tryAcquireDistributedLock E c lockKey ttl = do {
     r \<leftarrow> newDistributedLockToken E;
     case r of
       Inl err \<Rightarrow> ret (Inl err)
     | Inr token \<Rightarrow> do {
         r \<leftarrow> redis E c (c_setnx E lockKey (string_value E token) ttl);
         case r of
           Inl err \<Rightarrow> do {
             _ \<leftarrow> emit (IncLockAttempts ''failure'');
             ret (Inl (Wrap ''acquire distributed lock'' err)) }
         | Inr acquired \<Rightarrow> do {
             _ \<leftarrow> (if acquired then emit (IncLockAttempts ''success'') else emit (IncLockAttempts ''failure''));
             ret (Inr (token, acquired)) } } }"

definition releaseDistributedLock :: "('w, 'v) env \<Rightarrow> string \<Rightarrow> string \<Rightarrow> (('w, 'x) sys_scheme, unit) state" where
  "releaseDistributedLock E lockKey token = do {
     ctx \<leftarrow> with_timeout E Background second;
     _ \<leftarrow> redis E ctx (releaseDistributedLockScript E lockKey token);
     ret () }"

text \<open>The owner: the deferred release runs however the body ends, also when it panics.\<close>

definition owner_body :: "('w, 'v) env \<Rightarrow> request \<Rightarrow> string \<Rightarrow> duration \<Rightarrow> GatewayConfig \<Rightarrow>
    (('w, 'x) sys_scheme, (KeyValue \<times> int \<times> goerr option) go) state" where
  "owner_body E r cacheKey ttlL2 config = do {
     v \<leftarrow> getL2 E RequestCtx cacheKey;
     case v of
       Some cached \<Rightarrow> ret (Ret (cached, StatusOK, None))
     | None \<Rightarrow> do {
         res \<leftarrow> fetchFromBackend E r (BackendTimeoutMs config);
         case res of
           Panic \<Rightarrow> ret Panic
         | Ret (fetched, statusCode, Some err) \<Rightarrow> ret (Ret (fetched, statusCode, Some err))
         | Ret (fetched, statusCode, None) \<Rightarrow>
             if statusCode \<ge> 200 \<and> statusCode < 300 then do {
               t \<leftarrow> time_now E;
               let fetched = fetched\<lparr>L2Expiration := t + ttlL2\<rparr>;
               _ \<leftarrow> setL2 E RequestCtx cacheKey fetched ttlL2 (L2MaxEntries config);
               ret (Ret (fetched, statusCode, None)) }
             else ret (Ret (fetched, statusCode, None)) } }"

definition fetchAsDistributedLockOwner :: "('w, 'v) env \<Rightarrow> request \<Rightarrow> string \<Rightarrow> string \<Rightarrow> string \<Rightarrow> duration \<Rightarrow>
    GatewayConfig \<Rightarrow> (('w, 'x) sys_scheme, (KeyValue \<times> int \<times> goerr option) go) state" where
  "fetchAsDistributedLockOwner E r cacheKey lockKey token ttlL2 config = do {
     res \<leftarrow> owner_body E r cacheKey ttlL2 config;
     _ \<leftarrow> releaseDistributedLock E lockKey token;
     ret res }"

text \<open>
  The loop of \<open>fetchWithDistributedLock\<close>, at most \<open>n\<close> rounds of it; None when they are used up.
  The flag \<open>waitingLogged\<close> only guards a log line that is commented out.
\<close>

primrec lock_loop :: "nat \<Rightarrow> ('w, 'v) env \<Rightarrow> request \<Rightarrow> string \<Rightarrow> string \<Rightarrow> duration \<Rightarrow> ctx \<Rightarrow> duration \<Rightarrow>
    GatewayConfig \<Rightarrow> (('w, 'x) sys_scheme, (KeyValue \<times> int \<times> goerr option) go option) state" where
  "lock_loop 0 E r cacheKey lockKey lockTTL waitContext ttlL2 config = ret None"
| "lock_loop (Suc n) E r cacheKey lockKey lockTTL waitContext ttlL2 config = do {
     a \<leftarrow> tryAcquireDistributedLock E waitContext lockKey lockTTL;
     case a of
       Inl err \<Rightarrow> ret (Some (Ret (no_KeyValue, StatusServiceUnavailable, Some err)))
     | Inr (token, acquired) \<Rightarrow>
         if acquired then do {
           res \<leftarrow> fetchAsDistributedLockOwner E r cacheKey lockKey token ttlL2 config;
           ret (Some res) }
         else do {
           v \<leftarrow> getL2 E waitContext cacheKey;
           case v of
             Some cached \<Rightarrow> ret (Some (Ret (cached, StatusOK, None)))
           | None \<Rightarrow> do {
               x \<leftarrow> redis E waitContext (c_exists E lockKey);
               case x of
                 Inl err \<Rightarrow> ret (Some (Ret (no_KeyValue, StatusServiceUnavailable,
                   Some (Wrap ''check distributed lock'' err))))
               | Inr lockExists \<Rightarrow>
                   if lockExists = 0 then lock_loop n E r cacheKey lockKey lockTTL waitContext ttlL2 config
                   else do {
                     fired \<leftarrow> on_world (sleep_or_done E waitContext lockPollInterval);
                     if fired then lock_loop n E r cacheKey lockKey lockTTL waitContext ttlL2 config
                     else do {
                       e \<leftarrow> on_world (ctx_err E waitContext);
                       ret (Some (Ret (no_KeyValue, StatusGatewayTimeout, e))) } } } } }"

definition fetchWithDistributedLock :: "nat \<Rightarrow> ('w, 'v) env \<Rightarrow> request \<Rightarrow> string \<Rightarrow> duration \<Rightarrow> GatewayConfig \<Rightarrow>
    (('w, 'x) sys_scheme, (KeyValue \<times> int \<times> goerr option) go option) state" where
  "fetchWithDistributedLock n E r cacheKey ttlL2 config = do {
     let lockKey = distributedLockKey E cacheKey;
     let lockTTL = dur_add (dur_mul (BackendTimeoutMs config) millisecond) lockSafetyMargin;
     let waitTimeout = dur_add lockTTL lockSafetyMargin;
     waitContext \<leftarrow> with_timeout E RequestCtx waitTimeout;
     lock_loop n E r cacheKey lockKey lockTTL waitContext ttlL2 config }"


section \<open>The lock on the server\<close>

text \<open>
  What an attempt \<open>r\<close> does to the server, \<open>v\<close> being the server when the command is served: the
  lock is free and taken, or held and left alone, or the command fails, and may have taken a
  free lock all the same.
\<close>

inductive lock_attempt :: "('w, 'v) env \<Rightarrow> string \<Rightarrow> duration \<Rightarrow> 'v view \<Rightarrow> goerr + string \<times> bool \<Rightarrow> 'v view \<Rightarrow> bool"
  for E key ttl v where
  attempt_won: "lookup_at v key = None \<Longrightarrow> expiry_for v ttl e \<Longrightarrow>
    lock_attempt E key ttl v (Inr (tok, True)) (put_key key (string_value E tok) e v)"
| attempt_busy: "lookup_at v key \<noteq> None \<Longrightarrow> lock_attempt E key ttl v (Inr (tok, False)) v"
| attempt_failed: "lock_attempt E key ttl v (Inl err) v"
| attempt_unknown: "lookup_at v key = None \<Longrightarrow> expiry_for v ttl e \<Longrightarrow>
    lock_attempt E key ttl v (Inl err) (put_key key (string_value E tok) e v)"

inductive_cases lock_attempt_wonE: "lock_attempt E key ttl v (Inr (tok, True)) v'"
inductive_cases lock_attempt_busyE: "lock_attempt E key ttl v (Inr (tok, False)) v'"

definition lock_held :: "('w, 'v) env \<Rightarrow> ('w \<Rightarrow> 'v view) \<Rightarrow> string \<Rightarrow> ('w, 'x) sys_scheme \<Rightarrow> string \<Rightarrow> time \<Rightarrow> bool" where
  "lock_held E vw key s tok e \<longleftrightarrow> keys (vw (world s)) key = Some (string_value E tok, Some e)"

definition lock_clock :: "('w \<Rightarrow> 'v view) \<Rightarrow> ('w, 'x) sys_scheme \<Rightarrow> time" where
  "lock_clock vw s = server_time (vw (world s))"

lemma attempt_relabel: "lock_attempt E key ttl v (Inl err) v' \<Longrightarrow> lock_attempt E key ttl v (Inl err') v'"
  by (erule lock_attempt.cases) (auto intro: lock_attempt.intros)

text \<open>Distinct tokens are distinct values.\<close>

locale redis_lock = redis_strings E vw for E :: "('w, 'v) env" and vw :: "'w \<Rightarrow> 'v view" +
  assumes string_value_inj: "string_value E a = string_value E b \<Longrightarrow> a = b"
begin

lemma redis_any:
  "\<exists>t \<ge> server_time (vw (world s)). \<exists>w1. vw w1 = (vw (world s))\<lparr>server_time := t\<rparr> \<and>
     ((result (redis E c cmd) s = Inr (result cmd w1) \<and> world (exec (redis E c cmd) s) = exec cmd w1) \<or>
      (\<exists>err. result (redis E c cmd) s = Inl err \<and>
         (world (exec (redis E c cmd) s) = w1 \<or> world (exec (redis E c cmd) s) = exec cmd w1)))"
proof -
  let ?w1 = "exec (link_status E c) (world s)"
  obtain t where "server_time (vw (world s)) \<le> t" "vw ?w1 = (vw (world s))\<lparr>server_time := t\<rparr>"
    using link_view by blast
  then show ?thesis
    by (intro exI [of _ t] conjI exI [of _ ?w1])
      (auto simp: redis_def redis_do_def run split: link.splits)
qed

lemma setnx_world:
  assumes ttl: "ttl_ok ttl" and w: "vw w = v\<lparr>server_time := u\<rparr>"
  shows "\<exists>t \<ge> u. if lookup_at (v\<lparr>server_time := t\<rparr>) k = None
    then result (c_setnx E k x ttl) w \<and> (\<exists>e. expiry_for (v\<lparr>server_time := t\<rparr>) ttl e \<and>
      vw (exec (c_setnx E k x ttl) w) = put_key k x e (v\<lparr>server_time := t\<rparr>))
    else \<not> result (c_setnx E k x ttl) w \<and> vw (exec (c_setnx E k x ttl) w) = v\<lparr>server_time := t\<rparr>"
proof -
  let ?m = "c_setnx E k x ttl"
  obtain t where t: "t = server_time (vw (exec ?m w))" by blast
  have sv: "served vw ?m w = v\<lparr>server_time := t\<rparr>" using w by (simp add: served_def t)
  have "u \<le> t" using setnx_time [of k x ttl w] w by (simp add: time_passes_def t)
  then show ?thesis
    using setnx_result [OF ttl, of k x w] setnx_effect [OF ttl, of k x w] setnx_refused [OF ttl, of k x w]
    unfolding sv by (intro exI [of _ t]) auto
qed

lemma setnx_attempt:
  assumes ttl: "ttl_ok ttl"
  shows "\<exists>t \<ge> server_time (vw (world s)).
    lock_attempt E key ttl ((vw (world s))\<lparr>server_time := t\<rparr>)
      (map_sum id (Pair tok) (result (redis E c (c_setnx E key (string_value E tok) ttl)) s))
      (vw (world (exec (redis E c (c_setnx E key (string_value E tok) ttl)) s)))"
proof -
  let ?m = "c_setnx E key (string_value E tok) ttl" and ?v = "vw (world s)"
  obtain u w1 where u: "server_time ?v \<le> u" "vw w1 = ?v\<lparr>server_time := u\<rparr>" and run:
    "(result (redis E c ?m) s = Inr (result ?m w1) \<and> world (exec (redis E c ?m) s) = exec ?m w1) \<or>
     (\<exists>err. result (redis E c ?m) s = Inl err \<and>
        (world (exec (redis E c ?m) s) = w1 \<or> world (exec (redis E c ?m) s) = exec ?m w1))"
    using redis_any [of s c ?m] by blast
  obtain t where t: "u \<le> t" and eff: "if lookup_at (?v\<lparr>server_time := t\<rparr>) key = None
    then result ?m w1 \<and> (\<exists>e. expiry_for (?v\<lparr>server_time := t\<rparr>) ttl e \<and>
      vw (exec ?m w1) = put_key key (string_value E tok) e (?v\<lparr>server_time := t\<rparr>))
    else \<not> result ?m w1 \<and> vw (exec ?m w1) = ?v\<lparr>server_time := t\<rparr>"
    using setnx_world [OF ttl u(2)] by blast
  let ?w' = "world (exec (redis E c ?m) s)"
  have ran: "lock_attempt E key ttl (?v\<lparr>server_time := t\<rparr>) (Inr (tok, result ?m w1)) (vw (exec ?m w1))"
      "lock_attempt E key ttl (?v\<lparr>server_time := t\<rparr>) (Inl err) (vw (exec ?m w1))" for err
    using eff by (auto simp del: view_time intro: lock_attempt.intros split: if_splits)
  from run consider "result (redis E c ?m) s = Inr (result ?m w1)" "?w' = exec ?m w1"
    | err where "result (redis E c ?m) s = Inl err" "?w' = w1"
    | err where "result (redis E c ?m) s = Inl err" "?w' = exec ?m w1" by blast
  then show ?thesis
  proof cases
    case 2
    then show ?thesis using u by (intro exI [of _ u]) (simp add: attempt_failed)
  qed (use ran t u(1) in \<open>(intro exI [of _ t], simp)+\<close>)
qed

lemma token_view:
  "\<exists>t \<ge> server_time (vw w). vw (exec (random_token E) w) = (vw w)\<lparr>server_time := t\<rparr>"
  using served_shift [OF token_quiet, of w] token_time [of w] unfolding time_passes_def by blast

lemma tryAcquire_attempt:
  assumes ttl: "ttl_ok ttl"
  shows "\<exists>t \<ge> server_time (vw (world s)).
    lock_attempt E key ttl ((vw (world s))\<lparr>server_time := t\<rparr>) (result (tryAcquireDistributedLock E c key ttl) s)
      (vw (world (exec (tryAcquireDistributedLock E c key ttl) s)))"
proof -
  let ?s1 = "exec (on_world (random_token E)) s"
  obtain u where u: "server_time (vw (world s)) \<le> u" "vw (world ?s1) = (vw (world s))\<lparr>server_time := u\<rparr>"
    using token_view [of "world s"] by (auto simp: run)
  show ?thesis
  proof (cases "result (random_token E) (world s)")
    case None
    then show ?thesis using u
      by (intro exI [of _ u])
        (simp add: tryAcquireDistributedLock_def newDistributedLockToken_def run attempt_failed)
  next
    case (Some tok)
    let ?m = "redis E c (c_setnx E key (string_value E tok) ttl)"
    obtain t where t: "u \<le> t" and at: "lock_attempt E key ttl ((vw (world s))\<lparr>server_time := t\<rparr>)
        (map_sum id (Pair tok) (result ?m ?s1)) (vw (world (exec ?m ?s1)))"
      using setnx_attempt [OF ttl, of ?s1 key tok c] u(2) by auto
    have "world (exec (tryAcquireDistributedLock E c key ttl) s) = world (exec ?m ?s1)"
      using Some by (auto simp: tryAcquireDistributedLock_def newDistributedLockToken_def run split: sum.split)
    moreover have "result (tryAcquireDistributedLock E c key ttl) s = (case result ?m ?s1 of
        Inl err \<Rightarrow> Inl (Wrap ''acquire distributed lock'' err) | Inr a \<Rightarrow> Inr (tok, a))"
      using Some by (auto simp: tryAcquireDistributedLock_def newDistributedLockToken_def run split: sum.split)
    moreover have "lock_attempt E key ttl ((vw (world s))\<lparr>server_time := t\<rparr>) (case result ?m ?s1 of
        Inl err \<Rightarrow> Inl (Wrap ''acquire distributed lock'' err) | Inr a \<Rightarrow> Inr (tok, a)) (vw (world (exec ?m ?s1)))"
      using at by (cases "result ?m ?s1") (simp_all add: attempt_relabel)
    ultimately show ?thesis using t u(1) by (intro exI [of _ t]) simp
  qed
qed

lemma script_world:
  assumes w: "vw w = v\<lparr>server_time := u\<rparr>"
  shows "\<exists>t1 t2. u \<le> t1 \<and> t1 \<le> t2 \<and> vw (exec (releaseDistributedLockScript E key tok) w) =
    (if lookup_at (v\<lparr>server_time := t1\<rparr>) key = Some (string_value E tok) then del_keys [key] v else v)
      \<lparr>server_time := t2\<rparr>"
proof -
  let ?w1 = "exec (c_get E key) w"
  obtain t1 where t1: "u \<le> t1" "vw ?w1 = v\<lparr>server_time := t1\<rparr>"
    using effect_at [where f = "\<lambda>v. v" and vw = vw, OF get_effect [of key w] get_time] unfolding w by auto
  have "served vw (c_get E key) w = v\<lparr>server_time := t1\<rparr>" using t1(2) w by (simp add: served_def)
  then have r: "result (c_get E key) w = lookup_at (v\<lparr>server_time := t1\<rparr>) key"
    using get_result [of key w] by metis
  obtain t2 where t2: "t1 \<le> t2" "vw (exec (c_del E [key]) ?w1) = (del_keys [key] v)\<lparr>server_time := t2\<rparr>"
    using effect_at [where f = "del_keys [key]" and vw = vw, OF del_effect [of "[key]" ?w1] del_time]
    unfolding t1(2) by auto
  show ?thesis
  proof (cases "lookup_at (v\<lparr>server_time := t1\<rparr>) key = Some (string_value E tok)")
    case True
    then show ?thesis using t1 t2 r
      by (intro exI [of _ t1] exI [of _ t2]) (simp add: releaseDistributedLockScript_def run)
  next
    case False
    then show ?thesis using t1 r
      by (intro exI [of _ t1] exI [of _ t1]) (simp add: releaseDistributedLockScript_def run)
  qed
qed

end

text \<open>
  What a release may do: nothing, or delete the lock if it holds the caller's token. On a link
  that delivers, it deletes the lock exactly in that case.
\<close>

definition release_shape :: "('w, 'v) env \<Rightarrow> string \<Rightarrow> string \<Rightarrow> 'v view \<Rightarrow> 'v view \<Rightarrow> bool" where
  "release_shape E key tok v v' \<longleftrightarrow> (\<exists>t1 t2. server_time v \<le> t1 \<and> t1 \<le> t2 \<and> (v' = v\<lparr>server_time := t2\<rparr> \<or>
     (lookup_at (v\<lparr>server_time := t1\<rparr>) key = Some (string_value E tok) \<and>
      v' = (del_keys [key] v)\<lparr>server_time := t2\<rparr>)))"

context redis_lock
begin

lemma script_redis:
  "\<exists>t1 t2. server_time (vw (world s)) \<le> t1 \<and> t1 \<le> t2 \<and>
     (let v = vw (world s); v' = vw (world (exec (redis E c (releaseDistributedLockScript E key tok)) s));
          deleted = lookup_at (v\<lparr>server_time := t1\<rparr>) key = Some (string_value E tok) in
      (deleted \<and> v' = (del_keys [key] v)\<lparr>server_time := t2\<rparr>) \<or>
      ((reliable E \<longrightarrow> \<not> deleted) \<and> v' = v\<lparr>server_time := t2\<rparr>))"
proof -
  let ?m = "releaseDistributedLockScript E key tok" and ?v = "vw (world s)"
  obtain u w1 where u: "server_time ?v \<le> u" "vw w1 = ?v\<lparr>server_time := u\<rparr>" and run:
    "(result (redis E c ?m) s = Inr (result ?m w1) \<and> world (exec (redis E c ?m) s) = exec ?m w1) \<or>
     (\<exists>err. result (redis E c ?m) s = Inl err \<and>
        (world (exec (redis E c ?m) s) = w1 \<or> world (exec (redis E c ?m) s) = exec ?m w1))"
    using redis_any [of s c ?m] by blast
  obtain t1 t2 where t: "u \<le> t1" "t1 \<le> t2" and eff: "vw (exec ?m w1) =
    (if lookup_at (?v\<lparr>server_time := t1\<rparr>) key = Some (string_value E tok) then del_keys [key] ?v else ?v)
      \<lparr>server_time := t2\<rparr>" using script_world [OF u(2)] by blast
  show ?thesis
  proof (cases "world (exec (redis E c ?m) s) = exec ?m w1")
    case True
    then show ?thesis using t u eff by (intro exI [of _ t1] exI [of _ t2]) (auto simp: Let_def)
  next
    case False
    then have "world (exec (redis E c ?m) s) = w1" "\<not> reliable E"
      using run redis_delivered(1) [of E c ?m s] by auto
    then show ?thesis using u by (intro exI [of _ u]) (simp add: Let_def)
  qed
qed

lemma release_step:
  "\<exists>t1 t2. server_time (vw (world s)) \<le> t1 \<and> t1 \<le> t2 \<and>
     (let v = vw (world s); v' = vw (world (exec (releaseDistributedLock E key tok) s));
          deleted = lookup_at (v\<lparr>server_time := t1\<rparr>) key = Some (string_value E tok) in
      (deleted \<and> v' = (del_keys [key] v)\<lparr>server_time := t2\<rparr>) \<or>
      ((reliable E \<longrightarrow> \<not> deleted) \<and> v' = v\<lparr>server_time := t2\<rparr>))"
proof -
  let ?c = "result (with_timeout E Background second) s" and ?s1 = "exec (with_timeout E Background second) s"
  obtain u where u: "server_time (vw (world s)) \<le> u" "vw (world ?s1) = (vw (world s))\<lparr>server_time := u\<rparr>"
    using now_view [of "world s"] by (auto simp: with_timeout_def run)
  have "exec (releaseDistributedLock E key tok) s =
      exec (redis E ?c (releaseDistributedLockScript E key tok)) ?s1"
    by (simp add: releaseDistributedLock_def run)
  note ex = this
  obtain t1 t2 where "u \<le> t1" "t1 \<le> t2" and
    "let v = vw (world s); v' = vw (world (exec (redis E ?c (releaseDistributedLockScript E key tok)) ?s1));
         deleted = lookup_at (v\<lparr>server_time := t1\<rparr>) key = Some (string_value E tok) in
      (deleted \<and> v' = (del_keys [key] v)\<lparr>server_time := t2\<rparr>) \<or>
      ((reliable E \<longrightarrow> \<not> deleted) \<and> v' = v\<lparr>server_time := t2\<rparr>)"
    using script_redis [of ?s1 ?c key tok] unfolding u(2) Let_def by auto
  then show ?thesis using u(1) unfolding ex by (intro exI [of _ t1] exI [of _ t2]) simp
qed

lemma release_shape_lock: "release_shape E key tok (vw (world s)) (vw (world (exec (releaseDistributedLock E key tok) s)))"
  using release_step [of s key tok] unfolding release_shape_def Let_def by blast

lemma release_frees:
  assumes rel: "reliable E"
  shows "lookup_at (vw (world (exec (releaseDistributedLock E key tok) s))) key \<noteq> Some (string_value E tok)"
proof -
  let ?v = "vw (world s)" and ?v' = "vw (world (exec (releaseDistributedLock E key tok) s))"
  obtain t1 t2 where t: "t1 \<le> t2" and d:
    "(lookup_at (?v\<lparr>server_time := t1\<rparr>) key = Some (string_value E tok) \<and> ?v' = (del_keys [key] ?v)\<lparr>server_time := t2\<rparr>) \<or>
     (lookup_at (?v\<lparr>server_time := t1\<rparr>) key \<noteq> Some (string_value E tok) \<and> ?v' = ?v\<lparr>server_time := t2\<rparr>)"
    using release_step [of s key tok] rel by (auto simp: Let_def)
  have later: "lookup_at (?v\<lparr>server_time := t2\<rparr>) key = Some x \<Longrightarrow> lookup_at (?v\<lparr>server_time := t1\<rparr>) key = Some x" for x
    using lookup_at_later [of "?v\<lparr>server_time := t1\<rparr>" t2 key x] t by simp
  from d show ?thesis
  proof
    assume "lookup_at (?v\<lparr>server_time := t1\<rparr>) key = Some (string_value E tok) \<and> ?v' = (del_keys [key] ?v)\<lparr>server_time := t2\<rparr>"
    then show ?thesis by (simp add: lookup_at_def)
  qed (use later in auto)
qed

text \<open>Whoever attempts and releases in these ways meets the contract of a lock.\<close>

lemma lock_service_laws:
  fixes acq :: "'c \<Rightarrow> (('w, 'x) sys_scheme, goerr + string \<times> bool) state"
  assumes ttl: "ttl \<noteq> 0"
    and att: "\<And>c s. \<exists>t \<ge> server_time (vw (world s)). lock_attempt E key ttl ((vw (world s))\<lparr>server_time := t\<rparr>)
      (result (acq c) s) (vw (world (exec (acq c) s)))"
    and rel: "\<And>s tok. release_shape E key tok (vw (world s)) (vw (world (exec (rel tok) s)))"
  shows "lock_service acq rel (lock_clock vw) (lock_held E vw key)"
proof
  fix s tok e tok' e' c
  let ?v = "vw (world s)" and ?a = "vw (world (exec (acq c) s))" and ?r = "vw (world (exec (rel tok') s))"
  obtain t where t: "server_time ?v \<le> t" "lock_attempt E key ttl (?v\<lparr>server_time := t\<rparr>) (result (acq c) s) ?a"
    using att [of s c] by blast
  have at: "server_time ?a = t" using t(2) by cases simp_all
  show "lock_clock vw s \<le> lock_clock vw (exec (acq c) s)" using t(1) at by (simp add: lock_clock_def)
  have live: "lookup_at (?v\<lparr>server_time := t\<rparr>) key \<noteq> None"
    if "lock_held E vw key s tok e" "t < e" for tok e
    using that by (simp add: lock_held_def lookup_at_def)
  show "e \<le> lock_clock vw (exec (acq c) s)"
    if "result (acq c) s = Inr (tok, True)" "lock_held E vw key s tok' e"
  proof -
    have "lookup_at (?v\<lparr>server_time := t\<rparr>) key = None"
      using t(2) unfolding that(1) by (cases rule: lock_attempt_wonE) simp
    then have "\<not> t < e" using live [OF that(2)] by blast
    then show ?thesis using at by (simp add: lock_clock_def)
  qed
  show "\<exists>e. lock_held E vw key (exec (acq c) s) tok e" if "result (acq c) s = Inr (tok, True)"
    using t(2) ttl unfolding that by (cases rule: lock_attempt_wonE) (auto simp: lock_held_def expiry_for_def)
  show "lock_held E vw key (exec (acq c) s) tok e"
    if h: "lock_held E vw key s tok e" "lock_clock vw (exec (acq c) s) < e"
  proof -
    have "lookup_at (?v\<lparr>server_time := t\<rparr>) key \<noteq> None" using live [OF h(1)] h(2) at by (simp add: lock_clock_def)
    with t(2) have "?a = ?v\<lparr>server_time := t\<rparr>" by cases simp_all
    then show ?thesis using h(1) by (simp add: lock_held_def)
  qed
  obtain t1 t2 where r: "server_time ?v \<le> t1" "t1 \<le> t2" "?r = ?v\<lparr>server_time := t2\<rparr> \<or>
     (lookup_at (?v\<lparr>server_time := t1\<rparr>) key = Some (string_value E tok') \<and> ?r = (del_keys [key] ?v)\<lparr>server_time := t2\<rparr>)"
    using rel [of tok' s] unfolding release_shape_def by blast
  show "lock_held E vw key (exec (rel tok') s) tok e" if "lock_held E vw key s tok e" "tok' \<noteq> tok"
    using r(3) that string_value_inj [of tok tok'] by (auto simp: lock_held_def lookup_at_def split: if_splits)
  have "server_time ?v \<le> server_time (vw (world (exec (rel tok) s)))"
    using rel [of tok s] unfolding release_shape_def by auto
  then show "lock_clock vw s \<le> lock_clock vw (exec (rel tok) s)" by (simp add: lock_clock_def)
  show "tok = tok' \<and> e = e'" if "lock_held E vw key s tok e" "lock_held E vw key s tok' e'"
    using that string_value_inj [of tok tok'] by (auto simp: lock_held_def)
qed

lemma distributed_service:
  assumes "ttl_ok ttl" and "ttl \<noteq> 0"
  shows "lock_service (\<lambda>c. tryAcquireDistributedLock E c key ttl) (releaseDistributedLock E key)
    (lock_clock vw) (lock_held E vw key)"
  by (rule lock_service_laws [OF assms(2) tryAcquire_attempt [OF assms(1)] release_shape_lock])

end

section \<open>The waiting loop ends\<close>

text \<open>
  A gateway's clock: no call turns it back, every Redis command takes time, and a command under
  a context whose deadline has passed is refused by the client library.
\<close>

locale deadline_clock =
  fixes E :: "('w, 'v) env" and clk :: "'w \<Rightarrow> time"
  assumes link_ticks: "clk w < clk (exec (link_status E c) w)"
    and expired_refused: "t \<le> clk w \<Longrightarrow> result (link_status E (Deadline c t)) w \<noteq> Delivered"
    and now_reads: "result (now E) w = clk w"
    and now_clk: "clk w \<le> clk (exec (now E) w)"
    and token_clk: "clk w \<le> clk (exec (random_token E) w)"
    and get_clk: "clk w \<le> clk (exec (c_get E k) w)"
    and setnx_clk: "clk w \<le> clk (exec (c_setnx E k x ttl) w)"
    and del_clk: "clk w \<le> clk (exec (c_del E ks) w)"
    and zadd_clk: "clk w \<le> clk (exec (c_zadd E z m sc) w)"
    and zrem_clk: "clk w \<le> clk (exec (c_zrem E z m) w)"
    and exists_clk: "clk w \<le> clk (exec (c_exists E k) w)"
    and sleep_clk: "clk w \<le> clk (exec (sleep_or_done E c d) w)"
begin

lemmas clk_laws = now_clk token_clk get_clk setnx_clk del_clk zadd_clk zrem_clk exists_clk sleep_clk

abbreviation since :: "time \<Rightarrow> ('w, 'x) sys_scheme \<Rightarrow> bool" where
  "since T s \<equiv> T \<le> clk (world s)"

lemma since_on_world: "(\<And>w. clk w \<le> clk (exec m w)) \<Longrightarrow> keeps (since T) (on_world m)"
  by (auto simp: keeps_def run intro: order_trans)

lemma since_redis: "(\<And>w. clk w \<le> clk (exec cmd w)) \<Longrightarrow> keeps (since T) (redis E c cmd)"
  unfolding redis_def
proof (rule since_on_world)
  fix w
  assume "\<And>w. clk w \<le> clk (exec cmd w)"
  then show "clk w \<le> clk (exec (redis_do E c cmd) w)"
    using link_ticks [of w c] by (auto simp: redis_do_def run split: link.split) (meson order_trans less_imp_le)+
qed

lemma since_now: "keeps (since T) (time_now E)"
  unfolding time_now_def by (rule since_on_world [OF now_clk])

lemma since_emit: "keeps (since T) (emit e)"
  by (simp add: keeps_def run)

lemma since_getL2: "keeps (since T) (getL2 E c key)"
  unfolding getL2_def by (intro wp since_redis since_now clk_laws)

text \<open>An attempt that reaches the server has let the clock advance.\<close>

lemma attempt_ticks:
  assumes "result (tryAcquireDistributedLock E (Deadline c T) key ttl) s = Inr a"
  shows "clk (world s) < clk (world (exec (tryAcquireDistributedLock E (Deadline c T) key ttl) s))"
    and "clk (world s) < T"
proof -
  let ?w1 = "exec (random_token E) (world s)"
  let ?w2 = "exec (link_status E (Deadline c T)) ?w1"
  obtain tok where tok: "result (random_token E) (world s) = Some tok"
    using assms by (auto simp: tryAcquireDistributedLock_def newDistributedLockToken_def run split: option.splits)
  have del: "result (link_status E (Deadline c T)) ?w1 = Delivered"
    using assms tok
    by (auto simp: tryAcquireDistributedLock_def newDistributedLockToken_def run redis_def redis_do_def split: link.splits)
  then have "\<not> T \<le> clk ?w1" using expired_refused by blast
  then show "clk (world s) < T" using token_clk [of "world s"] by simp
  have "world (exec (tryAcquireDistributedLock E (Deadline c T) key ttl) s) = exec (c_setnx E key (string_value E tok) ttl) ?w2"
    using tok del by (simp add: tryAcquireDistributedLock_def newDistributedLockToken_def run redis_def redis_do_def)
  then show "clk (world s) < clk (world (exec (tryAcquireDistributedLock E (Deadline c T) key ttl) s))"
    using token_clk [of "world s"] link_ticks [of ?w1 "Deadline c T"] setnx_clk [of ?w2 key "string_value E tok" ttl]
    by simp
qed

lemma lock_loop_returns:
  "T - clk (world s) < int n \<Longrightarrow>
   result (lock_loop (Suc n) E r cacheKey lockKey lockTTL (Deadline c T) ttlL2 config) s \<noteq> None"
proof (induction n arbitrary: s)
  case 0
  then have "\<nexists>a. result (tryAcquireDistributedLock E (Deadline c T) lockKey lockTTL) s = Inr a"
    using attempt_ticks(2) [of c T lockKey lockTTL s] by auto
  then show ?case by (cases "result (tryAcquireDistributedLock E (Deadline c T) lockKey lockTTL) s") (auto simp: run)
next
  case (Suc n)
  let ?a = "tryAcquireDistributedLock E (Deadline c T) lockKey lockTTL" and ?s1 = "exec (tryAcquireDistributedLock E (Deadline c T) lockKey lockTTL) s"
  let ?g = "getL2 E (Deadline c T) cacheKey" and ?x = "redis E (Deadline c T) (c_exists E lockKey)"
  let ?s2 = "exec ?g ?s1" and ?s3 = "exec ?x (exec ?g ?s1)"
  let ?s4 = "exec (on_world (sleep_or_done E (Deadline c T) lockPollInterval)) ?s3"
  show ?case
  proof (cases "result ?a s")
    case (Inr p)
    have tick: "clk (world s) < clk (world ?s1)" using attempt_ticks(1) [OF Inr] .
    have s3: "since (clk (world ?s1)) ?s3"
      using keepsD [OF since_redis [OF exists_clk]] keepsD [OF since_getL2] by blast
    then have s4: "since (clk (world ?s1)) ?s4" using keepsD [OF since_on_world [OF sleep_clk]] by blast
    have "T - clk (world ?s3) < int n" "T - clk (world ?s4) < int n" using Suc.prems tick s3 s4 by simp_all
    with Suc.IH [of ?s3] Suc.IH [of ?s4] Inr show ?thesis
      by (cases p; cases "snd p") (auto simp: run simp del: exec_on_world result_on_world lock_loop.simps(2) split: option.split sum.split
          simp: lock_loop.simps(2) [of "Suc n"])
  qed (simp add: run)
qed

lemma lock_fetch_returns:
  assumes "dur_add (dur_add (dur_mul (BackendTimeoutMs config) millisecond) lockSafetyMargin) lockSafetyMargin < int n"
  shows "result (fetchWithDistributedLock (Suc n) E r cacheKey ttlL2 config) s \<noteq> None"
proof -
  let ?d = "dur_add (dur_add (dur_mul (BackendTimeoutMs config) millisecond) lockSafetyMargin) lockSafetyMargin"
  have "clk (world s) + ?d - clk (exec (now E) (world s)) < int n"
    using assms now_clk [of "world s"] by simp
  then show ?thesis
    by (simp add: fetchWithDistributedLock_def Let_def with_timeout_def run now_reads
        lock_loop_returns del: lock_loop.simps)
qed

end


section \<open>What a fetch reports\<close>

lemma logs_emit_free: "logs (getL2 E c key) (\<lambda>_ tr. tr = [])" "logs (setL2 E c key v ttl m) (\<lambda>_ tr. tr = [])"
proof -
  have d: "logs (del_evicted E c es) (\<lambda>_ tr. tr = [])" for es
    by (induction es) (auto split: zmember.split intro!: wp)
  have r: "logs (removeL2LRU E c n) (\<lambda>_ tr. tr = [])" for n
    unfolding removeL2LRU_def by (intro wp logs_conseq [OF d]) auto
  show "logs (getL2 E c key) (\<lambda>_ tr. tr = [])" unfolding getL2_def by (intro wp) auto
  show "logs (setL2 E c key v ttl m) (\<lambda>_ tr. tr = [])"
    unfolding setL2_def by (intro wp logs_conseq [OF r]) auto
qed

lemma logs_tryAcquire:
  "logs (tryAcquireDistributedLock E c key ttl) (\<lambda>_ tr. backend_calls tr = 0 \<and> lookups tr = 0)"
  unfolding tryAcquireDistributedLock_def newDistributedLockToken_def by (intro wp) auto

lemma logs_release: "logs (releaseDistributedLock E key tok) (\<lambda>_ tr. tr = [])"
  unfolding releaseDistributedLock_def by (intro wp) auto

lemma logs_owner_body:
  "logs (owner_body E r k ttl config) (\<lambda>a tr. backend_calls tr \<le> 1 \<and> lookups tr = 0 \<and> failure_statuses {502, 504} a)"
  unfolding owner_body_def Let_def
  by (intro wp logs_conseq [OF logs_emit_free(1)] logs_conseq [OF logs_emit_free(2)]
      logs_conseq [OF logs_conj [OF logs_fetchFromBackend logs_fetch_failure]]) auto

lemma logs_owner:
  "logs (fetchAsDistributedLockOwner E r k lk tok ttl config)
     (\<lambda>a tr. backend_calls tr \<le> 1 \<and> lookups tr = 0 \<and> failure_statuses {502, 504} a)"
  unfolding fetchAsDistributedLockOwner_def
  by (intro wp logs_conseq [OF logs_owner_body] logs_conseq [OF logs_release]) auto

lemma logs_lock_loop:
  "logs (lock_loop n E r k lk lttl c ttl config) (\<lambda>a tr. backend_calls tr \<le> 1 \<and> lookups tr = 0 \<and>
     pred_option (failure_statuses {502, 503, 504}) a)"
proof (induction n)
  case (Suc n)
  show ?case
    unfolding lock_loop.simps
    by (intro wp logs_conseq [OF logs_tryAcquire] logs_conseq [OF logs_owner] logs_conseq [OF logs_emit_free(1)]
        logs_conseq [OF Suc])
      (auto simp: statuses failure_statuses_def split: go.splits option.splits)
qed (auto intro!: wp)

lemma logs_fetchWithDistributedLock:
  "logs (fetchWithDistributedLock n E r k ttl config) (\<lambda>a tr. backend_calls tr \<le> 1 \<and> lookups tr = 0 \<and>
     pred_option (failure_statuses {502, 503, 504}) a)"
  unfolding fetchWithDistributedLock_def Let_def
  by (intro wp logs_conseq [OF logs_lock_loop]) auto

context redis_lock
begin

lemma owner_frees:
  "reliable E \<Longrightarrow> lookup_at (vw (world (exec (fetchAsDistributedLockOwner E r k key tok ttl config) s))) key \<noteq>
     Some (string_value E tok)"
  by (simp add: fetchAsDistributedLockOwner_def run release_frees)

lemma expired_lock_taken:
  assumes rel: "reliable E" and ttl: "ttl_ok ttl" and tok: "result (random_token E) (world s) = Some tok'"
    and held: "lock_held E vw key s tok e" and out: "e \<le> server_time (vw (world s))"
  shows "result (tryAcquireDistributedLock E c key ttl) s = Inr (tok', True)"
proof -
  let ?s1 = "exec (on_world (random_token E)) s"
  let ?w = "exec (link_status E c) (world ?s1)" and ?m = "c_setnx E key (string_value E tok') ttl"
  obtain t1 where t1: "server_time (vw (world s)) \<le> t1" "vw (world ?s1) = (vw (world s))\<lparr>server_time := t1\<rparr>"
    using token_view [of "world s"] by (auto simp: run)
  obtain t2 where t2: "t1 \<le> t2" "vw ?w = (vw (world s))\<lparr>server_time := t2\<rparr>"
    using link_view [of "world ?s1" c] t1(2) by auto
  have "lookup_at ((vw (world s))\<lparr>server_time := t\<rparr>) key = None" if "t2 \<le> t" for t
    using held out t1(1) t2(1) that by (simp add: lock_held_def lookup_at_def)
  then have "result ?m ?w" using setnx_world [OF ttl t2(2), of key "string_value E tok'"] by (auto split: if_splits)
  then show ?thesis
    using tok by (simp add: tryAcquireDistributedLock_def newDistributedLockToken_def run redis_delivered(1) [OF rel])
qed

end

section \<open>Properties\<close>

text \<open>
  C2. At any time at most one gateway holds an unexpired lease of a key's lock, however the
  attempts, releases, crashes and lost replies of any number of gateways interleave, on any
  link: a release with the wrong token, or after the lease ran out, takes the lock from nobody.
\<close>

theorem distributed_lock_exclusive:
  assumes "redis_lock E vw" and "ttl_ok ttl" and "ttl \<noteq> 0"
    and "reaches lock_start (lock_step (\<lambda>c. tryAcquireDistributedLock E c key ttl) (releaseDistributedLock E key)
      (lock_clock vw) (lock_held E vw key)) (s, used, own)"
    and "own i = Some (tok, e)" and "lock_clock vw s < e"
    and "own j = Some (tok', e')" and "lock_clock vw s < e'"
  shows "i = j"
  by (rule lock_service.mutual_exclusion [OF redis_lock.distributed_service [OF assms(1-3)] assms(4-8)])

text \<open>
  C15. Waiting for the lock ends: as long as Redis commands take time and calls under an expired
  context fail, \<open>fetchWithDistributedLock\<close> returns (or passes a panic on) within as many rounds
  as its waiting time has nanoseconds, plus one.
\<close>

theorem distributed_fetch_returns:
  assumes "deadline_clock E clk"
    and "dur_add (dur_add (dur_mul (BackendTimeoutMs config) millisecond) lockSafetyMargin) lockSafetyMargin < int n"
  shows "\<exists>out. result (fetchWithDistributedLock (Suc n) E r cacheKey ttlL2 config) s = Some out"
  using deadline_clock.lock_fetch_returns [OF assms] by blast

text \<open>
  C35. A fetch under the lock calls the backend at most once, and when it fails the status is
  502, 503 or 504.
\<close>

theorem distributed_fetch_outcome:
  "\<exists>tr. metrics (exec (fetchWithDistributedLock n E r k ttl config) s) = metrics s @ tr \<and> backend_calls tr \<le> 1 \<and>
     (case result (fetchWithDistributedLock n E r k ttl config) s of
        Some (Ret (v, code, Some err)) \<Rightarrow> code \<in> {502, 503, 504}
      | _ \<Rightarrow> True)"
  using logsD [OF logs_fetchWithDistributedLock, of n E r k ttl config s]
  by (fastforce split: option.split go.split prod.split)

text \<open>
  C34. The owner gives the lock back however its fetch ends, with a value, an error or a panic
  of the proxy: over a link that delivers, the lock no longer holds its token.
\<close>

theorem distributed_owner_releases:
  assumes "redis_lock E vw" and "reliable E"
  shows "lookup_at (vw (world (exec (fetchAsDistributedLockOwner E r k key tok ttl config) s))) key \<noteq>
    Some (string_value E tok)"
  using assms by (rule redis_lock.owner_frees)

text \<open>
  A gateway that dies as owner does not block a key for good: once its lease has run out,
  the next attempt gets the lock.
\<close>

theorem distributed_lock_recovers:
  assumes "redis_lock E vw" and "reliable E" and "ttl_ok ttl" and "result (random_token E) (world s) = Some tok'"
    and "lock_held E vw key s tok e" and "e \<le> server_time (vw (world s))"
  shows "result (tryAcquireDistributedLock E c key ttl) s = Inr (tok', True)"
  using assms by (rule redis_lock.expired_lock_taken)

text \<open>
  The owner looks again before it fetches: when another gateway has stored the value in the
  meantime, that value is returned and the backend is not called.
\<close>

theorem distributed_owner_rechecks:
  assumes "result (getL2 E RequestCtx k) s = Some v"
  shows "result (fetchAsDistributedLockOwner E r k key tok ttl config) s = Ret (v, 200, None) \<and>
    metrics (exec (fetchAsDistributedLockOwner E r k key tok ttl config) s) = metrics s"
proof -
  obtain tr where "metrics (exec (getL2 E RequestCtx k) s) = metrics s @ tr" "tr = []"
    using logsD [OF logs_emit_free(1)] by blast
  moreover have "metrics (exec (releaseDistributedLock E key tok) (exec (getL2 E RequestCtx k) s)) =
      metrics (exec (getL2 E RequestCtx k) s)"
    using logsD [OF logs_release, of E key tok "exec (getL2 E RequestCtx k) s"] by auto
  ultimately show ?thesis
    using assms by (simp add: fetchAsDistributedLockOwner_def owner_body_def run statuses)
qed

section \<open>Witnesses\<close>

lemma mini_string_inj: "string_value mini_env a = string_value mini_env b \<Longrightarrow> a = b"
  by simp

interpretation mini_lock: redis_lock mini_env mini_view
  by unfold_locales (rule mini_string_inj)

text \<open>The contract on the code's own operations, for a key on the small server.\<close>

interpretation mini_key_lock: lock_service "\<lambda>c. tryAcquireDistributedLock mini_env c ''lock'' second"
  "releaseDistributedLock mini_env ''lock''" "lock_clock mini_view" "lock_held mini_env mini_view ''lock''"
  by (rule mini_lock.distributed_service) (simp_all add: ttl_ok_def)

lemmas lock_eval = tryAcquireDistributedLock_def newDistributedLockToken_def run empty_mini_def mini_view_def
  m_lookup_def m_expiry_def lock_held_def lock_clock_def

definition locked :: mini where
  "locked = world (exec (tryAcquireDistributedLock mini_env RequestCtx ''lock'' second) (mini_sys empty_mini))"

lemma locked_eq: "locked = empty_mini\<lparr>m_tokens := 2,
    m_keys := [''lock'' \<mapsto> (MStr (token_name 1), Some second)]\<rparr>"
  by (simp add: locked_def lock_eval)

theorem distributed_lock_exclusive_witness:
  "\<exists>(s :: mini sys) used own e. reaches lock_start (lock_step (\<lambda>c. tryAcquireDistributedLock mini_env c ''lock'' second)
      (releaseDistributedLock mini_env ''lock'') (lock_clock mini_view) (lock_held mini_env mini_view ''lock''))
      (s, used, own) \<and> own 0 = Some (token_name 1, e) \<and> lock_clock mini_view s < e \<and>
     (\<forall>j tok' e'. own j = Some (tok', e') \<and> lock_clock mini_view s < e' \<longrightarrow> j = (0::nat))"
proof -
  let ?acq = "\<lambda>c. tryAcquireDistributedLock mini_env c ''lock'' second" and ?rel = "releaseDistributedLock mini_env ''lock''"
  let ?ck = "lock_clock mini_view" and ?h = "lock_held mini_env mini_view ''lock''"
  let ?s0 = "mini_sys empty_mini" and ?own = "[0 \<mapsto> (token_name 1, second)] :: nat \<Rightarrow> (string \<times> time) option"
  let ?s1 = "exec (?acq RequestCtx) ?s0"
  have r: "result (?acq RequestCtx) ?s0 = Inr (token_name 1, True)" by (simp add: lock_eval)
  have h: "?h ?s1 (token_name 1) second" and ck: "?ck ?s1 < second" by (simp_all add: lock_eval)
  have "reaches lock_start (lock_step ?acq ?rel ?ck ?h) (?s0, {}, Map.empty)"
    by (rule reach_start) (simp add: lock_start_def)
  moreover have "lock_step ?acq ?rel ?ck ?h (?s0, {}, Map.empty) (?s1, {token_name 1}, ?own)"
    by (rule lock_acquire [where acq = ?acq and c = RequestCtx and held = ?h]) (use r h in simp_all)
  ultimately have re: "reaches lock_start (lock_step ?acq ?rel ?ck ?h) (?s1, {token_name 1}, ?own)"
    by (rule reach_step)
  have "j = 0" if "?own j = Some (tok', e')" "?ck ?s1 < e'" for j tok' e'
    by (rule distributed_lock_exclusive [OF mini_lock.redis_lock_axioms _ _ re that, where j = 0])
      (use ck in \<open>simp_all add: ttl_ok_def\<close>)
  then have "\<forall>j tok' e'. ?own j = Some (tok', e') \<and> ?ck ?s1 < e' \<longrightarrow> j = 0" by blast
  moreover have "?own 0 = Some (token_name 1, second)" by simp
  ultimately show ?thesis using re ck by (intro exI conjI) assumption+
qed

text \<open>A server whose commands take a nanosecond each, and refuse an expired context.\<close>

definition ticking_env :: "(mini, mval) env" where
  "ticking_env = mini_env\<lparr>link_status := (\<lambda>c. State (\<lambda>m.
     (if m_ctx_done m c then NotSent ''context deadline exceeded'' else Delivered, advance 1 m)))\<rparr>"

lemma ticking_clock: "deadline_clock ticking_env m_time"
  by unfold_locales (auto simp: ticking_env_def mini_env_def mini_run advance_def run)

theorem distributed_fetch_returns_witness:
  "\<exists>out. result (fetchWithDistributedLock (Suc 5000001) ticking_env sample_request ''/a'' second
     (sample_config\<lparr>BackendTimeoutMs := 1\<rparr>)) (mini_sys locked) = Some out"
  using distributed_fetch_returns [OF ticking_clock, of "sample_config\<lparr>BackendTimeoutMs := 1\<rparr>" 5000001 sample_request "''/a''"
      second "mini_sys locked"]
  by (simp add: lockSafetyMargin_def dur_add_def dur_mul_def wrap64_def)

theorem distributed_owner_releases_witness:
  "m_lookup locked ''lock'' = Some (MStr (token_name 1)) \<and>
   lookup_at (mini_view (world (exec (fetchAsDistributedLockOwner mini_env sample_request ''/a'' ''lock'' (token_name 1)
     second sample_config) (mini_sys locked)))) ''lock'' \<noteq> Some (MStr (token_name 1))"
  using distributed_owner_releases [OF mini_lock.redis_lock_axioms mini_reliable, of sample_request "''/a''" "''lock''"
      "token_name 1" second sample_config "mini_sys locked"]
  by (simp add: locked_eq m_lookup_def empty_mini_def)

theorem distributed_lock_recovers_witness:
  "result (tryAcquireDistributedLock mini_env RequestCtx ''lock'' second) (mini_sys (advance second locked)) =
     Inr (token_name 2, True)"
  using distributed_lock_recovers [OF mini_lock.redis_lock_axioms mini_reliable, of second "mini_sys (advance second locked)"
      "token_name 2" "''lock''" "token_name 1" second RequestCtx]
  by (simp add: ttl_ok_def run locked_eq advance_def lock_held_def mini_view_def empty_mini_def)

theorem distributed_owner_rechecks_witness:
  "let s = exec (setL2 mini_env RequestCtx ''/a'' l2_sample (9 * second) 2) (mini_sys locked) in
   result (fetchAsDistributedLockOwner mini_env sample_request ''/a'' ''lock'' (token_name 1) second sample_config) s =
     Ret (of_l2 (to_l2 l2_sample), 200, None)"
proof -
  let ?s = "exec (setL2 mini_env RequestCtx ''/a'' l2_sample (9 * second) 2) (mini_sys locked)"
  have "result (getL2 mini_env RequestCtx ''/a'') ?s = Some (of_l2 (to_l2 l2_sample))"
    by (simp add: l2_eval locked_eq)
  from distributed_owner_rechecks [OF this] show ?thesis by (simp add: Let_def)
qed

end
