(* ===== verification/Adaptive_TTL.thy ===== *)
theory Adaptive_TTL
  imports Distributed_Lock
begin

text \<open>
  The adaptive TTL controller, \<open>gateway/adaptive_ttl_controller.go\<close>. Every gateway runs one; in
  each interval the gateway that gets the controller lock reads the backend's load, moves the
  factor by which time-to-live values are scaled, and publishes it in Redis, where the others
  read it. The mutex only makes each access atomic. Log output is left out, and so are the
  numbers in error messages.
\<close>

section \<open>The controller\<close>

definition adaptiveTTLInitialFactor :: f64 where "adaptiveTTLInitialFactor = 1"
definition adaptiveTTLMinimumSampleCount :: int where "adaptiveTTLMinimumSampleCount = 20"
definition adaptiveTTLCongestedReadingsRequired :: int where "adaptiveTTLCongestedReadingsRequired = 2"
definition adaptiveTTLStableReadingsRequired :: int where "adaptiveTTLStableReadingsRequired = 3"
definition adaptiveTTLStableThresholdRatio :: f64 where "adaptiveTTLStableThresholdRatio = rnd (9 / 10)"
definition adaptiveTTLIncreaseStep :: f64 where "adaptiveTTLIncreaseStep = rnd (15 / 100)"
definition adaptiveTTLStrongIncreaseStep :: f64 where "adaptiveTTLStrongIncreaseStep = rnd (1 / 4)"
definition adaptiveTTLDecreaseStep :: f64 where "adaptiveTTLDecreaseStep = rnd (2 / 10)"
definition adaptiveTTLFallbackInterval :: duration where "adaptiveTTLFallbackInterval = 5 * second"
definition adaptiveTTLControllerLockPollInterval :: duration where
  "adaptiveTTLControllerLockPollInterval = 25 * millisecond"
definition adaptiveTTLSnapshotRedisKey :: string where
  "adaptiveTTLSnapshotRedisKey = ''gateway:adaptive-ttl:snapshot''"
definition adaptiveTTLControllerLockRedisKey :: string where
  "adaptiveTTLControllerLockRedisKey = ''gateway:adaptive-ttl:controller-lock''"
definition adaptiveTTLControllerLockTTL :: duration where "adaptiveTTLControllerLockTTL = 5 * second"
definition adaptiveTTLControllerLockReleaseTimeout :: duration where
  "adaptiveTTLControllerLockReleaseTimeout = second"

lemmas readings_required = adaptiveTTLCongestedReadingsRequired_def adaptiveTTLStableReadingsRequired_def

record AdaptiveTTLController =
  currentFactor :: f64
  currentState :: AdaptiveTTLState
  consecutiveStableReadings :: int
  consecutiveCongestedReadings :: int
  lastBackendP99LatencyMs :: f64

definition NewAdaptiveTTLController :: AdaptiveTTLController where
  "NewAdaptiveTTLController = \<lparr>currentFactor = adaptiveTTLInitialFactor,
     currentState = AdaptiveTTLStateDisabled, consecutiveStableReadings = 0,
     consecutiveCongestedReadings = 0, lastBackendP99LatencyMs = 0\<rparr>"

text \<open>The process state seen by the controller.\<close>

record 'w csys = "'w sys" +
  controller :: AdaptiveTTLController

definition Snapshot :: "AdaptiveTTLController \<Rightarrow> AdaptiveTTLSnapshot" where
  "Snapshot ctl = \<lparr>Factor = currentFactor ctl, SnapState = currentState ctl,
     ConsecutiveStableReadings = consecutiveStableReadings ctl,
     ConsecutiveCongestedReadings = consecutiveCongestedReadings ctl,
     LastBackendP99LatencyMs = lastBackendP99LatencyMs ctl\<rparr>"

definition applySnapshot :: "AdaptiveTTLSnapshot \<Rightarrow> AdaptiveTTLController \<Rightarrow> AdaptiveTTLController" where
  "applySnapshot snapshot ctl = ctl\<lparr>currentFactor := Factor snapshot, currentState := SnapState snapshot,
     consecutiveStableReadings := ConsecutiveStableReadings snapshot,
     consecutiveCongestedReadings := ConsecutiveCongestedReadings snapshot,
     lastBackendP99LatencyMs := LastBackendP99LatencyMs snapshot\<rparr>"

definition setDisabled :: "AdaptiveTTLController \<Rightarrow> AdaptiveTTLController" where
  "setDisabled ctl = ctl\<lparr>currentState := AdaptiveTTLStateDisabled,
     currentFactor := adaptiveTTLInitialFactor, consecutiveStableReadings := 0,
     consecutiveCongestedReadings := 0, lastBackendP99LatencyMs := 0\<rparr>"

definition clampAdaptiveTTLFactor :: "f64 \<Rightarrow> f64 \<Rightarrow> f64 \<Rightarrow> f64" where
  "clampAdaptiveTTLFactor factor minFactor maxFactor =
     (if factor < minFactor then minFactor else if factor > maxFactor then maxFactor else factor)"

definition classifyBackendLoad :: "GatewayConfig \<Rightarrow> BackendLoadSignals \<Rightarrow> AdaptiveTTLState \<times> bool \<times> bool" where
  "classifyBackendLoad config signals =
     (let enoughLatencySamples = SampleCount signals \<ge> adaptiveTTLMinimumSampleCount;
          latencyCongested = enoughLatencySamples \<and>
            P99LatencyMs signals \<ge> f64_of_int (AdaptiveTTLLatencyThresholdMs config);
          concurrencyCongested = ActiveRequests signals \<ge> AdaptiveTTLConcurrencyThreshold config
      in if latencyCongested \<or> concurrencyCongested
         then (AdaptiveTTLStateCongested, latencyCongested, concurrencyCongested)
         else let stableLatencyThreshold =
                fmul (f64_of_int (AdaptiveTTLLatencyThresholdMs config)) adaptiveTTLStableThresholdRatio;
              stableConcurrencyThreshold =
                fmul (f64_of_int (AdaptiveTTLConcurrencyThreshold config)) adaptiveTTLStableThresholdRatio;
              concurrencyStable = f64_of_int (ActiveRequests signals) < stableConcurrencyThreshold
           in if \<not> enoughLatencySamples
              then if concurrencyStable then (AdaptiveTTLStateStable, False, False)
                   else (AdaptiveTTLStateWarning, False, False)
              else let latencyStable = P99LatencyMs signals < stableLatencyThreshold
                in if latencyStable \<and> concurrencyStable then (AdaptiveTTLStateStable, False, False)
                   else (AdaptiveTTLStateWarning, False, False))"

text \<open>The transition for a state, after the factor has been clamped and the state set.\<close>

definition react :: "GatewayConfig \<Rightarrow> AdaptiveTTLState \<Rightarrow> bool \<Rightarrow> bool \<Rightarrow> AdaptiveTTLController \<Rightarrow> AdaptiveTTLController" where
  "react config state latencyCongested concurrencyCongested ctl =
     (if state = AdaptiveTTLStateCongested then
        let ctl = ctl\<lparr>consecutiveStableReadings := 0,
              consecutiveCongestedReadings := wrap64 (consecutiveCongestedReadings ctl + 1)\<rparr>
        in if consecutiveCongestedReadings ctl \<ge> adaptiveTTLCongestedReadingsRequired then
             let increaseStep = (if latencyCongested \<and> concurrencyCongested
                   then adaptiveTTLStrongIncreaseStep else adaptiveTTLIncreaseStep)
             in ctl\<lparr>currentFactor := clampAdaptiveTTLFactor (fadd (currentFactor ctl) increaseStep)
                    (AdaptiveTTLMinFactor config) (AdaptiveTTLMaxFactor config),
                  consecutiveCongestedReadings := 0\<rparr>
           else ctl
      else if state = AdaptiveTTLStateStable then
        let ctl = ctl\<lparr>consecutiveCongestedReadings := 0,
              consecutiveStableReadings := wrap64 (consecutiveStableReadings ctl + 1)\<rparr>
        in if consecutiveStableReadings ctl \<ge> adaptiveTTLStableReadingsRequired then
             ctl\<lparr>currentFactor := clampAdaptiveTTLFactor (fsub (currentFactor ctl) adaptiveTTLDecreaseStep)
                   (AdaptiveTTLMinFactor config) (AdaptiveTTLMaxFactor config),
                 consecutiveStableReadings := 0\<rparr>
           else ctl
      else if state = AdaptiveTTLStateWarning then
        ctl\<lparr>consecutiveStableReadings := 0, consecutiveCongestedReadings := 0\<rparr>
      else ctl)"

definition processSignals :: "GatewayConfig \<Rightarrow> BackendLoadSignals \<Rightarrow> AdaptiveTTLController \<Rightarrow> AdaptiveTTLController" where
  "processSignals config signals ctl =
     (let (state, latencyCongested, concurrencyCongested) = classifyBackendLoad config signals;
          ctl = ctl\<lparr>lastBackendP99LatencyMs := P99LatencyMs signals\<rparr>;
          ctl = ctl\<lparr>currentFactor := clampAdaptiveTTLFactor (currentFactor ctl)
                  (AdaptiveTTLMinFactor config) (AdaptiveTTLMaxFactor config)\<rparr>;
          ctl = ctl\<lparr>currentState := state\<rparr>
      in react config state latencyCongested concurrencyCongested ctl)"

definition effectiveCacheTTLs :: "('w, 'v) env \<Rightarrow> GatewayConfig \<Rightarrow> AdaptiveTTLController \<Rightarrow> duration \<times> duration \<times> f64" where
  "effectiveCacheTTLs E config ctl =
     (let factor = (if AdaptiveTTLEnabled config
            then clampAdaptiveTTLFactor (Factor (Snapshot ctl)) (AdaptiveTTLMinFactor config)
                   (AdaptiveTTLMaxFactor config)
            else adaptiveTTLInitialFactor);
          baseL1TTL = dur_mul (L1TTLSeconds config) second;
          baseL2TTL = dur_mul (L2TTLSeconds config) second;
          effectiveL1TTL = f64_to_i64 (float_overflow E) (fmul (f64_of_int baseL1TTL) factor);
          effectiveL2TTL = f64_to_i64 (float_overflow E) (fmul (f64_of_int baseL2TTL) factor)
      in (effectiveL1TTL, effectiveL2TTL, factor))"

definition adaptiveTTLStateMetricValue :: "AdaptiveTTLState \<Rightarrow> f64" where
  "adaptiveTTLStateMetricValue state =
     (if state = AdaptiveTTLStateStable then 1
      else if state = AdaptiveTTLStateWarning then 2
      else if state = AdaptiveTTLStateCongested then 3
      else 0)"

section \<open>Its operations\<close>

definition controller_snapshot :: "(('w, 'x) csys_scheme, AdaptiveTTLSnapshot) state" where
  "controller_snapshot = State (\<lambda>s. (Snapshot (controller s), s))"

definition on_controller :: "(AdaptiveTTLController \<Rightarrow> AdaptiveTTLController) \<Rightarrow> (('w, 'x) csys_scheme, unit) state" where
  "on_controller f = State (\<lambda>s. ((), s\<lparr>controller := f (controller s)\<rparr>))"

text \<open>The request to the load endpoint is well formed: \<open>NewRequestWithContext\<close> does not fail.\<close>

definition readBackendLoadSignals :: "('w, 'v) env \<Rightarrow> ctx \<Rightarrow> (('w, 'x) csys_scheme, goerr + BackendLoadSignals) state" where
  "readBackendLoadSignals E c = do {
     r \<leftarrow> on_world (http_get_load E c);
     case r of
       Inl err \<Rightarrow> ret (Inl (Wrap ''backend load request failed'' err))
     | Inr (code, body) \<Rightarrow>
         if code < 200 \<or> code \<ge> 300 then ret (Inl (Msg ''backend load endpoint returned status''))
         else (case body of
             None \<Rightarrow> ret (Inl (Wrap ''failed to decode backend load signals'' (LibErr ''json'')))
           | Some signals \<Rightarrow> ret (Inr signals)) }"

definition tryAcquireControllerLock :: "('w, 'v) env \<Rightarrow> ctx \<Rightarrow> (('w, 'x) csys_scheme, goerr + string \<times> bool) state" where
  "tryAcquireControllerLock E c = do {
     r \<leftarrow> newDistributedLockToken E;
     case r of
       Inl err \<Rightarrow> ret (Inl (Wrap ''generate adaptive TTL controller lock token'' err))
     | Inr token \<Rightarrow> do {
         r \<leftarrow> redis E c (c_setnx E adaptiveTTLControllerLockRedisKey (string_value E token)
                adaptiveTTLControllerLockTTL);
         case r of
           Inl err \<Rightarrow> ret (Inl (Wrap ''acquire adaptive TTL controller lock'' err))
         | Inr acquired \<Rightarrow> ret (Inr (token, acquired)) } }"

definition releaseAdaptiveTTLControllerLockScript :: "('w, 'v) env \<Rightarrow> string \<Rightarrow> string \<Rightarrow> ('w, int) state" where
  "releaseAdaptiveTTLControllerLockScript E key token = do {
     v \<leftarrow> c_get E key;
     if v = Some (string_value E token) then c_del E [key] else ret 0 }"

definition releaseControllerLock :: "('w, 'v) env \<Rightarrow> string \<Rightarrow> (('w, 'x) csys_scheme, unit) state" where
  "releaseControllerLock E token = do {
     ctx \<leftarrow> with_timeout E Background adaptiveTTLControllerLockReleaseTimeout;
     _ \<leftarrow> redis E ctx (releaseAdaptiveTTLControllerLockScript E adaptiveTTLControllerLockRedisKey token);
     ret () }"

text \<open>The checks on what Redis returned; \<open>redis.Nil\<close> is an error here.\<close>

definition decode_snapshot :: "('w, 'v) env \<Rightarrow> goerr + 'v option \<Rightarrow> goerr + AdaptiveTTLSnapshot" where
  "decode_snapshot E r = (case r of
       Inl err \<Rightarrow> Inl (Wrap ''read adaptive TTL snapshot'' err)
     | Inr None \<Rightarrow> Inl (Wrap ''read adaptive TTL snapshot'' (LibErr ''redis: nil''))
     | Inr (Some data) \<Rightarrow> (case dec_snapshot E data of
         None \<Rightarrow> Inl (Wrap ''decode adaptive TTL snapshot'' (LibErr ''json''))
       | Some snapshot \<Rightarrow>
           if Factor snapshot \<le> 0 then Inl (Msg ''invalid adaptive TTL factor in Redis'')
           else if SnapState snapshot = [] then Inl (Msg ''adaptive TTL state is missing in Redis'')
           else Inr snapshot))"

definition initialSnapshot :: AdaptiveTTLSnapshot where
  "initialSnapshot = \<lparr>Factor = adaptiveTTLInitialFactor, SnapState = AdaptiveTTLStateDisabled,
     ConsecutiveStableReadings = 0, ConsecutiveCongestedReadings = 0, LastBackendP99LatencyMs = 0\<rparr>"

definition loadSharedSnapshot :: "('w, 'v) env \<Rightarrow> ctx \<Rightarrow> (('w, 'x) csys_scheme, goerr + AdaptiveTTLSnapshot) state" where
  "loadSharedSnapshot E c = do {
     r \<leftarrow> redis E c (c_get E adaptiveTTLSnapshotRedisKey);
     case r of
       Inr None \<Rightarrow>
         (case enc_snapshot E initialSnapshot of
            None \<Rightarrow> ret (Inl (Wrap ''encode initial adaptive TTL snapshot'' (LibErr ''json'')))
          | Some initialData \<Rightarrow> do {
              set \<leftarrow> redis E c (c_setnx E adaptiveTTLSnapshotRedisKey initialData 0);
              case set of
                Inl setErr \<Rightarrow> ret (Inl (Wrap ''initialize adaptive TTL snapshot'' setErr))
              | Inr created \<Rightarrow>
                  if created then ret (Inr initialSnapshot)
                  else do {
                    r \<leftarrow> redis E c (c_get E adaptiveTTLSnapshotRedisKey);
                    ret (decode_snapshot E r) } })
     | _ \<Rightarrow> ret (decode_snapshot E r) }"

definition saveSharedSnapshot :: "('w, 'v) env \<Rightarrow> ctx \<Rightarrow> AdaptiveTTLSnapshot \<Rightarrow>
    (('w, 'x) csys_scheme, goerr option) state" where
  "saveSharedSnapshot E c snapshot =
     (case enc_snapshot E snapshot of
        None \<Rightarrow> ret (Some (Wrap ''encode adaptive TTL snapshot'' (LibErr ''json'')))
      | Some data \<Rightarrow> do {
          r \<leftarrow> redis E c (c_set E adaptiveTTLSnapshotRedisKey data 0);
          case r of
            Inl err \<Rightarrow> ret (Some (Wrap ''save adaptive TTL snapshot'' err))
          | Inr _ \<Rightarrow> ret None })"

definition synchronizeFromRedis :: "('w, 'v) env \<Rightarrow> ctx \<Rightarrow> (('w, 'x) csys_scheme, goerr option) state" where
  "synchronizeFromRedis E c = do {
     r \<leftarrow> loadSharedSnapshot E c;
     case r of
       Inl err \<Rightarrow> ret (Some err)
     | Inr snapshot \<Rightarrow> do { _ \<leftarrow> on_controller (applySnapshot snapshot); ret None } }"

text \<open>\<open>updateSharedState\<close> with the lock; the release is deferred.\<close>

definition update_as_owner :: "('w, 'v) env \<Rightarrow> ctx \<Rightarrow> GatewayConfig \<Rightarrow> (('w, 'x) csys_scheme, goerr option) state" where
  "update_as_owner E c config = do {
     r \<leftarrow> loadSharedSnapshot E c;
     case r of
       Inl err \<Rightarrow> ret (Some err)
     | Inr snapshot \<Rightarrow> do {
         _ \<leftarrow> on_controller (applySnapshot snapshot);
         if \<not> AdaptiveTTLEnabled config then do {
           _ \<leftarrow> on_controller setDisabled;
           snap \<leftarrow> controller_snapshot;
           saveSharedSnapshot E c snap }
         else do {
           r \<leftarrow> readBackendLoadSignals E c;
           case r of
             Inl err \<Rightarrow> ret (Some err)
           | Inr signals \<Rightarrow> do {
               _ \<leftarrow> on_controller (processSignals config signals);
               snap \<leftarrow> controller_snapshot;
               saveSharedSnapshot E c snap } } } }"

definition updateSharedState :: "('w, 'v) env \<Rightarrow> ctx \<Rightarrow> GatewayConfig \<Rightarrow> (('w, 'x) csys_scheme, goerr option) state" where
  "updateSharedState E c config = do {
     r \<leftarrow> tryAcquireControllerLock E c;
     case r of
       Inl err \<Rightarrow> ret (Some err)
     | Inr (token, acquired) \<Rightarrow>
         if \<not> acquired then synchronizeFromRedis E c
         else do {
           res \<leftarrow> update_as_owner E c config;
           _ \<leftarrow> releaseControllerLock E token;
           ret res } }"

definition waitForAdaptiveTTLInterval :: "('w, 'v) env \<Rightarrow> ctx \<Rightarrow> duration \<Rightarrow> (('w, 'x) csys_scheme, bool) state" where
  "waitForAdaptiveTTLInterval E c interval = on_world (sleep_or_done E c interval)"

text \<open>\<open>Reset\<close> retries until it has the lock: at most \<open>n\<close> rounds, None when they are used up.\<close>

definition resetSnapshot :: "bool \<Rightarrow> AdaptiveTTLSnapshot" where
  "resetSnapshot enabled = \<lparr>Factor = adaptiveTTLInitialFactor,
     SnapState = (if enabled then AdaptiveTTLStateWarning else AdaptiveTTLStateDisabled),
     ConsecutiveStableReadings = 0, ConsecutiveCongestedReadings = 0, LastBackendP99LatencyMs = 0\<rparr>"

definition reset_as_owner :: "('w, 'v) env \<Rightarrow> ctx \<Rightarrow> bool \<Rightarrow> (('w, 'x) csys_scheme, goerr option) state" where
  "reset_as_owner E c enabled = do {
     r \<leftarrow> saveSharedSnapshot E c (resetSnapshot enabled);
     case r of
       Some err \<Rightarrow> ret (Some (Wrap ''reset adaptive TTL snapshot'' err))
     | None \<Rightarrow> do { _ \<leftarrow> on_controller (applySnapshot (resetSnapshot enabled)); ret None } }"

primrec Reset :: "nat \<Rightarrow> ('w, 'v) env \<Rightarrow> ctx \<Rightarrow> bool \<Rightarrow> (('w, 'x) csys_scheme, goerr option option) state" where
  "Reset 0 E c enabled = ret None"
| "Reset (Suc n) E c enabled = do {
     r \<leftarrow> tryAcquireControllerLock E c;
     case r of
       Inl err \<Rightarrow> ret (Some (Some (Wrap ''acquire controller lock for reset'' err)))
     | Inr (token, acquired) \<Rightarrow>
         if acquired then do {
           res \<leftarrow> reset_as_owner E c enabled;
           _ \<leftarrow> releaseControllerLock E token;
           ret (Some res) }
         else do {
           fired \<leftarrow> waitForAdaptiveTTLInterval E c adaptiveTTLControllerLockPollInterval;
           if \<not> fired then do { e \<leftarrow> on_world (ctx_err E c); ret (Some e) }
           else Reset n E c enabled } }"

definition updateMetrics :: "('w, 'v) env \<Rightarrow> GatewayConfig \<Rightarrow> (('w, 'x) csys_scheme, unit) state" where
  "updateMetrics E config = do {
     snapshot \<leftarrow> controller_snapshot;
     ctl \<leftarrow> State (\<lambda>s. (controller s, s));
     let (ttlL1, ttlL2, factor) = effectiveCacheTTLs E config ctl;
     let state = (if \<not> AdaptiveTTLEnabled config then AdaptiveTTLStateDisabled else SnapState snapshot);
     _ \<leftarrow> emit (SetAdaptiveFactor factor);
     _ \<leftarrow> emit (SetEffectiveSeconds ''l1'' (Seconds ttlL1));
     _ \<leftarrow> emit (SetEffectiveSeconds ''l2'' (Seconds ttlL2));
     _ \<leftarrow> emit (SetAdaptiveState (adaptiveTTLStateMetricValue state));
     emit (SetBackendP99 (LastBackendP99LatencyMs snapshot)) }"

text \<open>
  \<open>Run\<close>, its first \<open>n\<close> rounds; the result is whether it is still running. The configuration
  provider is the handler's \<open>currentGatewayConfig\<close>.
\<close>

primrec Run :: "nat \<Rightarrow> ('w, 'v) env \<Rightarrow> ctx \<Rightarrow> (ctx \<Rightarrow> (('w, 'x) csys_scheme, goerr + GatewayConfig) state) \<Rightarrow>
    (('w, 'x) csys_scheme, bool) state" where
  "Run 0 E c configProvider = ret True"
| "Run (Suc n) E c configProvider = do {
     r \<leftarrow> configProvider c;
     case r of
       Inl err \<Rightarrow> do {
         go_on \<leftarrow> waitForAdaptiveTTLInterval E c adaptiveTTLFallbackInterval;
         if \<not> go_on then ret False else Run n E c configProvider }
     | Inr config \<Rightarrow> do {
         let interval = dur_mul (AdaptiveTTLAdjustmentIntervalMs config) millisecond;
         let interval = (if interval \<le> 0 then adaptiveTTLFallbackInterval else interval);
         err \<leftarrow> updateSharedState E c config;
         _ \<leftarrow> (case err of Some e \<Rightarrow> ret () | None \<Rightarrow> updateMetrics E config);
         go_on \<leftarrow> waitForAdaptiveTTLInterval E c interval;
         if \<not> go_on then ret False else Run n E c configProvider } }"

section \<open>The control law\<close>

text \<open>How loaded a state is: the order in which load moves the controller.\<close>

definition severity :: "AdaptiveTTLState \<Rightarrow> nat" where
  "severity st = (if st = AdaptiveTTLStateCongested then 2 else if st = AdaptiveTTLStateWarning then 1 else 0)"

lemma state_names_distinct [simp]:
  "AdaptiveTTLStateCongested \<noteq> AdaptiveTTLStateStable" "AdaptiveTTLStateStable \<noteq> AdaptiveTTLStateCongested"
  "AdaptiveTTLStateCongested \<noteq> AdaptiveTTLStateWarning" "AdaptiveTTLStateWarning \<noteq> AdaptiveTTLStateCongested"
  "AdaptiveTTLStateStable \<noteq> AdaptiveTTLStateWarning" "AdaptiveTTLStateWarning \<noteq> AdaptiveTTLStateStable"
  "AdaptiveTTLStateDisabled \<noteq> AdaptiveTTLStateStable" "AdaptiveTTLStateStable \<noteq> AdaptiveTTLStateDisabled"
  by (simp_all add: state_names)

lemma severity_simps [simp]: "severity AdaptiveTTLStateCongested = 2" "severity AdaptiveTTLStateWarning = 1"
  "severity AdaptiveTTLStateStable = 0"
  by (simp_all add: severity_def)

definition congested :: "GatewayConfig \<Rightarrow> BackendLoadSignals \<Rightarrow> bool" where
  "congested config g \<longleftrightarrow> (adaptiveTTLMinimumSampleCount \<le> SampleCount g \<and>
     f64_of_int (AdaptiveTTLLatencyThresholdMs config) \<le> P99LatencyMs g) \<or>
     AdaptiveTTLConcurrencyThreshold config \<le> ActiveRequests g"

lemma classify_congested: "fst (classifyBackendLoad config g) = AdaptiveTTLStateCongested \<longleftrightarrow> congested config g"
  by (auto simp: classifyBackendLoad_def congested_def Let_def)

lemma classify_cases:
  "fst (classifyBackendLoad config g) \<in> {AdaptiveTTLStateStable, AdaptiveTTLStateWarning, AdaptiveTTLStateCongested}"
  by (simp add: classifyBackendLoad_def Let_def)

lemma clamp_bounds:
  "lo \<le> hi \<Longrightarrow> lo \<le> clampAdaptiveTTLFactor f lo hi" "lo \<le> hi \<Longrightarrow> clampAdaptiveTTLFactor f lo hi \<le> hi"
  by (simp_all add: clampAdaptiveTTLFactor_def)

lemma clamp_id: "lo \<le> f \<Longrightarrow> f \<le> hi \<Longrightarrow> clampAdaptiveTTLFactor f lo hi = f"
  by (simp add: clampAdaptiveTTLFactor_def)

lemma clamp_above: "lo \<le> hi \<Longrightarrow> hi \<le> f \<Longrightarrow> clampAdaptiveTTLFactor f lo hi = hi"
  by (auto simp: clampAdaptiveTTLFactor_def)

lemma clamp_mono: "f \<le> g \<Longrightarrow> lo \<le> hi \<Longrightarrow> clampAdaptiveTTLFactor f lo hi \<le> clampAdaptiveTTLFactor g lo hi"
  by (auto simp: clampAdaptiveTTLFactor_def)

definition factor_within :: "GatewayConfig \<Rightarrow> AdaptiveTTLController \<Rightarrow> bool" where
  "factor_within config ctl \<longleftrightarrow> AdaptiveTTLMinFactor config \<le> currentFactor ctl \<and>
     currentFactor ctl \<le> AdaptiveTTLMaxFactor config"

definition counters_ok :: "AdaptiveTTLController \<Rightarrow> bool" where
  "counters_ok ctl \<longleftrightarrow> consecutiveCongestedReadings ctl \<in> {0, 1} \<and> consecutiveStableReadings ctl \<in> {0, 1, 2} \<and>
     (consecutiveCongestedReadings ctl = 0 \<or> consecutiveStableReadings ctl = 0)"

definition run_signals :: "GatewayConfig \<Rightarrow> BackendLoadSignals list \<Rightarrow> AdaptiveTTLController \<Rightarrow> AdaptiveTTLController" where
  "run_signals config gs ctl = fold (processSignals config) gs ctl"

lemma run_signals_simps [simp]: "run_signals config [] ctl = ctl"
  "run_signals config (g # gs) ctl = run_signals config gs (processSignals config g ctl)"
  by (simp_all add: run_signals_def)

lemma wrap64_small [simp]: "wrap64 1 = 1" "wrap64 2 = 2" "wrap64 3 = 3"
  by (simp_all add: wrap64_def)

lemma process_factor:
  assumes "AdaptiveTTLMinFactor config \<le> AdaptiveTTLMaxFactor config"
  shows "factor_within config (processSignals config g ctl)"
  using clamp_bounds [OF assms]
  by (auto simp: factor_within_def processSignals_def react_def Let_def split: prod.split)

lemma process_counters: "counters_ok ctl \<Longrightarrow> counters_ok (processSignals config g ctl)"
  using classify_cases [of config g]
  by (auto simp: counters_ok_def processSignals_def react_def Let_def readings_required split: prod.split)

lemma process_state: "currentState (processSignals config g ctl) = fst (classifyBackendLoad config g)"
  by (auto simp: processSignals_def react_def Let_def split: prod.split)

lemma run_signals_good:
  assumes "AdaptiveTTLMinFactor config \<le> AdaptiveTTLMaxFactor config" and "counters_ok ctl"
  shows "counters_ok (run_signals config gs ctl)" and "gs \<noteq> [] \<Longrightarrow> factor_within config (run_signals config gs ctl)"
proof -
  have "counters_ok (run_signals config gs ctl) \<and> (gs \<noteq> [] \<longrightarrow> factor_within config (run_signals config gs ctl))"
    using assms(2)
  proof (induction gs arbitrary: ctl)
    case (Cons g gs)
    then show ?case using process_factor [OF assms(1), of g ctl] process_counters [of ctl config g]
      by (cases gs) auto
  qed simp
  then show "counters_ok (run_signals config gs ctl)" and "gs \<noteq> [] \<Longrightarrow> factor_within config (run_signals config gs ctl)"
    by blast+
qed

text \<open>One increase moves the factor by at least 0.14 in spite of rounding, up to the maximum.\<close>

lemma rnd_near:
  assumes "1 / 100 \<le> x" and "x \<le> 2000"
  shows "\<bar>rnd x - x\<bar> \<le> 1 / 1000000"
proof -
  have "(2::rat) powi (emin + 52) \<le> 2 powi (- 7)" by (rule power_int_increasing) (simp_all add: emin_def)
  also have "\<dots> = 1 / 128" by (simp add: power_int_minus)
  finally have "2 powi (emin + 52) \<le> \<bar>x\<bar>" using assms by simp
  then have "\<bar>rnd x - x\<bar> \<le> \<bar>x\<bar> * 2 powi (- 53)" using rnd_rel_err by blast
  also have "\<dots> \<le> 2000 * 2 powi (- 53)" using assms by (intro mult_right_mono) auto
  also have "\<dots> \<le> 1 / 1000000" by (simp add: power_int_minus)
  finally show ?thesis .
qed

lemma increase_step:
  assumes "0 \<le> f" and "f \<le> 1000" and "st = adaptiveTTLIncreaseStep \<or> st = adaptiveTTLStrongIncreaseStep"
  shows "f + 14 / 100 \<le> fadd f st"
proof -
  have "\<bar>adaptiveTTLIncreaseStep - 15 / 100\<bar> \<le> 1 / 1000000" "\<bar>adaptiveTTLStrongIncreaseStep - 1 / 4\<bar> \<le> 1 / 1000000"
    unfolding adaptiveTTLIncreaseStep_def adaptiveTTLStrongIncreaseStep_def by (rule rnd_near; simp)+
  then have "\<bar>st - 15 / 100\<bar> \<le> 1 / 1000000 \<or> \<bar>st - 1 / 4\<bar> \<le> 1 / 1000000" using assms(3) by metis
  then have st: "149 / 1000 \<le> st" "st \<le> 1 / 2" by linarith+
  then have "\<bar>rnd (f + st) - (f + st)\<bar> \<le> 1 / 1000000" using assms(1,2) by (intro rnd_near) auto
  then show ?thesis using st unfolding fadd_def by linarith
qed

abbreviation clamped :: "GatewayConfig \<Rightarrow> AdaptiveTTLController \<Rightarrow> f64" where
  "clamped config ctl \<equiv> clampAdaptiveTTLFactor (currentFactor ctl) (AdaptiveTTLMinFactor config) (AdaptiveTTLMaxFactor config)"

lemma process_congested:
  assumes "congested config g" and "counters_ok ctl"
    and "0 < AdaptiveTTLMinFactor config" and "AdaptiveTTLMinFactor config \<le> AdaptiveTTLMaxFactor config"
    and "AdaptiveTTLMaxFactor config \<le> 1000"
  defines "ctl' \<equiv> processSignals config g ctl"
  shows "consecutiveCongestedReadings ctl' = 1 - consecutiveCongestedReadings ctl"
    and "(if consecutiveCongestedReadings ctl = 0 then currentFactor ctl' = clamped config ctl
          else min (AdaptiveTTLMaxFactor config) (clamped config ctl + 14 / 100) \<le> currentFactor ctl')"
proof -
  obtain lc cc where cl: "classifyBackendLoad config g = (AdaptiveTTLStateCongested, lc, cc)"
    using classify_congested [of config g] assms(1) by (cases "classifyBackendLoad config g") auto
  show "consecutiveCongestedReadings ctl' = 1 - consecutiveCongestedReadings ctl"
    using assms(2) by (auto simp: ctl'_def processSignals_def cl react_def Let_def counters_ok_def readings_required)
  let ?lo = "AdaptiveTTLMinFactor config" and ?hi = "AdaptiveTTLMaxFactor config"
  let ?st = "if lc \<and> cc then adaptiveTTLStrongIncreaseStep else adaptiveTTLIncreaseStep"
  have f: "?lo \<le> clamped config ctl" "clamped config ctl \<le> ?hi" using clamp_bounds [OF assms(4)] by auto
  have "clamped config ctl + 14 / 100 \<le> fadd (clamped config ctl) ?st"
    using f assms(3,5) by (intro increase_step) auto
  then have up: "min ?hi (clamped config ctl + 14 / 100) \<le> clampAdaptiveTTLFactor (fadd (clamped config ctl) ?st) ?lo ?hi"
    using assms(4) by (auto simp: clampAdaptiveTTLFactor_def min_def)
  show "(if consecutiveCongestedReadings ctl = 0 then currentFactor ctl' = clamped config ctl
          else min ?hi (clamped config ctl + 14 / 100) \<le> currentFactor ctl')"
    using assms(2) up
    by (auto simp: ctl'_def processSignals_def cl react_def Let_def counters_ok_def readings_required)
qed

text \<open>Two congested readings are one increase; more of them never lower the factor.\<close>

lemma congested_grows:
  assumes lim: "0 < AdaptiveTTLMinFactor config" "AdaptiveTTLMinFactor config \<le> AdaptiveTTLMaxFactor config"
    "AdaptiveTTLMaxFactor config \<le> 1000"
  shows "list_all (congested config) gs \<Longrightarrow> counters_ok ctl \<Longrightarrow> 2 * k \<le> length gs \<Longrightarrow>
    min (AdaptiveTTLMaxFactor config) (clamped config ctl + of_nat k * (14 / 100)) \<le> clamped config (run_signals config gs ctl)"
proof (induction k arbitrary: gs ctl)
  case 0
  then show ?case
  proof (induction gs arbitrary: ctl)
    case (Cons g gs)
    let ?ctl = "processSignals config g ctl"
    have "clamped config ctl \<le> currentFactor ?ctl"
      using process_congested(2) [of config g ctl] Cons.prems lim clamp_bounds(2) [OF lim(2), of "currentFactor ctl"]
      by (auto split: if_splits)
    then have "clamped config ctl \<le> clamped config ?ctl"
      using process_factor [OF lim(2), of g ctl] by (simp add: clamp_id factor_within_def)
    moreover have "min (AdaptiveTTLMaxFactor config) (clamped config ?ctl) \<le> clamped config (run_signals config gs ?ctl)"
      using Cons.IH [of ?ctl] Cons.prems process_counters by simp
    moreover have "clamped config ?ctl \<le> AdaptiveTTLMaxFactor config" using clamp_bounds(2) [OF lim(2)] by blast
    ultimately show ?case by simp
  qed simp
next
  case (Suc k)
  then obtain g g' gs' where gs: "gs = g # g' # gs'" by (cases gs; cases "tl gs") auto
  let ?c1 = "processSignals config g ctl" and ?c2 = "processSignals config g' (processSignals config g ctl)"
  let ?hi = "AdaptiveTTLMaxFactor config"
  have cg: "congested config g" "congested config g'" and ok: "counters_ok ?c1" "counters_ok ?c2"
    using Suc.prems gs process_counters by auto
  have w: "clamped config ?c1 = currentFactor ?c1" "clamped config ?c2 = currentFactor ?c2"
    using process_factor [OF lim(2)] by (auto simp: clamp_id factor_within_def)
  have "min ?hi (clamped config ctl + 14 / 100) \<le> clamped config ?c2"
    using process_congested [OF cg(1) Suc.prems(2) lim] process_congested [OF cg(2) ok(1) lim] w Suc.prems(2)
    by (auto simp: counters_ok_def split: if_splits)
  moreover have "min ?hi (clamped config ?c2 + of_nat k * (14 / 100)) \<le> clamped config (run_signals config gs ctl)"
    using Suc.IH [of gs' ?c2] Suc.prems ok gs by simp
  moreover have "0 \<le> of_nat k * (14 / 100 :: rat)" by simp
  moreover have "of_nat (Suc k) * (14 / 100 :: rat) = of_nat k * (14 / 100) + 14 / 100" by (simp add: algebra_simps)
  ultimately show ?case unfolding min_le_iff_disj by linarith
qed

lemma congested_maximum:
  assumes "0 < AdaptiveTTLMinFactor config" and "AdaptiveTTLMinFactor config \<le> AdaptiveTTLMaxFactor config"
    and "AdaptiveTTLMaxFactor config \<le> 1000" and "list_all (congested config) gs" and "gs \<noteq> []"
    and "2 * k \<le> length gs"
    and "AdaptiveTTLMaxFactor config - AdaptiveTTLMinFactor config \<le> of_nat k * (14 / 100)"
    and ok: "counters_ok ctl"
  shows "currentFactor (run_signals config gs ctl) = AdaptiveTTLMaxFactor config"
proof -
  have w: "factor_within config (run_signals config gs ctl)" using run_signals_good(2) [OF assms(2) ok assms(5)] .
  have "min (AdaptiveTTLMaxFactor config) (clamped config ctl + of_nat k * (14 / 100)) \<le>
      clamped config (run_signals config gs ctl)"
    by (rule congested_grows [OF assms(1-4) ok assms(6)])
  moreover have "AdaptiveTTLMinFactor config \<le> clamped config ctl" by (rule clamp_bounds(1) [OF assms(2)])
  moreover have "clamped config (run_signals config gs ctl) = currentFactor (run_signals config gs ctl)"
    using w by (simp add: clamp_id factor_within_def)
  ultimately show ?thesis using w assms(7) unfolding factor_within_def min_le_iff_disj by linarith
qed

lemma effective_run:
  "effectiveCacheTTLs E config ctl =
     (let factor = (if AdaptiveTTLEnabled config then clamped config ctl else 1) in
      (f64_to_i64 (float_overflow E) (fmul (f64_of_int (dur_mul (L1TTLSeconds config) second)) factor),
       f64_to_i64 (float_overflow E) (fmul (f64_of_int (dur_mul (L2TTLSeconds config) second)) factor), factor))"
  by (simp add: effectiveCacheTTLs_def Snapshot_def adaptiveTTLInitialFactor_def)

lemma f64_of_int_mono: "a \<le> b \<Longrightarrow> f64_of_int a \<le> f64_of_int b"
  by (simp add: f64_of_int_def rnd_mono)

lemma scaled_ordered:
  assumes "0 \<le> a" "a \<le> b" "0 \<le> f" "in64 (ftrunc (fmul (f64_of_int b) f))"
  shows "0 \<le> f64_to_i64 oor (fmul (f64_of_int a) f) \<and>
    f64_to_i64 oor (fmul (f64_of_int a) f) \<le> f64_to_i64 oor (fmul (f64_of_int b) f)"
proof -
  have "0 \<le> f64_of_int a" using assms(1) by (simp add: f64_of_int_def rnd_nonneg)
  then have a: "0 \<le> fmul (f64_of_int a) f" "fmul (f64_of_int a) f \<le> fmul (f64_of_int b) f"
    using assms f64_of_int_mono [of a b] by (auto simp: fmul_def intro!: rnd_nonneg rnd_mono mult_right_mono)
  then have t: "0 \<le> ftrunc (fmul (f64_of_int a) f)" "ftrunc (fmul (f64_of_int a) f) \<le> ftrunc (fmul (f64_of_int b) f)"
    using ftrunc_mono [of 0 "fmul (f64_of_int a) f"] ftrunc_mono [OF a(2)] by (simp_all add: ftrunc_def)
  then have "in64 (ftrunc (fmul (f64_of_int a) f))" using assms(4) by (simp add: in64_def)
  then show ?thesis using t assms(4) by (simp add: f64_to_i64_def)
qed

lemma scaled_by_one: "\<bar>n\<bar> \<le> 2 ^ 53 \<Longrightarrow> f64_to_i64 oor (fmul (f64_of_int n) 1) = n"
proof -
  assume n: "\<bar>n\<bar> \<le> 2 ^ 53"
  then have "in64 n" by (auto simp: in64_def)
  then show ?thesis using n by (simp add: f64_of_int_exact fmul_def rnd_of_int f64_to_i64_def)
qed


section \<open>The shared state\<close>

definition go_snapshot :: "AdaptiveTTLSnapshot \<Rightarrow> bool" where
  "go_snapshot x \<longleftrightarrow> rnd (Factor x) = Factor x \<and> rnd (LastBackendP99LatencyMs x) = LastBackendP99LatencyMs x \<and>
     in64 (ConsecutiveStableReadings x) \<and> in64 (ConsecutiveCongestedReadings x)"

definition snapshot_valid :: "AdaptiveTTLSnapshot \<Rightarrow> bool" where
  "snapshot_valid x \<longleftrightarrow> 0 < Factor x \<and> SnapState x \<noteq> []"

text \<open>The server publishes the snapshot \<open>x\<close>.\<close>

definition publishes :: "('w, 'v) env \<Rightarrow> 'v view \<Rightarrow> AdaptiveTTLSnapshot \<Rightarrow> bool" where
  "publishes E v x \<longleftrightarrow> (\<exists>d. keys v adaptiveTTLSnapshotRedisKey = Some (d, None) \<and> dec_snapshot E d = Some x)"

lemma publishes_time [simp]: "publishes E (v\<lparr>server_time := t\<rparr>) x = publishes E v x"
  by (simp add: publishes_def)

lemma controller_keys [simp]: "adaptiveTTLSnapshotRedisKey \<noteq> adaptiveTTLControllerLockRedisKey"
  "adaptiveTTLControllerLockRedisKey \<noteq> adaptiveTTLSnapshotRedisKey"
  by (simp_all add: adaptiveTTLSnapshotRedisKey_def adaptiveTTLControllerLockRedisKey_def)

lemma script_same: "releaseAdaptiveTTLControllerLockScript = releaseDistributedLockScript"
  by (simp add: fun_eq_iff releaseAdaptiveTTLControllerLockScript_def releaseDistributedLockScript_def)

lemma releaseControllerLock_same:
  "releaseControllerLock E = releaseDistributedLock E adaptiveTTLControllerLockRedisKey"
  by (simp add: fun_eq_iff releaseControllerLock_def releaseDistributedLock_def script_same
      adaptiveTTLControllerLockReleaseTimeout_def)

lemma controller_run [run]:
  "result controller_snapshot s = Snapshot (controller s)" "exec controller_snapshot s = s"
  "exec (on_controller f) s = s\<lparr>controller := f (controller s)\<rparr>"
  by (simp_all add: controller_snapshot_def on_controller_def result_def exec_def)

lemma redis_controller [simp]:
  "controller (exec (redis E c cmd) s) = controller s"
  "exec (redis E c cmd) (s\<lparr>controller := x\<rparr>) = (exec (redis E c cmd) s)\<lparr>controller := x\<rparr>"
  by (simp_all add: redis_def run)

locale redis_adaptive = redis_lock E vw for E :: "('w, 'v) env" and vw :: "'w \<Rightarrow> 'v view" +
  assumes http_quiet: "vw (exec (http_get_load E c) w) = served vw (http_get_load E c) w"
    and http_time: "time_passes vw (http_get_load E c) w"
    and snapshot_json: "go_snapshot x \<Longrightarrow> \<exists>d. enc_snapshot E x = Some d \<and> dec_snapshot E d = Some x"
begin

lemma controller_attempt:
  "\<exists>t \<ge> server_time (vw (world s)).
    lock_attempt E adaptiveTTLControllerLockRedisKey adaptiveTTLControllerLockTTL
      ((vw (world s))\<lparr>server_time := t\<rparr>) (result (tryAcquireControllerLock E c) s)
      (vw (world (exec (tryAcquireControllerLock E c) s)))"
proof -
  have ttl: "ttl_ok adaptiveTTLControllerLockTTL" by (simp add: ttl_ok_def adaptiveTTLControllerLockTTL_def)
  let ?k = adaptiveTTLControllerLockRedisKey and ?ttl = adaptiveTTLControllerLockTTL
  let ?s1 = "exec (on_world (random_token E)) s"
  obtain u where u: "server_time (vw (world s)) \<le> u" "vw (world ?s1) = (vw (world s))\<lparr>server_time := u\<rparr>"
    using token_view [of "world s"] by (auto simp: run)
  show ?thesis
  proof (cases "result (random_token E) (world s)")
    case None
    then show ?thesis using u
      by (intro exI [of _ u]) (simp add: tryAcquireControllerLock_def newDistributedLockToken_def run attempt_failed)
  next
    case (Some tok)
    let ?m = "redis E c (c_setnx E ?k (string_value E tok) ?ttl)"
    obtain t where t: "u \<le> t" and at: "lock_attempt E ?k ?ttl ((vw (world s))\<lparr>server_time := t\<rparr>)
        (map_sum id (Pair tok) (result ?m ?s1)) (vw (world (exec ?m ?s1)))"
      using setnx_attempt [OF ttl, of ?s1 ?k tok c] u(2) by auto
    have "world (exec (tryAcquireControllerLock E c) s) = world (exec ?m ?s1)"
      using Some by (auto simp: tryAcquireControllerLock_def newDistributedLockToken_def run split: sum.split)
    moreover have "result (tryAcquireControllerLock E c) s = (case result ?m ?s1 of
        Inl err \<Rightarrow> Inl (Wrap ''acquire adaptive TTL controller lock'' err) | Inr a \<Rightarrow> Inr (tok, a))"
      using Some by (auto simp: tryAcquireControllerLock_def newDistributedLockToken_def run split: sum.split)
    moreover have "lock_attempt E ?k ?ttl ((vw (world s))\<lparr>server_time := t\<rparr>) (case result ?m ?s1 of
        Inl err \<Rightarrow> Inl (Wrap ''acquire adaptive TTL controller lock'' err) | Inr a \<Rightarrow> Inr (tok, a)) (vw (world (exec ?m ?s1)))"
      using at by (cases "result ?m ?s1") (simp_all add: attempt_relabel)
    ultimately show ?thesis using t u(1) by (intro exI [of _ t]) simp
  qed
qed

lemma controller_service:
  "lock_service (tryAcquireControllerLock E) (releaseControllerLock E) (lock_clock vw)
     (lock_held E vw adaptiveTTLControllerLockRedisKey)"
  unfolding releaseControllerLock_same
  by (rule lock_service_laws [OF _ controller_attempt release_shape_lock]) (simp add: adaptiveTTLControllerLockTTL_def)

lemma attempt_keeps_controller:
  "controller (exec (tryAcquireControllerLock E c) s) = controller s"
  by (auto simp: tryAcquireControllerLock_def newDistributedLockToken_def run split: option.split sum.split)

lemma load_published:
  assumes rel: "reliable E" and p: "publishes E (vw (world s)) x" and ok: "snapshot_valid x"
  shows "result (loadSharedSnapshot E c) s = Inr x"
    and "\<exists>t. vw (world (exec (loadSharedSnapshot E c) s)) = (vw (world s))\<lparr>server_time := t\<rparr>"
    and "controller (exec (loadSharedSnapshot E c) s) = controller s"
proof -
  obtain d where d: "keys (vw (world s)) adaptiveTTLSnapshotRedisKey = Some (d, None)" "dec_snapshot E d = Some x"
    using p by (auto simp: publishes_def)
  let ?g = "redis E c (c_get E adaptiveTTLSnapshotRedisKey)"
  obtain t where t: "vw (world (exec ?g s)) = (vw (world s))\<lparr>server_time := t\<rparr>"
      "result ?g s = Inr (lookup_at ((vw (world s))\<lparr>server_time := t\<rparr>) adaptiveTTLSnapshotRedisKey)"
    using redis_get [OF rel] by blast
  then have r: "result ?g s = Inr (Some d)" using d(1) by (simp add: lookup_persistent)
  show "result (loadSharedSnapshot E c) s = Inr x"
    using d(2) ok by (simp add: loadSharedSnapshot_def run r decode_snapshot_def snapshot_valid_def)
  show "\<exists>t. vw (world (exec (loadSharedSnapshot E c) s)) = (vw (world s))\<lparr>server_time := t\<rparr>"
    using t(1) by (auto simp: loadSharedSnapshot_def run r)
  show "controller (exec (loadSharedSnapshot E c) s) = controller s"
    by (simp add: loadSharedSnapshot_def run r)
qed

lemma save_publishes:
  assumes rel: "reliable E" and x: "go_snapshot x"
  shows "result (saveSharedSnapshot E c x) s = None"
    and "publishes E (vw (world (exec (saveSharedSnapshot E c x) s))) x"
    and "controller (exec (saveSharedSnapshot E c x) s) = controller s"
proof -
  obtain d where d: "enc_snapshot E x = Some d" "dec_snapshot E d = Some x" using snapshot_json [OF x] by blast
  show "result (saveSharedSnapshot E c x) s = None"
    using d(1) by (simp add: saveSharedSnapshot_def run redis_delivered(1) [OF rel])
  show "controller (exec (saveSharedSnapshot E c x) s) = controller s"
    using d(1) by (simp add: saveSharedSnapshot_def run redis_delivered(1) [OF rel])
  obtain t where "vw (world (exec (redis E c (c_set E adaptiveTTLSnapshotRedisKey d 0)) s)) =
      put_key adaptiveTTLSnapshotRedisKey d None ((vw (world s))\<lparr>server_time := t\<rparr>)"
    using redis_set [OF rel, of 0] by fastforce
  then show "publishes E (vw (world (exec (saveSharedSnapshot E c x) s))) x"
    using d by (simp add: saveSharedSnapshot_def run redis_delivered(1) [OF rel] publishes_def)
qed

lemma release_keeps:
  "publishes E (vw (world s)) x \<Longrightarrow> publishes E (vw (world (exec (releaseControllerLock E tok) s))) x"
  "controller (exec (releaseControllerLock E tok) s) = controller s"
proof -
  obtain t1 t2 where "vw (world (exec (releaseControllerLock E tok) s)) = (vw (world s))\<lparr>server_time := t2\<rparr> \<or>
      vw (world (exec (releaseControllerLock E tok) s)) =
        (del_keys [adaptiveTTLControllerLockRedisKey] (vw (world s)))\<lparr>server_time := t2\<rparr>"
    using release_shape_lock [of adaptiveTTLControllerLockRedisKey tok s]
    unfolding releaseControllerLock_same release_shape_def by blast
  then show "publishes E (vw (world s)) x \<Longrightarrow> publishes E (vw (world (exec (releaseControllerLock E tok) s))) x"
    by (auto simp: publishes_def)
  show "controller (exec (releaseControllerLock E tok) s) = controller s"
    by (simp add: releaseControllerLock_def run with_timeout_def)
qed

lemma attempt_publishes:
  assumes "publishes E (vw (world s)) x"
  shows "publishes E (vw (world (exec (tryAcquireControllerLock E c) s))) x"
proof -
  obtain t where "lock_attempt E adaptiveTTLControllerLockRedisKey adaptiveTTLControllerLockTTL
      ((vw (world s))\<lparr>server_time := t\<rparr>) (result (tryAcquireControllerLock E c) s)
      (vw (world (exec (tryAcquireControllerLock E c) s)))" using controller_attempt by blast
  then show ?thesis using assms by cases (auto simp: publishes_def)
qed

text \<open>A gateway without the lock adopts what is published, and publishes nothing.\<close>

lemma follower_adopts:
  assumes rel: "reliable E" and p: "publishes E (vw (world s)) x" "snapshot_valid x"
    and busy: "result (tryAcquireControllerLock E c) s = Inr (tok, False)"
  shows "result (updateSharedState E c config) s = None \<and>
    controller (exec (updateSharedState E c config) s) = applySnapshot x (controller s) \<and>
    keys (vw (world (exec (updateSharedState E c config) s))) = keys (vw (world s))"
proof -
  let ?s1 = "exec (tryAcquireControllerLock E c) s"
  obtain t where at: "lock_attempt E adaptiveTTLControllerLockRedisKey adaptiveTTLControllerLockTTL
      ((vw (world s))\<lparr>server_time := t\<rparr>) (Inr (tok, False)) (vw (world ?s1))"
    using controller_attempt [of s c] busy by auto
  then have v1: "vw (world ?s1) = (vw (world s))\<lparr>server_time := t\<rparr>"
    by (cases rule: lock_attempt_busyE) simp
  then have "publishes E (vw (world ?s1)) x" using p(1) by simp
  note ld = load_published [OF rel this p(2), of c]
  then show ?thesis
    by (auto simp: updateSharedState_def run busy synchronizeFromRedis_def attempt_keeps_controller v1)
qed

lemma process_go_snapshot:
  assumes "rnd (AdaptiveTTLMinFactor config) = AdaptiveTTLMinFactor config"
    "rnd (AdaptiveTTLMaxFactor config) = AdaptiveTTLMaxFactor config" "rnd (P99LatencyMs g) = P99LatencyMs g"
    "go_snapshot (Snapshot ctl)"
  shows "go_snapshot (Snapshot (processSignals config g ctl))"
proof -
  have cl: "rnd (clampAdaptiveTTLFactor f (AdaptiveTTLMinFactor config) (AdaptiveTTLMaxFactor config)) =
      clampAdaptiveTTLFactor f (AdaptiveTTLMinFactor config) (AdaptiveTTLMaxFactor config)" if "rnd f = f" for f
    using that assms(1,2) by (simp add: clampAdaptiveTTLFactor_def)
  have z: "in64 0" by (simp add: in64_def)
  show ?thesis using assms cl z
    by (auto simp: go_snapshot_def Snapshot_def processSignals_def react_def Let_def fadd_def fsub_def split: prod.split)
qed

text \<open>The gateway with the lock applies the control law to what was published, and publishes the result.\<close>

lemma owner_publishes:
  assumes rel: "reliable E" and p: "publishes E (vw (world s)) x" "snapshot_valid x" "go_snapshot x"
    and won: "result (tryAcquireControllerLock E c) s = Inr (tok, True)"
    and on: "AdaptiveTTLEnabled config" "go_config config"
    and http: "\<And>w. result (http_get_load E c) w = Inr (200, Some g)" "rnd (P99LatencyMs g) = P99LatencyMs g"
  defines "ctl \<equiv> processSignals config g (applySnapshot x (controller s))"
  shows "result (updateSharedState E c config) s = None \<and>
    controller (exec (updateSharedState E c config) s) = ctl \<and>
    publishes E (vw (world (exec (updateSharedState E c config) s))) (Snapshot ctl)"
proof -
  let ?s1 = "exec (tryAcquireControllerLock E c) s"
  have p1: "publishes E (vw (world ?s1)) x" using attempt_publishes [OF p(1)] .
  note ld = load_published [OF rel p1 p(2), of c]
  let ?s2 = "(exec (loadSharedSnapshot E c) ?s1)\<lparr>controller := applySnapshot x (controller s)\<rparr>"
  let ?s3 = "?s2\<lparr>world := exec (http_get_load E c) (world ?s2)\<rparr>"
  have rd: "result (readBackendLoadSignals E c) ?s2 = Inr g" "exec (readBackendLoadSignals E c) ?s2 = ?s3"
    using http(1) by (simp_all add: readBackendLoadSignals_def run)
  have x_eq: "Snapshot (applySnapshot x (controller s)) = x" by (simp add: Snapshot_def applySnapshot_def)
  have go: "go_snapshot (Snapshot ctl)"
    unfolding ctl_def using on(2) http(2) p(3) by (intro process_go_snapshot) (simp_all add: go_config_def x_eq)
  let ?s4 = "?s3\<lparr>controller := ctl\<rparr>"
  note sv = save_publishes [OF rel go, of c ?s4]
  let ?s5 = "exec (saveSharedSnapshot E c (Snapshot ctl)) ?s4"
  have owner: "result (update_as_owner E c config) ?s1 = None" "exec (update_as_owner E c config) ?s1 = ?s5"
    using ld(1,3) on(1) rd sv(1)
    by (simp_all add: update_as_owner_def run attempt_keeps_controller ctl_def)
  have "result (updateSharedState E c config) s = None"
      "exec (updateSharedState E c config) s = exec (releaseControllerLock E tok) ?s5"
    using won owner by (simp_all add: updateSharedState_def run)
  then show ?thesis using release_keeps(1) [OF sv(2)] release_keeps(2) [of tok ?s5] sv(3) by simp
qed

end

section \<open>Properties\<close>

text \<open>
  C29. Whatever loads a controller reads from its start on, its factor is between the configured
  bounds, its counters stay below what they trigger at and are never both running, and its
  state is the classification of the last reading.
\<close>

theorem adaptive_invariant:
  assumes "AdaptiveTTLMinFactor config \<le> AdaptiveTTLMaxFactor config"
  shows "let ctl = run_signals config (gs @ [g]) NewAdaptiveTTLController in
    factor_within config ctl \<and> counters_ok ctl \<and> currentState ctl = fst (classifyBackendLoad config g)"
proof -
  have "counters_ok NewAdaptiveTTLController" by (simp add: counters_ok_def NewAdaptiveTTLController_def)
  from run_signals_good [OF assms this, of "gs @ [g]"] show ?thesis
    by (simp add: Let_def run_signals_def process_state)
qed

text \<open>
  More load never makes the controller see less of it: with at least as many samples, as
  high a latency and as many active requests, the state is at least as severe (stable, warning,
  congested), although the thresholds of the stable state are computed in rounded arithmetic.
\<close>

theorem classification_monotone:
  assumes "SampleCount g \<le> SampleCount h" and "P99LatencyMs g \<le> P99LatencyMs h"
    and "ActiveRequests g \<le> ActiveRequests h"
  shows "severity (fst (classifyBackendLoad config g)) \<le> severity (fst (classifyBackendLoad config h))"
  using assms f64_of_int_mono [OF assms(3)] by (auto simp: classifyBackendLoad_def Let_def severity_def)

text \<open>
  Lasting congestion drives the factor to its maximum: every two congested readings raise it
  by at least 0.14 in float64 arithmetic, whatever the controller's earlier readings were.
\<close>

theorem congestion_reaches_maximum:
  assumes "0 < AdaptiveTTLMinFactor config" and "AdaptiveTTLMinFactor config \<le> AdaptiveTTLMaxFactor config"
    and "AdaptiveTTLMaxFactor config \<le> 1000" and "list_all (congested config) gs" and "gs \<noteq> []"
    and "2 * k \<le> length gs"
    and "AdaptiveTTLMaxFactor config - AdaptiveTTLMinFactor config \<le> of_nat k * (14 / 100)"
  shows "currentFactor (run_signals config gs (run_signals config before NewAdaptiveTTLController)) =
    AdaptiveTTLMaxFactor config"
proof -
  have "counters_ok NewAdaptiveTTLController" by (simp add: counters_ok_def NewAdaptiveTTLController_def)
  then show ?thesis using congested_maximum [OF assms] run_signals_good(1) [OF assms(2)] by blast
qed

text \<open>
  C37. Scaling keeps the two times to live in order: if L1's is not longer than L2's in the
  configuration, the effective ones are not negative and in the same order, as long as L2's is
  in the range of a duration.
\<close>

theorem effective_ttls_ordered:
  assumes "0 \<le> L1TTLSeconds config" and "L1TTLSeconds config \<le> L2TTLSeconds config"
    and "in64 (L2TTLSeconds config * second)"
    and "0 < AdaptiveTTLMinFactor config" and "AdaptiveTTLMinFactor config \<le> AdaptiveTTLMaxFactor config"
    and "effectiveCacheTTLs E config ctl = (ttlL1, ttlL2, factor)"
    and "in64 (ftrunc (fmul (f64_of_int (L2TTLSeconds config * second)) factor))"
  shows "0 \<le> ttlL1 \<and> ttlL1 \<le> ttlL2"
proof -
  let ?a = "L1TTLSeconds config * second" and ?b = "L2TTLSeconds config * second"
  have ab: "0 \<le> ?a" "?a \<le> ?b" using assms(1,2) by simp_all
  then have d: "dur_mul (L1TTLSeconds config) second = ?a" "dur_mul (L2TTLSeconds config) second = ?b"
    using assms(3) by (auto intro!: dur_mul_exact simp: in64_def)
  have "0 \<le> factor"
    using assms(4-6) clamp_bounds(1) [OF assms(5), of "currentFactor ctl"]
    by (auto simp: effective_run Let_def split: if_splits)
  from scaled_ordered [OF ab this assms(7), of "float_overflow E"] show ?thesis
    using assms(6) by (auto simp: effective_run Let_def d)
qed

text \<open>
  With the controller switched off, the times to live are exactly the configured ones.
\<close>

theorem disabled_ttls_exact:
  assumes "\<not> AdaptiveTTLEnabled config" and "\<bar>L1TTLSeconds config * second\<bar> \<le> 2 ^ 53"
    and "\<bar>L2TTLSeconds config * second\<bar> \<le> 2 ^ 53"
  shows "effectiveCacheTTLs E config ctl = (L1TTLSeconds config * second, L2TTLSeconds config * second, 1)"
proof -
  have "in64 (L1TTLSeconds config * second)" "in64 (L2TTLSeconds config * second)"
    using assms(2,3) by (auto simp: in64_def)
  then show ?thesis using assms scaled_by_one by (simp add: effective_run dur_mul_exact)
qed

text \<open>
  At any time at most one gateway holds an unexpired lease of the controller lock, so at
  most one publishes a factor.
\<close>

theorem controller_lock_exclusive:
  assumes "redis_adaptive E vw"
    and "reaches lock_start (lock_step (tryAcquireControllerLock E) (releaseControllerLock E) (lock_clock vw)
      (lock_held E vw adaptiveTTLControllerLockRedisKey)) (s, used, own)"
    and "own i = Some (tok, e)" and "lock_clock vw s < e"
    and "own j = Some (tok', e')" and "lock_clock vw s < e'"
  shows "i = j"
  by (rule lock_service.mutual_exclusion [OF redis_adaptive.controller_service [OF assms(1)] assms(2-6)])

text \<open>
  The gateway that gets the controller lock applies the control law to the published
  snapshot and the backend's load, whatever its own state was, and publishes the result.
\<close>

theorem adaptive_owner_publishes:
  assumes "redis_adaptive E vw" and "reliable E" and "publishes E (vw (world s)) x" and "snapshot_valid x"
    and "go_snapshot x" and "result (tryAcquireControllerLock E c) s = Inr (tok, True)"
    and "AdaptiveTTLEnabled config" and "go_config config"
    and "\<And>w. result (http_get_load E c) w = Inr (200, Some g)" and "rnd (P99LatencyMs g) = P99LatencyMs g"
  shows "let ctl = processSignals config g (applySnapshot x (controller s)) in
    result (updateSharedState E c config) s = None \<and>
    controller (exec (updateSharedState E c config) s) = ctl \<and>
    publishes E (vw (world (exec (updateSharedState E c config) s))) (Snapshot ctl)"
  using redis_adaptive.owner_publishes [OF assms] by (simp add: Let_def)

text \<open>
  A gateway that does not get the controller lock takes over the published snapshot as its
  own state and writes nothing to Redis.
\<close>

theorem adaptive_follower_adopts:
  assumes "redis_adaptive E vw" and "reliable E" and "publishes E (vw (world s)) x" and "snapshot_valid x"
    and "result (tryAcquireControllerLock E c) s = Inr (tok, False)"
  shows "result (updateSharedState E c config) s = None \<and>
    Snapshot (controller (exec (updateSharedState E c config) s)) = x \<and>
    keys (vw (world (exec (updateSharedState E c config) s))) = keys (vw (world s))"
  using redis_adaptive.follower_adopts [OF assms] by (simp add: Snapshot_def applySnapshot_def)

section \<open>Witnesses\<close>

lemma mini_http: "mini_view (exec (http_get_load mini_env c) w) = served mini_view (http_get_load mini_env c) w"
  "time_passes mini_view (http_get_load mini_env c) w"
  by (simp_all add: mini_laws run)

interpretation mini_adaptive: redis_adaptive mini_env mini_view
  by unfold_locales (auto simp: mini_http)

text \<open>The contract of a lock, on the controller's own operations.\<close>

interpretation mini_controller_lock: lock_service "tryAcquireControllerLock mini_env" "releaseControllerLock mini_env"
  "lock_clock mini_view" "lock_held mini_env mini_view adaptiveTTLControllerLockRedisKey"
  by (rule mini_adaptive.controller_service)

definition busy_load :: BackendLoadSignals where
  "busy_load = \<lparr>P99LatencyMs = 900, ActiveRequests = 15, MaxConcurrentRequests = 15, SampleCount = 40\<rparr>"

definition idle_load :: BackendLoadSignals where
  "idle_load = \<lparr>P99LatencyMs = 210, ActiveRequests = 1, MaxConcurrentRequests = 15, SampleCount = 40\<rparr>"

definition published :: mini where
  "published = empty_mini\<lparr>m_load := busy_load,
     m_keys := [adaptiveTTLSnapshotRedisKey \<mapsto> (MSnapshot (resetSnapshot True), None)]\<rparr>"

definition csys_at :: "mini \<Rightarrow> mini csys" where
  "csys_at m = \<lparr>world = m, metrics = [], controller = NewAdaptiveTTLController\<rparr>"

lemma csys_at_simps [simp]: "world (csys_at m) = m" "controller (csys_at m) = NewAdaptiveTTLController"
  by (simp_all add: csys_at_def)

lemma published_ok: "publishes mini_env (mini_view (world (csys_at published))) (resetSnapshot True)"
  "snapshot_valid (resetSnapshot True)" "go_snapshot (resetSnapshot True)"
  using rnd_of_int [of 1]
  by (simp_all add: publishes_def published_def mini_view_def snapshot_valid_def resetSnapshot_def
      adaptiveTTLInitialFactor_def state_names go_snapshot_def in64_def)

lemma sample_factors: "AdaptiveTTLMinFactor sample_config = 1 / 2" "AdaptiveTTLMaxFactor sample_config = 4"
  "AdaptiveTTLEnabled sample_config"
  by (simp_all add: sample_config_def)

lemma busy_congested: "congested sample_config busy_load"
  by (simp add: congested_def busy_load_def sample_config_def)

theorem adaptive_invariant_witness:
  "factor_within sample_config (run_signals sample_config ([idle_load] @ [busy_load]) NewAdaptiveTTLController)"
  using adaptive_invariant [of sample_config "[idle_load]" busy_load] by (simp add: sample_factors Let_def del: run_signals_simps)

theorem classification_monotone_witness:
  "severity (fst (classifyBackendLoad sample_config idle_load)) \<le> severity (fst (classifyBackendLoad sample_config busy_load))"
  by (rule classification_monotone) (simp_all add: idle_load_def busy_load_def)

theorem congestion_reaches_maximum_witness:
  "currentFactor (run_signals sample_config (replicate 50 busy_load) (run_signals sample_config [idle_load]
     NewAdaptiveTTLController)) = 4"
  using congestion_reaches_maximum [of sample_config "replicate 50 busy_load" 25 "[idle_load]"] busy_congested
  by (simp add: sample_factors list_all_iff del: run_signals_simps)

theorem disabled_ttls_exact_witness:
  "effectiveCacheTTLs mini_env (sample_config\<lparr>AdaptiveTTLEnabled := False\<rparr>) NewAdaptiveTTLController =
     (10 * second, 30 * second, 1)"
  using disabled_ttls_exact [of "sample_config\<lparr>AdaptiveTTLEnabled := False\<rparr>" mini_env NewAdaptiveTTLController]
  by (simp add: sample_config_def)

theorem effective_ttls_ordered_witness:
  "\<exists>ttlL1 ttlL2 factor. effectiveCacheTTLs mini_env sample_config NewAdaptiveTTLController = (ttlL1, ttlL2, factor) \<and>
     0 \<le> ttlL1 \<and> ttlL1 \<le> ttlL2"
proof -
  have f: "clamped sample_config NewAdaptiveTTLController = 1"
    by (simp add: clampAdaptiveTTLFactor_def sample_factors NewAdaptiveTTLController_def adaptiveTTLInitialFactor_def)
  obtain a b where e: "effectiveCacheTTLs mini_env sample_config NewAdaptiveTTLController = (a, b, 1)"
    by (simp add: effective_run sample_factors f [unfolded sample_factors] Let_def)
  have l2: "L2TTLSeconds sample_config * second = 30000000000" by (simp add: sample_config_def)
  have "fmul (f64_of_int 30000000000) 1 = of_int 30000000000"
    using rnd_of_int [of 30000000000] by (simp add: fmul_def f64_of_int_def)
  then have "ftrunc (fmul (f64_of_int (L2TTLSeconds sample_config * second)) 1) = 30000000000"
    unfolding l2 by (simp only: ftrunc_of_int)
  then have "0 \<le> a \<and> a \<le> b"
    by (intro effective_ttls_ordered [OF _ _ _ _ _ e]) (simp_all add: sample_config_def in64_def)
  with e show ?thesis by blast
qed

theorem controller_lock_exclusive_witness:
  "\<exists>(s :: mini csys) used own e. reaches lock_start (lock_step (tryAcquireControllerLock mini_env)
      (releaseControllerLock mini_env) (lock_clock mini_view)
      (lock_held mini_env mini_view adaptiveTTLControllerLockRedisKey)) (s, used, own) \<and>
     own 0 = Some (token_name 1, e) \<and> lock_clock mini_view s < e \<and>
     (\<forall>j tok' e'. own j = Some (tok', e') \<and> lock_clock mini_view s < e' \<longrightarrow> j = (0::nat))"
proof -
  let ?acq = "tryAcquireControllerLock mini_env" and ?rel = "releaseControllerLock mini_env"
  let ?ck = "lock_clock mini_view" and ?h = "lock_held mini_env mini_view adaptiveTTLControllerLockRedisKey"
  let ?s0 = "csys_at empty_mini" and ?own = "[0 \<mapsto> (token_name 1, 5 * second)] :: nat \<Rightarrow> (string \<times> time) option"
  let ?s1 = "exec (?acq RequestCtx) ?s0"
  have r: "result (?acq RequestCtx) ?s0 = Inr (token_name 1, True)"
    by (simp add: tryAcquireControllerLock_def lock_eval)
  have h: "?h ?s1 (token_name 1) (5 * second)" and ck: "?ck ?s1 < 5 * second"
    by (simp_all add: tryAcquireControllerLock_def lock_eval adaptiveTTLControllerLockTTL_def)
  have "reaches lock_start (lock_step ?acq ?rel ?ck ?h) (?s0, {}, Map.empty)"
    by (rule reach_start) (simp add: lock_start_def)
  moreover have "lock_step ?acq ?rel ?ck ?h (?s0, {}, Map.empty) (?s1, {token_name 1}, ?own)"
    by (rule lock_acquire [where acq = ?acq and c = RequestCtx and held = ?h]) (use r h in simp_all)
  ultimately have re: "reaches lock_start (lock_step ?acq ?rel ?ck ?h) (?s1, {token_name 1}, ?own)"
    by (rule reach_step)
  have "j = 0" if "?own j = Some (tok', e')" "?ck ?s1 < e'" for j tok' e'
    by (rule controller_lock_exclusive [OF mini_adaptive.redis_adaptive_axioms re that, where j = 0]) (use ck in simp_all)
  then have "\<forall>j tok' e'. ?own j = Some (tok', e') \<and> ?ck ?s1 < e' \<longrightarrow> j = 0" by blast
  moreover have "?own 0 = Some (token_name 1, 5 * second)" by simp
  ultimately show ?thesis using re ck by (intro exI conjI) assumption+
qed

lemma published_lock: "result (tryAcquireControllerLock mini_env Background) (csys_at published) = Inr (token_name 1, True)"
  by (simp add: tryAcquireControllerLock_def lock_eval published_def)

text \<open>The small server with a backend whose load stays as it is.\<close>

definition busy_env :: "(mini, mval) env" where
  "busy_env = mini_env\<lparr>http_get_load := (\<lambda>c. ret (Inr (200, Some busy_load)))\<rparr>"

lemma adaptive_any_load:
  assumes "redis_adaptive E vw"
  shows "redis_adaptive (E\<lparr>http_get_load := (\<lambda>c. ret r)\<rparr>) vw"
proof -
  have "redis_lock (E\<lparr>http_get_load := (\<lambda>c. ret r)\<rparr>) vw"
    using assms unfolding redis_adaptive_def redis_lock_def redis_strings_def redis_lock_axioms_def by simp
  moreover have "redis_adaptive_axioms (E\<lparr>http_get_load := (\<lambda>c. ret r)\<rparr>) vw"
    using assms unfolding redis_adaptive_def redis_adaptive_axioms_def
    by (simp add: served_def time_passes_def exec_return)
  ultimately show ?thesis by (simp add: redis_adaptive_def)
qed

lemma busy_adaptive: "redis_adaptive busy_env mini_view"
  unfolding busy_env_def by (rule adaptive_any_load [OF mini_adaptive.redis_adaptive_axioms])

lemma busy_publishes: "publishes busy_env v x = publishes mini_env v x"
  by (simp add: publishes_def busy_env_def)

lemma busy_reliable: "reliable busy_env"
  using mini_reliable by (simp add: reliable_def busy_env_def)

lemma busy_fields: "c_setnx busy_env = c_setnx mini_env" "string_value busy_env = string_value mini_env"
  "random_token busy_env = random_token mini_env" "redis busy_env = redis mini_env"
  by (simp_all add: busy_env_def fun_eq_iff redis_def redis_do_def)

lemma busy_acquire: "tryAcquireControllerLock busy_env = tryAcquireControllerLock mini_env"
  unfolding fun_eq_iff tryAcquireControllerLock_def newDistributedLockToken_def busy_fields by simp

lemma busy_read: "result (http_get_load busy_env c) w = Inr (200, Some busy_load)"
  by (simp add: busy_env_def run)

theorem adaptive_owner_publishes_witness:
  "\<exists>ctl. currentState ctl = AdaptiveTTLStateCongested \<and> publishes mini_env (mini_view (world
     (exec (updateSharedState busy_env Background sample_config) (csys_at published)))) (Snapshot ctl)"
proof -
  let ?ctl = "processSignals sample_config busy_load (applySnapshot (resetSnapshot True) NewAdaptiveTTLController)"
  have "rnd 900 = 900" using rnd_of_int [of 900] by simp
  then have p99: "rnd (P99LatencyMs busy_load) = P99LatencyMs busy_load" by (simp add: busy_load_def)
  have "publishes busy_env (mini_view (world
      (exec (updateSharedState busy_env Background sample_config) (csys_at published)))) (Snapshot ?ctl)"
    using adaptive_owner_publishes [OF busy_adaptive busy_reliable _ published_ok(2,3) _ sample_factors(3)
        sample_config_go(1) busy_read p99, of "csys_at published" Background "token_name 1"]
      published_ok(1) published_lock
    by (simp add: busy_publishes busy_acquire Let_def)
  moreover have "currentState ?ctl = AdaptiveTTLStateCongested"
    using busy_congested classify_congested by (simp add: process_state)
  ultimately show ?thesis unfolding busy_publishes by blast
qed

theorem adaptive_follower_adopts_witness:
  "let s = exec (tryAcquireControllerLock mini_env Background) (csys_at published) in
   Snapshot (controller (exec (updateSharedState mini_env Background sample_config) s)) = resetSnapshot True"
proof -
  let ?s = "exec (tryAcquireControllerLock mini_env Background) (csys_at published)"
  have p: "publishes mini_env (mini_view (world ?s)) (resetSnapshot True)"
    by (rule mini_adaptive.attempt_publishes [OF published_ok(1)])
  have "result (tryAcquireControllerLock mini_env Background) ?s = Inr (token_name 2, False)"
    by (simp add: tryAcquireControllerLock_def lock_eval published_def adaptiveTTLControllerLockTTL_def
        numeral_2_eq_2)
  from adaptive_follower_adopts [OF mini_adaptive.redis_adaptive_axioms mini_reliable p published_ok(2) this]
  show ?thesis by (simp add: Let_def)
qed

end
