(* ===== verification/Response_Writer.thy ===== *)
theory Response_Writer
  imports Backend_Fetcher
begin

text \<open>
  What a handler does to its response. \<open>ResponseWriter\<close> of \<open>gateway/response_writer.go\<close> wraps
  the server's writer and remembers the first status; \<open>sent\<close> is what reaches the server's writer.
  The server's writer panics on a status that is not three digits long.
\<close>

datatype http_call = SetHeader string string | HeaderCode int | Body string

record ResponseWriter =
  statusCode :: int
  wroteHeader :: bool
  sent :: "http_call list"

definition newResponseWriter :: ResponseWriter where
  "newResponseWriter = \<lparr>statusCode = StatusOK, wroteHeader = False, sent = []\<rparr>"

definition valid_status :: "int \<Rightarrow> bool" where
  "valid_status code \<longleftrightarrow> 100 \<le> code \<and> code \<le> 999"

definition rwWriteHeader :: "int \<Rightarrow> ResponseWriter \<Rightarrow> unit go \<times> ResponseWriter" where
  "rwWriteHeader code rw =
     (if wroteHeader rw then (Ret (), rw)
      else let rw = rw\<lparr>statusCode := code, wroteHeader := True\<rparr>
        in if valid_status code then (Ret (), rw\<lparr>sent := sent rw @ [HeaderCode code]\<rparr>) else (Panic, rw))"

definition rwWrite :: "string \<Rightarrow> ResponseWriter \<Rightarrow> ResponseWriter" where
  "rwWrite data rw =
     (let rw = (if \<not> wroteHeader rw then snd (rwWriteHeader StatusOK rw) else rw)
      in rw\<lparr>sent := sent rw @ [Body data]\<rparr>)"

text \<open>\<open>http.Error\<close> with the statuses the gateway uses; it also resets the content type.\<close>

definition rwError :: "string \<Rightarrow> int \<Rightarrow> ResponseWriter \<Rightarrow> unit go \<times> ResponseWriter" where
  "rwError msg code rw =
     (let rw = rw\<lparr>sent := sent rw @ [SetHeader ''Content-Type'' ''text/plain; charset=utf-8'']\<rparr> in
      case rwWriteHeader code rw of
        (Panic, rw) \<Rightarrow> (Panic, rw)
      | (Ret _, rw) \<Rightarrow> (Ret (), rwWrite (error_body msg) rw))"

section \<open>The status a client sees\<close>

definition status_sent :: "ResponseWriter \<Rightarrow> int option" where
  "status_sent rw = (case filter (\<lambda>a. \<exists>c. a = HeaderCode c) (sent rw) of
       HeaderCode c # _ \<Rightarrow> Some c | _ \<Rightarrow> None)"

definition body_sent :: "ResponseWriter \<Rightarrow> string" where
  "body_sent rw = concat (map (\<lambda>a. case a of Body d \<Rightarrow> d | _ \<Rightarrow> []) (sent rw))"

text \<open>The wrapper's record agrees with what was sent, and a header is sent at most once and first.\<close>

definition rw_ok :: "ResponseWriter \<Rightarrow> bool" where
  "rw_ok rw \<longleftrightarrow> (\<exists>hs bs. (\<forall>a \<in> set hs. \<exists>k v. a = SetHeader k v) \<and> (\<forall>a \<in> set bs. \<forall>c. a \<noteq> HeaderCode c) \<and>
     (if wroteHeader rw \<and> valid_status (statusCode rw) then sent rw = hs @ [HeaderCode (statusCode rw)] @ bs
      else if wroteHeader rw then sent rw = hs @ bs
      else sent rw = hs \<and> statusCode rw = StatusOK))"

datatype rw_call = CallHeader int | CallWrite string | CallError string int | CallSet string string

fun rw_step :: "rw_call \<Rightarrow> ResponseWriter \<Rightarrow> ResponseWriter" where
  "rw_step (CallHeader c) rw = snd (rwWriteHeader c rw)"
| "rw_step (CallWrite d) rw = rwWrite d rw"
| "rw_step (CallError m c) rw = snd (rwError m c rw)"
| "rw_step (CallSet k v) rw = rw\<lparr>sent := sent rw @ [SetHeader k v]\<rparr>"

lemma rw_okI:
  assumes "\<forall>a \<in> set hs. \<exists>k v. a = SetHeader k v" and "\<forall>a \<in> set bs. \<forall>c. a \<noteq> HeaderCode c"
    and "if wroteHeader rw \<and> valid_status (statusCode rw) then sent rw = hs @ [HeaderCode (statusCode rw)] @ bs
      else if wroteHeader rw then sent rw = hs @ bs else sent rw = hs \<and> statusCode rw = StatusOK"
  shows "rw_ok rw"
  using assms unfolding rw_ok_def by blast

lemma rw_ok_new: "rw_ok newResponseWriter"
  by (rule rw_okI [of "[]" "[]"]) (simp_all add: newResponseWriter_def)

lemma rw_ok_append:
  assumes "rw_ok rw" and "\<forall>c. a \<noteq> HeaderCode c" and "wroteHeader rw \<or> (\<exists>k v. a = SetHeader k v)"
  shows "rw_ok (rw\<lparr>sent := sent rw @ [a]\<rparr>)"
proof -
  obtain hs bs where h: "\<forall>a \<in> set hs. \<exists>k v. a = SetHeader k v" "\<forall>a \<in> set bs. \<forall>c. a \<noteq> HeaderCode c"
    "if wroteHeader rw \<and> valid_status (statusCode rw) then sent rw = hs @ [HeaderCode (statusCode rw)] @ bs
      else if wroteHeader rw then sent rw = hs @ bs else sent rw = hs \<and> statusCode rw = StatusOK"
    using assms(1) unfolding rw_ok_def by blast
  show ?thesis
  proof (cases "wroteHeader rw")
    case True
    show ?thesis by (rule rw_okI [of hs "bs @ [a]"]) (use h assms(2) True in \<open>auto split: if_splits\<close>)
  next
    case False
    show ?thesis by (rule rw_okI [of "hs @ [a]" bs]) (use h assms(2,3) False in auto)
  qed
qed

lemma rw_ok_header: "rw_ok rw \<Longrightarrow> rw_ok (snd (rwWriteHeader c rw))"
proof (cases "wroteHeader rw")
  case False
  assume "rw_ok rw"
  then obtain hs where "\<forall>a \<in> set hs. \<exists>k v. a = SetHeader k v" "sent rw = hs"
    using False unfolding rw_ok_def by auto
  then show ?thesis using False by (intro rw_okI [of hs "[]"]) (auto simp: rwWriteHeader_def Let_def)
qed (simp add: rwWriteHeader_def)

lemma wroteHeader_header [simp]: "wroteHeader (snd (rwWriteHeader c rw))"
  by (simp add: rwWriteHeader_def Let_def)

lemma rw_ok_write: "rw_ok rw \<Longrightarrow> rw_ok (rwWrite d rw)"
  unfolding rwWrite_def Let_def by (rule rw_ok_append) (auto intro: rw_ok_header)

lemma rw_ok_error: "rw_ok rw \<Longrightarrow> rw_ok (snd (rwError m c rw))"
proof -
  assume ok: "rw_ok rw"
  let ?rw = "rw\<lparr>sent := sent rw @ [SetHeader ''Content-Type'' ''text/plain; charset=utf-8'']\<rparr>"
  have "rw_ok (snd (rwWriteHeader c ?rw))" by (intro rw_ok_header rw_ok_append ok) auto
  then show ?thesis
    by (cases "rwWriteHeader c ?rw") (auto simp: rwError_def rw_ok_write split: go.split)
qed

lemma rw_ok_step: "rw_ok rw \<Longrightarrow> rw_ok (rw_step a rw)"
  by (cases a) (auto intro: rw_ok_header rw_ok_write rw_ok_error rw_ok_append)

lemma rw_ok_run: "rw_ok rw \<Longrightarrow> rw_ok (fold rw_step as rw)"
  by (induction as arbitrary: rw) (simp_all add: rw_ok_step)

lemma status_sent_ok:
  assumes "rw_ok rw"
  shows "status_sent rw = (if wroteHeader rw \<and> valid_status (statusCode rw) then Some (statusCode rw) else None)"
proof -
  obtain hs bs where h: "\<forall>a \<in> set hs. \<exists>k v. a = SetHeader k v" "\<forall>a \<in> set bs. \<forall>c. a \<noteq> HeaderCode c"
    "if wroteHeader rw \<and> valid_status (statusCode rw) then sent rw = hs @ [HeaderCode (statusCode rw)] @ bs
      else if wroteHeader rw then sent rw = hs @ bs else sent rw = hs \<and> statusCode rw = StatusOK"
    using assms unfolding rw_ok_def by blast
  have "filter (\<lambda>a. \<exists>c. a = HeaderCode c) hs = []" "filter (\<lambda>a. \<exists>c. a = HeaderCode c) bs = []"
    using h(1,2) by (auto simp: filter_empty_conv)
  then show ?thesis using h(3) by (auto simp: status_sent_def split: if_splits)
qed

lemma status_first: "wroteHeader rw \<Longrightarrow> statusCode (rw_step a rw) = statusCode rw \<and> wroteHeader (rw_step a rw)"
  by (cases a) (auto simp: rwWriteHeader_def rwWrite_def rwError_def Let_def)

lemma status_kept: "wroteHeader rw \<Longrightarrow> statusCode (fold rw_step as rw) = statusCode rw"
proof (induction as arbitrary: rw)
  case (Cons a as)
  then show ?case using status_first [of rw a] by simp
qed simp

section \<open>Properties\<close>

text \<open>
  Whatever a handler calls, the wrapper forwards at most one status, before any of the
  body, and the status it remembers is the one the client gets (200 when none was set).
\<close>

theorem response_status_recorded:
  "let rw = fold rw_step as newResponseWriter in
   rw_ok rw \<and> status_sent rw = (if wroteHeader rw \<and> valid_status (statusCode rw) then Some (statusCode rw) else None)"
  using rw_ok_run [OF rw_ok_new] status_sent_ok [OF rw_ok_run [OF rw_ok_new]] by (simp add: Let_def)

text \<open>
  The first status wins: once a status or a part of the body was written, no later call
  changes the recorded status.
\<close>

theorem response_first_status_wins:
  "statusCode (fold rw_step as (rw_step (CallHeader c) newResponseWriter)) = c \<and>
   statusCode (fold rw_step as (rw_step (CallWrite d) newResponseWriter)) = StatusOK"
  by (simp_all add: status_kept rwWriteHeader_def rwWrite_def newResponseWriter_def Let_def)

end
