(* ===== verification/Single_Flight.thy ===== *)
theory Single_Flight
  imports Gw_Prelude
begin

text \<open>
  Requests for one key share a backend call, \<open>gateway/singleflight.go\<close>: the map of calls in
  flight with its two operations, each atomic under \<open>inFlightMu\<close>, and what any number of
  requests that interleave make of them. The calls live in a heap, since the leader and its
  followers share one. What a request does around them is in \<open>Handler\<close>.
\<close>

record inFlightCall =
  finished :: bool
  callData :: string
  callStatus :: int
  callErr :: "goerr option"

record flights =
  inFlight :: "string \<Rightarrow> nat option"
  heap :: "nat \<Rightarrow> inFlightCall"
  next_call :: nat

definition new_call :: inFlightCall where
  "new_call = \<lparr>finished = False, callData = [], callStatus = 0, callErr = None\<rparr>"

definition no_flights :: flights where
  "no_flights = \<lparr>inFlight = Map.empty, heap = (\<lambda>_. new_call), next_call = 0\<rparr>"

definition getOrCreateInFlight :: "string \<Rightarrow> flights \<Rightarrow> (nat \<times> bool) \<times> flights" where
  "getOrCreateInFlight key f =
     (case inFlight f key of
        Some call \<Rightarrow> ((call, False), f)
      | None \<Rightarrow>
          let call = next_call f in
          ((call, True), f\<lparr>heap := (heap f)(call := new_call), next_call := next_call f + 1,
             inFlight := (inFlight f)(key \<mapsto> call)\<rparr>))"

text \<open>Closing a channel that is closed already panics.\<close>

definition finishInFlight :: "string \<Rightarrow> nat \<Rightarrow> string \<Rightarrow> int \<Rightarrow> goerr option \<Rightarrow> flights \<Rightarrow> unit go \<times> flights" where
  "finishInFlight key call data code err f =
     (let c = (heap f call)\<lparr>callData := data, callStatus := code, callErr := err\<rparr>;
          f = f\<lparr>heap := (heap f)(call := c), inFlight := (inFlight f)(key := None)\<rparr>
      in if finished c then (Panic, f)
         else (Ret (), f\<lparr>heap := (heap f)(call := c\<lparr>finished := True\<rparr>)\<rparr>))"

section \<open>Interleaved requests\<close>

text \<open>
  Where a request is: not started, leading a call, waiting for one, or through: as leader, with
  what it published and whether publishing panicked, or as follower, with what it received, or
  with nothing because its own context ended first.
\<close>

datatype phase =
    Idle
  | Leading string nat
  | Waiting string nat
  | Led string nat string int "goerr option" "unit go"
  | Got string nat string int "goerr option"
  | GaveUp

inductive flight_step :: "flights \<times> (nat \<Rightarrow> phase) \<Rightarrow> flights \<times> (nat \<Rightarrow> phase) \<Rightarrow> bool" where
  flight_enter: "ph i = Idle \<Longrightarrow> getOrCreateInFlight key f = ((call, leader), f') \<Longrightarrow>
    flight_step (f, ph) (f', ph(i := if leader then Leading key call else Waiting key call))"
| flight_finish: "ph i = Leading key call \<Longrightarrow> finishInFlight key call data code err f = (r, f') \<Longrightarrow>
    flight_step (f, ph) (f', ph(i := Led key call data code err r))"
| flight_receive: "ph i = Waiting key call \<Longrightarrow> finished (heap f call) \<Longrightarrow>
    flight_step (f, ph) (f, ph(i := Got key call (callData (heap f call)) (callStatus (heap f call))
      (callErr (heap f call))))"
| flight_abandon: "ph i = Waiting key call \<Longrightarrow> flight_step (f, ph) (f, ph(i := GaveUp))"

definition flight_start :: "flights \<times> (nat \<Rightarrow> phase) \<Rightarrow> bool" where
  "flight_start x \<longleftrightarrow> x = (no_flights, \<lambda>_. Idle)"

text \<open>What every request knows of the call it leads, waits for or is through with.\<close>

definition phase_ok :: "flights \<Rightarrow> (nat \<Rightarrow> phase) \<Rightarrow> nat \<Rightarrow> bool" where
  "phase_ok f ph i = (case ph i of
       Leading key call \<Rightarrow> inFlight f key = Some call
     | Waiting key call \<Rightarrow> call < next_call f \<and> (inFlight f key = Some call \<or> finished (heap f call))
     | Led key call data code err r \<Rightarrow> r = Ret () \<and> call < next_call f \<and>
         heap f call = \<lparr>finished = True, callData = data, callStatus = code, callErr = err\<rparr>
     | Got key call data code err \<Rightarrow> (\<exists>j. ph j = Led key call data code err (Ret ()))
     | _ \<Rightarrow> True)"

definition flight_good :: "flights \<times> (nat \<Rightarrow> phase) \<Rightarrow> bool" where
  "flight_good x = (case x of (f, ph) \<Rightarrow>
     (\<forall>i. phase_ok f ph i) \<and>
     (\<forall>key call. inFlight f key = Some call \<longrightarrow> call < next_call f \<and> \<not> finished (heap f call) \<and>
        (\<exists>i. ph i = Leading key call)) \<and>
     (\<forall>key key' call. inFlight f key = Some call \<longrightarrow> inFlight f key' = Some call \<longrightarrow> key = key') \<and>
     (\<forall>i j key call call'. ph i = Leading key call \<longrightarrow> ph j = Leading key call' \<longrightarrow> i = j) \<and>
     (\<forall>i key call. ph i = Waiting key call \<longrightarrow> finished (heap f call) \<longrightarrow>
        (\<exists>j. ph j = Led key call (callData (heap f call)) (callStatus (heap f call)) (callErr (heap f call)) (Ret ()))))"

lemma flight_goodI:
  assumes "\<And>i. phase_ok f ph i"
    and "\<And>key call. inFlight f key = Some call \<Longrightarrow> call < next_call f \<and> \<not> finished (heap f call) \<and> (\<exists>i. ph i = Leading key call)"
    and "\<And>key key' call. inFlight f key = Some call \<Longrightarrow> inFlight f key' = Some call \<Longrightarrow> key = key'"
    and "\<And>i j key call call'. ph i = Leading key call \<Longrightarrow> ph j = Leading key call' \<Longrightarrow> i = j"
    and "\<And>i key call. ph i = Waiting key call \<Longrightarrow> finished (heap f call) \<Longrightarrow>
      \<exists>j. ph j = Led key call (callData (heap f call)) (callStatus (heap f call)) (callErr (heap f call)) (Ret ())"
  shows "flight_good (f, ph)"
  using assms unfolding flight_good_def by blast

lemma flight_goodD:
  assumes "flight_good (f, ph)"
  shows "phase_ok f ph i"
    and "inFlight f key = Some call \<Longrightarrow> call < next_call f \<and> \<not> finished (heap f call) \<and> (\<exists>i. ph i = Leading key call)"
    and "inFlight f key = Some call \<Longrightarrow> inFlight f key' = Some call \<Longrightarrow> key = key'"
    and "ph i = Leading key call \<Longrightarrow> ph j = Leading key call' \<Longrightarrow> i = j"
    and "ph i = Waiting key call \<Longrightarrow> finished (heap f call) \<Longrightarrow>
      \<exists>j. ph j = Led key call (callData (heap f call)) (callStatus (heap f call)) (callErr (heap f call)) (Ret ())"
  using assms unfolding flight_good_def by blast+

lemma phase_facts:
  assumes "phase_ok f ph i"
  shows "ph i = Leading key call \<Longrightarrow> inFlight f key = Some call"
    and "ph i = Waiting key call \<Longrightarrow> call < next_call f \<and> (inFlight f key = Some call \<or> finished (heap f call))"
    and "ph i = Led key call data code err r \<Longrightarrow> r = Ret () \<and> call < next_call f \<and>
         heap f call = \<lparr>finished = True, callData = data, callStatus = code, callErr = err\<rparr>"
    and "ph i = Got key call data code err \<Longrightarrow> \<exists>j. ph j = Led key call data code err (Ret ())"
  using assms by (simp_all add: phase_ok_def)

lemma phase_okI:
  assumes "\<And>key call. ph i = Leading key call \<Longrightarrow> inFlight f key = Some call"
    and "\<And>key call. ph i = Waiting key call \<Longrightarrow> call < next_call f \<and> (inFlight f key = Some call \<or> finished (heap f call))"
    and "\<And>key call data code err r. ph i = Led key call data code err r \<Longrightarrow> r = Ret () \<and> call < next_call f \<and>
         heap f call = \<lparr>finished = True, callData = data, callStatus = code, callErr = err\<rparr>"
    and "\<And>key call data code err. ph i = Got key call data code err \<Longrightarrow> \<exists>j. ph j = Led key call data code err (Ret ())"
  shows "phase_ok f ph i"
  using assms by (auto simp: phase_ok_def split: phase.split)

lemma flight_good_enter:
  assumes g: "flight_good (f, ph)" and i: "ph i = Idle" and gc: "getOrCreateInFlight key f = ((call, leader), f')"
  shows "flight_good (f', ph(i := if leader then Leading key call else Waiting key call))"
proof (cases "inFlight f key")
  case (Some c)
  then have e: "call = c" "\<not> leader" "f' = f" using gc by (auto simp: getOrCreateInFlight_def)
  note d = flight_goodD [OF g] and p = phase_facts [OF flight_goodD(1) [OF g]]
  let ?ph = "ph(i := Waiting key c)"
  have nd: "c < next_call f" "\<not> finished (heap f c)" using d(2) [OF Some] by auto
  have old: "ph j = q \<Longrightarrow> q \<noteq> Idle \<Longrightarrow> ?ph j = q" for j q using i by auto
  have was: "?ph j = q \<Longrightarrow> q \<noteq> Waiting key c \<Longrightarrow> ph j = q" for j q by (auto split: if_splits)
  have "flight_good (f, ?ph)"
  proof (rule flight_goodI)
    fix j
    show "phase_ok f ?ph j"
    proof (rule phase_okI)
      show "inFlight f k = Some c'" if "?ph j = Leading k c'" for k c' using p(1) was [OF that] by blast
      show "c' < next_call f \<and> (inFlight f k = Some c' \<or> finished (heap f c'))" if "?ph j = Waiting k c'" for k c'
        using p(2) [of j k c'] that Some nd by (auto split: if_splits)
      show "r = Ret () \<and> c' < next_call f \<and> heap f c' = \<lparr>finished = True, callData = a, callStatus = b, callErr = e\<rparr>"
        if "?ph j = Led k c' a b e r" for k c' a b e r using p(3) was [OF that] by blast
      show "\<exists>j. ?ph j = Led k c' a b e (Ret ())" if "?ph j = Got k c' a b e" for k c' a b e
        using p(4) [OF was [OF that]] old by blast
    qed
  next
    show "c' < next_call f \<and> \<not> finished (heap f c') \<and> (\<exists>j. ?ph j = Leading k c')" if "inFlight f k = Some c'" for k c'
      using d(2) [OF that] old by blast
    show "j = j'" if "?ph j = Leading k c1" "?ph j' = Leading k c2" for j j' k c1 c2
      using d(4) was [OF that(1)] was [OF that(2)] by blast
    show "\<exists>j. ?ph j = Led k c' (callData (heap f c')) (callStatus (heap f c')) (callErr (heap f c')) (Ret ())"
      if "?ph j = Waiting k c'" "finished (heap f c')" for j k c'
    proof -
      have "ph j = Waiting k c'" using that nd by (auto split: if_splits)
      then show ?thesis using d(5) [OF _ that(2)] old by blast
    qed
  qed (use d(3) in blast)
  then show ?thesis using e by simp
next
  case None
  let ?c = "next_call f" and ?ph = "ph(i := Leading key (next_call f))"
  define f1 where "f1 = f\<lparr>heap := (heap f)(?c := new_call), next_call := next_call f + 1, inFlight := (inFlight f)(key \<mapsto> ?c)\<rparr>"
  have e: "call = ?c" "leader" "f' = f1"
    using gc None by (auto simp: getOrCreateInFlight_def Let_def f1_def)
  note d = flight_goodD [OF g] and p = phase_facts [OF flight_goodD(1) [OF g]]
  have old: "ph j = q \<Longrightarrow> q \<noteq> Idle \<Longrightarrow> ?ph j = q" for j q using i by auto
  have was: "?ph j = q \<Longrightarrow> q \<noteq> Leading key ?c \<Longrightarrow> ph j = q" for j q by (auto split: if_splits)
  have lt: "c < ?c" if "inFlight f k = Some c" for k c using d(2) [OF that] by blast
  have nl: "ph j \<noteq> Leading key c" for j c using p(1) [of j key c] None by auto
  have hp: "heap f1 c = heap f c" if "c < ?c" for c using that by (simp add: f1_def)
  have fl: "inFlight f1 k = (if k = key then Some ?c else inFlight f k)" "next_call f1 = ?c + 1" for k
    by (simp_all add: f1_def)
  have new: "heap f1 ?c = new_call" by (simp add: f1_def)
  have "flight_good (f1, ?ph)"
  proof (rule flight_goodI)
    fix j
    show "phase_ok f1 ?ph j"
    proof (rule phase_okI)
      show "inFlight f1 k = Some c'" if "?ph j = Leading k c'" for k c'
        using p(1) [of j k c'] nl [of j c'] that by (auto simp: fl split: if_splits)
      show "c' < next_call f1 \<and> (inFlight f1 k = Some c' \<or> finished (heap f1 c'))" if "?ph j = Waiting k c'" for k c'
        using p(2) [OF was [OF that]] None hp by (auto simp: fl)
      show "r = Ret () \<and> c' < next_call f1 \<and> heap f1 c' = \<lparr>finished = True, callData = a, callStatus = b, callErr = e\<rparr>"
        if "?ph j = Led k c' a b e r" for k c' a b e r using p(3) [OF was [OF that]] hp by (simp add: fl)
      show "\<exists>j. ?ph j = Led k c' a b e (Ret ())" if "?ph j = Got k c' a b e" for k c' a b e
        using p(4) [OF was [OF that]] old by blast
    qed
  next
    show "c' < next_call f1 \<and> \<not> finished (heap f1 c') \<and> (\<exists>j. ?ph j = Leading k c')" if "inFlight f1 k = Some c'" for k c'
    proof (cases "k = key")
      case True
      then show ?thesis using that by (auto simp: fl new new_call_def intro: exI [of _ i])
    next
      case False
      then have "inFlight f k = Some c'" using that by (simp add: fl)
      then obtain j where "ph j = Leading k c'" "c' < ?c" "\<not> finished (heap f c')" using d(2) by blast
      then show ?thesis using hp [of c'] old [of j] by (intro conjI exI [of _ j]) (simp_all add: fl)
    qed
    show "k = k'" if "inFlight f1 k = Some c'" "inFlight f1 k' = Some c'" for k k' c'
      using that d(3) [of k c' k'] lt by (auto simp: fl split: if_splits)
    show "j = j'" if "?ph j = Leading k c1" "?ph j' = Leading k c2" for j j' k c1 c2
      using that nl d(4) by (auto split: if_splits)
    show "\<exists>j. ?ph j = Led k c' (callData (heap f1 c')) (callStatus (heap f1 c')) (callErr (heap f1 c')) (Ret ())"
      if "?ph j = Waiting k c'" "finished (heap f1 c')" for j k c'
    proof -
      have w: "ph j = Waiting k c'" using was [OF that(1)] by simp
      then have "c' < ?c" using p(2) by blast
      then have hc: "heap f1 c' = heap f c'" by (rule hp)
      have "finished (heap f c')" using that(2) hc by simp
      from d(5) [OF w this] obtain j where "ph j = Led k c' (callData (heap f c')) (callStatus (heap f c')) (callErr (heap f c')) (Ret ())"
        by blast
      then have "?ph j = Led k c' (callData (heap f c')) (callStatus (heap f c')) (callErr (heap f c')) (Ret ())"
        using old by simp
      then show ?thesis unfolding hc by (rule exI)
    qed
  qed
  then show ?thesis using e by simp
qed

lemma flight_good_finish:
  assumes g: "flight_good (f, ph)" and i: "ph i = Leading key call"
    and fin: "finishInFlight key call data code err f = (r, f')"
  shows "flight_good (f', ph(i := Led key call data code err r))"
proof -
  note d = flight_goodD [OF g] and p = phase_facts [OF flight_goodD(1) [OF g]]
  have fk: "inFlight f key = Some call" using p(1) [OF i] .
  have nd: "call < next_call f" "\<not> finished (heap f call)" using d(2) [OF fk] by auto
  let ?c = "\<lparr>finished = True, callData = data, callStatus = code, callErr = err\<rparr>"
  define f1 where "f1 = f\<lparr>heap := (heap f)(call := ?c), inFlight := (inFlight f)(key := None)\<rparr>"
  have e: "r = Ret ()" "f' = f1"
    using fin nd by (auto simp: finishInFlight_def Let_def f1_def intro!: flights.equality ext)
  let ?ph = "ph(i := Led key call data code err (Ret ()))"
  have old: "ph j = q \<Longrightarrow> q \<noteq> Leading key call \<Longrightarrow> ?ph j = q" for j q using i by auto
  have was: "?ph j = q \<Longrightarrow> q \<noteq> Led key call data code err (Ret ()) \<Longrightarrow> ph j = q" for j q by (auto split: if_splits)
  have fl: "inFlight f1 k = (if k = key then None else inFlight f k)" "next_call f1 = next_call f"
    "heap f1 c' = (if c' = call then ?c else heap f c')" for k c'
    by (simp_all add: f1_def)
  have other: "c' \<noteq> call" if "finished (heap f c')" for c' using that nd by auto
  have "flight_good (f1, ?ph)"
  proof (rule flight_goodI)
    fix j
    show "phase_ok f1 ?ph j"
    proof (rule phase_okI)
      show "inFlight f1 k = Some c'" if "?ph j = Leading k c'" for k c'
        using p(1) [OF was [OF that]] d(4) [OF i, of j c'] was [OF that] that by (auto simp: fl split: if_splits)
      show "c' < next_call f1 \<and> (inFlight f1 k = Some c' \<or> finished (heap f1 c'))" if "?ph j = Waiting k c'" for k c'
        using p(2) [OF was [OF that]] fk by (auto simp: fl)
      show "r = Ret () \<and> c' < next_call f1 \<and> heap f1 c' = \<lparr>finished = True, callData = a, callStatus = b, callErr = e\<rparr>"
        if l: "?ph j = Led k c' a b e r" for k c' a b e r
      proof (cases "j = i")
        case True
        then show ?thesis using l nd by (auto simp: fl)
      next
        case False
        then have "ph j = Led k c' a b e r" using l by simp
        note h = p(3) [OF this]
        then show ?thesis using other [of c'] by (auto simp: fl)
      qed
      show "\<exists>j. ?ph j = Led k c' a b e (Ret ())" if "?ph j = Got k c' a b e" for k c' a b e
        using p(4) [OF was [OF that]] old by blast
    qed
  next
    show "c' < next_call f1 \<and> \<not> finished (heap f1 c') \<and> (\<exists>j. ?ph j = Leading k c')" if "inFlight f1 k = Some c'" for k c'
    proof -
      have k: "k \<noteq> key" "inFlight f k = Some c'" using that by (auto simp: fl split: if_splits)
      then have "c' \<noteq> call" using d(3) [OF fk] by auto
      moreover obtain j where "ph j = Leading k c'" "c' < next_call f" "\<not> finished (heap f c')" using d(2) [OF k(2)] by blast
      ultimately show ?thesis using old [of j] k(1) by (intro conjI exI [of _ j]) (simp_all add: fl)
    qed
    show "k = k'" if "inFlight f1 k = Some c'" "inFlight f1 k' = Some c'" for k k' c'
      using that d(3) by (auto simp: fl split: if_splits)
    show "j = j'" if "?ph j = Leading k c1" "?ph j' = Leading k c2" for j j' k c1 c2
      using d(4) was [OF that(1)] was [OF that(2)] by blast
    show "\<exists>j. ?ph j = Led k c' (callData (heap f1 c')) (callStatus (heap f1 c')) (callErr (heap f1 c')) (Ret ())"
      if "?ph j = Waiting k c'" "finished (heap f1 c')" for j k c'
    proof (cases "c' = call")
      case True
      have "ph j = Waiting k call" using was [OF that(1)] True by simp
      then have "inFlight f k = Some call" using p(2) nd by blast
      then have "k = key" using d(3) fk by blast
      then show ?thesis using True by (auto simp: fl intro: exI [of _ i])
    next
      case False
      then have "finished (heap f c')" using that(2) by (simp add: fl)
      from d(5) [OF was [OF that(1)] this] obtain j where
        "ph j = Led k c' (callData (heap f c')) (callStatus (heap f c')) (callErr (heap f c')) (Ret ())" by auto
      then have "?ph j = Led k c' (callData (heap f c')) (callStatus (heap f c')) (callErr (heap f c')) (Ret ())"
        using old by simp
      moreover have "heap f1 c' = heap f c'" using False by (simp add: fl)
      ultimately show ?thesis by metis
    qed
  qed
  then show ?thesis using e by simp
qed

text \<open>A follower that stops waiting changes nothing for the others.\<close>

lemma flight_good_leave:
  assumes g: "flight_good (f, ph)" and i: "ph i = Waiting key call"
    and q: "q = GaveUp \<or> (\<exists>data code err j. q = Got key call data code err \<and> ph j = Led key call data code err (Ret ()))"
  shows "flight_good (f, ph(i := q))"
proof -
  note d = flight_goodD [OF g] and p = phase_facts [OF flight_goodD(1) [OF g]]
  let ?ph = "ph(i := q)"
  have old: "ph j = x \<Longrightarrow> x \<noteq> Waiting key call \<Longrightarrow> ?ph j = x" for j x using i by auto
  have was: "?ph j = x \<Longrightarrow> x \<noteq> q \<Longrightarrow> ph j = x" for j x by (auto split: if_splits)
  show ?thesis
  proof (rule flight_goodI)
    fix j
    show "phase_ok f ?ph j"
    proof (rule phase_okI)
      show "inFlight f k = Some c'" if "?ph j = Leading k c'" for k c'
        using p(1) was [OF that] q by blast
      show "c' < next_call f \<and> (inFlight f k = Some c' \<or> finished (heap f c'))" if "?ph j = Waiting k c'" for k c'
        using p(2) was [OF that] q by blast
      show "r = Ret () \<and> c' < next_call f \<and> heap f c' = \<lparr>finished = True, callData = a, callStatus = b, callErr = e\<rparr>"
        if "?ph j = Led k c' a b e r" for k c' a b e r using p(3) was [OF that] q by blast
      show "\<exists>j. ?ph j = Led k c' a b e (Ret ())" if got: "?ph j = Got k c' a b e" for k c' a b e
      proof (cases "j = i")
        case True
        then obtain j' where "ph j' = Led k c' a b e (Ret ())" using got q by auto
        then have "?ph j' = Led k c' a b e (Ret ())" using old by simp
        then show ?thesis by (rule exI)
      next
        case False
        then obtain j' where "ph j' = Led k c' a b e (Ret ())" using got p(4) [of j k c' a b e] by auto
        then have "?ph j' = Led k c' a b e (Ret ())" using old by simp
        then show ?thesis by (rule exI)
      qed
    qed
  next
    show "c' < next_call f \<and> \<not> finished (heap f c') \<and> (\<exists>j. ?ph j = Leading k c')" if "inFlight f k = Some c'" for k c'
      using d(2) [OF that] old by blast
    show "j = j'" if "?ph j = Leading k c1" "?ph j' = Leading k c2" for j j' k c1 c2
      using d(4) [of j k c1 j' c2] was [OF that(1)] was [OF that(2)] q by blast
    show "\<exists>j. ?ph j = Led k c' (callData (heap f c')) (callStatus (heap f c')) (callErr (heap f c')) (Ret ())"
      if "?ph j = Waiting k c'" "finished (heap f c')" for j k c'
      using d(5) [OF was [OF that(1)] that(2)] q old by blast
  qed (use d(3) in blast)
qed

lemma flight_good_step: "flight_good x \<Longrightarrow> flight_step x y \<Longrightarrow> flight_good y"
proof (erule flight_step.cases)
  fix ph :: "nat \<Rightarrow> phase" and i key f call leader f'
  assume "flight_good x" "x = (f, ph)" "y = (f', ph(i := if leader then Leading key call else Waiting key call))"
    "ph i = Idle" "getOrCreateInFlight key f = ((call, leader), f')"
  then show ?thesis using flight_good_enter by blast
next
  fix ph :: "nat \<Rightarrow> phase" and i key call data code err f r f'
  assume "flight_good x" "x = (f, ph)" "y = (f', ph(i := Led key call data code err r))"
    "ph i = Leading key call" "finishInFlight key call data code err f = (r, f')"
  then show ?thesis using flight_good_finish by blast
next
  fix ph :: "nat \<Rightarrow> phase" and i key call f
  assume a: "flight_good x" "x = (f, ph)" "ph i = Waiting key call" "finished (heap f call)"
    "y = (f, ph(i := Got key call (callData (heap f call)) (callStatus (heap f call)) (callErr (heap f call))))"
  then show ?thesis using flight_goodD(5) [of f ph i key call] flight_good_leave [of f ph i key call] by blast
next
  fix ph :: "nat \<Rightarrow> phase" and i key call f
  assume "flight_good x" "x = (f, ph)" "ph i = Waiting key call" "y = (f, ph(i := GaveUp))"
  then show ?thesis using flight_good_leave [of f ph i key call] by blast
qed

interpretation flight: inductive_invariant flight_start flight_step flight_good
proof
  show "flight_good x" if "flight_start x" for x
    using that by (simp add: flight_start_def flight_good_def no_flights_def phase_ok_def)
qed (rule flight_good_step)

section \<open>Properties\<close>

text \<open>
  C20. However requests interleave, at most one at a time leads the call for a key, and
  publishing the result never panics: no call is finished twice.
\<close>

theorem single_leader:
  assumes "reaches flight_start flight_step (f, ph)"
  shows "(ph i = Leading key call \<longrightarrow> ph j = Leading key call' \<longrightarrow> i = j) \<and>
    (ph i = Led key call data code err r \<longrightarrow> r = Ret ())"
  using flight_goodD(4) [OF flight.reaches_good [OF assms]]
    phase_facts(3) [OF flight_goodD(1) [OF flight.reaches_good [OF assms]]] by blast

text \<open>
  C21. A follower receives exactly what the leader of its call, for the same key, published.
\<close>

theorem follower_gets_leaders_result:
  assumes "reaches flight_start flight_step (f, ph)" and "ph i = Got key call data code err"
  shows "\<exists>j. ph j = Led key call data code err (Ret ())"
  using phase_facts(4) [OF flight_goodD(1) [OF flight.reaches_good [OF assms(1)]] assms(2)] .

text \<open>
  C22. No follower waits for nobody: as long as it waits, either its call is finished and it can
  go on, or some request leads the call, and the end of that request's work finishes it.
\<close>

theorem follower_not_stranded:
  assumes "reaches flight_start flight_step (f, ph)" and "ph i = Waiting key call"
  shows "finished (heap f call) \<or> (\<exists>j. ph j = Leading key call \<and>
    (\<forall>data code err. finished (heap (snd (finishInFlight key call data code err f)) call)))"
proof -
  note g = flight.reaches_good [OF assms(1)]
  have "inFlight f key = Some call \<or> finished (heap f call)" using phase_facts(2) [OF flight_goodD(1) [OF g] assms(2)] by blast
  then show ?thesis
    using flight_goodD(2) [OF g, of key call] by (auto simp: finishInFlight_def Let_def)
qed

section \<open>Witnesses\<close>

text \<open>Request 0 leads, request 1 joins it, request 0 publishes, request 1 receives.\<close>

definition one_flight :: flights where
  "one_flight = snd (getOrCreateInFlight ''/a'' no_flights)"

lemma one_flight_eq: "getOrCreateInFlight ''/a'' no_flights = ((0, True), one_flight)"
  "getOrCreateInFlight ''/a'' one_flight = ((0, False), one_flight)"
  by (simp_all add: one_flight_def getOrCreateInFlight_def no_flights_def)

abbreviation joined :: "nat \<Rightarrow> phase" where
  "joined \<equiv> (\<lambda>_. Idle)(0 := Leading ''/a'' 0, 1 := Waiting ''/a'' 0)"

lemma joined_reached: "reaches flight_start flight_step (one_flight, joined)"
proof -
  have "reaches flight_start flight_step (no_flights, \<lambda>_. Idle)" by (rule reach_start) (simp add: flight_start_def)
  moreover have "flight_step (no_flights, \<lambda>_. Idle) (one_flight, (\<lambda>_. Idle)(0 := Leading ''/a'' 0))"
    using flight_enter [of "\<lambda>_. Idle" 0, OF _ one_flight_eq(1)] by simp
  ultimately have "reaches flight_start flight_step (one_flight, (\<lambda>_. Idle)(0 := Leading ''/a'' 0))" by (rule reach_step)
  moreover have "flight_step (one_flight, (\<lambda>_. Idle)(0 := Leading ''/a'' 0)) (one_flight, joined)"
    using flight_enter [of "(\<lambda>_. Idle)(0 := Leading ''/a'' 0)" 1, OF _ one_flight_eq(2)] by simp
  ultimately show ?thesis by (rule reach_step)
qed

abbreviation published :: flights where
  "published \<equiv> snd (finishInFlight ''/a'' 0 ''body'' 200 None one_flight)"

lemma received_reached: "reaches flight_start flight_step
    (published, joined(0 := Led ''/a'' 0 ''body'' 200 None (Ret ()), 1 := Got ''/a'' 0 ''body'' 200 None))"
proof -
  have f: "finishInFlight ''/a'' 0 ''body'' 200 None one_flight = (Ret (), published)"
    by (simp add: finishInFlight_def one_flight_def getOrCreateInFlight_def no_flights_def new_call_def Let_def)
  have h: "finished (heap published 0)" "callData (heap published 0) = ''body''" "callStatus (heap published 0) = 200"
    "callErr (heap published 0) = None"
    by (simp_all add: finishInFlight_def one_flight_def getOrCreateInFlight_def no_flights_def new_call_def Let_def)
  have "flight_step (one_flight, joined) (published, joined(0 := Led ''/a'' 0 ''body'' 200 None (Ret ())))"
    by (rule flight_finish [OF _ f]) simp
  with joined_reached have "reaches flight_start flight_step (published, joined(0 := Led ''/a'' 0 ''body'' 200 None (Ret ())))"
    by (rule reach_step)
  moreover have "flight_step (published, joined(0 := Led ''/a'' 0 ''body'' 200 None (Ret ())))
      (published, joined(0 := Led ''/a'' 0 ''body'' 200 None (Ret ()), 1 := Got ''/a'' 0 ''body'' 200 None))"
    using flight_receive [of "joined(0 := Led ''/a'' 0 ''body'' 200 None (Ret ()))" 1 "''/a''" 0 published]
    unfolding h(2-4) using h(1) by simp
  ultimately show ?thesis by (rule reach_step)
qed

theorem single_leader_witness:
  "joined 0 = Leading ''/a'' 0 \<and> joined 1 \<noteq> Leading ''/a'' 0"
  using single_leader [OF joined_reached, of 0 "''/a''" 0 1 0] by simp

theorem follower_gets_leaders_result_witness:
  "\<exists>j. (joined(0 := Led ''/a'' 0 ''body'' 200 None (Ret ()), 1 := Got ''/a'' 0 ''body'' 200 None)) j =
     Led ''/a'' 0 ''body'' 200 None (Ret ())"
  by (rule follower_gets_leaders_result [OF received_reached, of 1]) simp

theorem follower_not_stranded_witness:
  "finished (heap one_flight 0) \<or> (\<exists>j. joined j = Leading ''/a'' 0 \<and>
    (\<forall>data code err. finished (heap (snd (finishInFlight ''/a'' 0 data code err one_flight)) 0)))"
  by (rule follower_not_stranded [OF joined_reached, of 1]) simp

end
