(* ===== verification/Early_Refresh.thy ===== *)
theory Early_Refresh
  imports Distributed_Lock
begin

text \<open>
  Probabilistic early refresh, \<open>gateway/early_refresh.go\<close>: a request that hits L2 may refresh
  the value before it expires, the likelier the closer its deadline and the longer a
  recomputation takes. \<open>math.Log\<close>, \<open>math.Exp\<close> and the random source are parameters. Log output
  is left out.
\<close>

definition SmallestNonzeroFloat64 :: f64 where
  "SmallestNonzeroFloat64 = 2 powi emin"

definition shouldEarlyRefresh :: "('w, 'v) env \<Rightarrow> KeyValue \<Rightarrow> f64 \<Rightarrow> time \<Rightarrow>
    (('w, 'x) sys_scheme, bool \<times> f64 \<times> duration) state" where
  "shouldEarlyRefresh E value beta instant =
     (if beta \<le> 0 then ret (False, 0, 0)
      else if RecomputeDuration value \<le> 0 then ret (False, 0, 0)
      else if isZero (L2Expiration value) then ret (False, 0, 0)
      else let remaining = sub_time (L2Expiration value) instant in
        if remaining \<le> 0 then ret (False, 0, remaining)
        else do {
          randomValue \<leftarrow> on_world (random_float E);
          let randomValue = (if randomValue \<le> 0 then SmallestNonzeroFloat64 else randomValue);
          let randomGapSeconds = fmul (fmul (Seconds (RecomputeDuration value)) beta) (- math_log E randomValue);
          let randomGap = f64_to_i64 (float_overflow E) (fmul randomGapSeconds (10 ^ 9));
          let probability = math_exp E (fdiv (- Seconds remaining) (fmul (Seconds (RecomputeDuration value)) beta));
          ret (randomGap \<ge> remaining, probability, remaining) })"

definition tryProbabilisticEarlyRefresh :: "('w, 'v) env \<Rightarrow> request \<Rightarrow> string \<Rightarrow> KeyValue \<Rightarrow> duration \<Rightarrow>
    GatewayConfig \<Rightarrow> (('w, 'x) sys_scheme, (KeyValue \<times> bool) go) state" where
  "tryProbabilisticEarlyRefresh E r key cachedValue ttlL2 config = do {
     instant \<leftarrow> time_now E;
     (shouldRefresh, probability, remaining) \<leftarrow> shouldEarlyRefresh E cachedValue (EarlyRefreshBeta config) instant;
     if \<not> shouldRefresh then ret (Ret (cachedValue, False))
     else do {
       res \<leftarrow> fetchFromBackend E r (BackendTimeoutMs config);
       case res of
         Panic \<Rightarrow> ret Panic
       | Ret (refreshedValue, statusCode, Some err) \<Rightarrow> ret (Ret (cachedValue, False))
       | Ret (refreshedValue, statusCode, None) \<Rightarrow>
           if statusCode < 200 \<or> statusCode \<ge> 300 then ret (Ret (cachedValue, False))
           else do {
             t \<leftarrow> time_now E;
             let refreshedValue = refreshedValue\<lparr>L2Expiration := t + ttlL2\<rparr>;
             t \<leftarrow> time_now E;
             let redisTTL = sub_time (L2Expiration refreshedValue) t;
             (redisTTL, refreshedValue) \<leftarrow>
               (if redisTTL \<le> 0 then do {
                  t \<leftarrow> time_now E;
                  ret (ttlL2, refreshedValue\<lparr>L2Expiration := t + ttlL2\<rparr>) }
                else ret (redisTTL, refreshedValue));
             _ \<leftarrow> setL2 E RequestCtx key refreshedValue redisTTL (L2MaxEntries config);
             ret (Ret (refreshedValue, True)) } } }"

lemma run_case_prod [run]:
  "result (case_prod f x) s = result (f (fst x) (snd x)) s" "exec (case_prod f x) s = exec (f (fst x) (snd x)) s"
  by (simp_all split: prod.split)

section \<open>What it reports\<close>

lemma logs_shouldEarlyRefresh: "logs (shouldEarlyRefresh E v beta instant) (\<lambda>_ tr. tr = [])"
  unfolding shouldEarlyRefresh_def Let_def by (intro wp) auto

lemma logs_early_refresh:
  "logs (tryProbabilisticEarlyRefresh E r key v ttl config)
     (\<lambda>a tr. backend_calls tr \<le> 1 \<and> lookups tr = 0 \<and> (case a of Ret (v', False) \<Rightarrow> v' = v | _ \<Rightarrow> True))"
  unfolding tryProbabilisticEarlyRefresh_def Let_def
  by (intro wp logs_conseq [OF logs_shouldEarlyRefresh] logs_conseq [OF logs_fetchFromBackend]
      logs_conseq [OF logs_emit_free(2)]) auto

text \<open>When the value cannot be refreshed at all, nothing is drawn and nothing is called.\<close>

definition refreshable :: "KeyValue \<Rightarrow> f64 \<Rightarrow> time \<Rightarrow> bool" where
  "refreshable v beta instant \<longleftrightarrow> 0 < beta \<and> 0 < RecomputeDuration v \<and> \<not> isZero (L2Expiration v) \<and> instant < L2Expiration v"

lemma should_not: "\<not> refreshable v beta instant \<Longrightarrow>
    \<exists>d. shouldEarlyRefresh E v beta instant = ret (False, 0, d)"
  using sub_time_pos_iff [of "L2Expiration v" instant]
  by (auto simp: shouldEarlyRefresh_def refreshable_def Let_def)

text \<open>The gap that is drawn does not depend on the time; only what is left does.\<close>

definition drawn_gap :: "('w, 'v) env \<Rightarrow> KeyValue \<Rightarrow> f64 \<Rightarrow> f64 \<Rightarrow> duration" where
  "drawn_gap E v beta x =
     (let x = (if x \<le> 0 then SmallestNonzeroFloat64 else x) in
      f64_to_i64 (float_overflow E) (fmul (fmul (fmul (Seconds (RecomputeDuration v)) beta) (- math_log E x)) (10 ^ 9)))"

lemma should_result:
  fixes s :: "('w, 'x) sys_scheme"
  shows "fst (result (shouldEarlyRefresh E v beta instant) s) \<longleftrightarrow> refreshable v beta instant \<and>
     sub_time (L2Expiration v) instant \<le> drawn_gap E v beta (result (random_float E) (world s))"
proof (cases "refreshable v beta instant")
  case True
  then show ?thesis using sub_time_pos_iff [of "L2Expiration v" instant]
    by (simp add: shouldEarlyRefresh_def refreshable_def Let_def run drawn_gap_def not_le)
next
  case False
  obtain d where "shouldEarlyRefresh E v beta instant = (ret (False, 0, d) :: (('w, 'x) sys_scheme, _) state)"
    using should_not [OF False] by blast
  then show ?thesis using False by (simp add: run)
qed

lemma sub_time_antimono: "a \<le> b \<Longrightarrow> sub_time t b \<le> sub_time t a"
  by (auto simp: sub_time_def)

section \<open>Properties\<close>

text \<open>
  A refresh that does not happen costs the client nothing: when the draw decides against it,
  or the backend fails or answers with an unsuccessful status, the cached value is what is
  returned; and there is at most one backend call.
\<close>

theorem early_refresh_falls_back:
  "\<exists>tr. metrics (exec (tryProbabilisticEarlyRefresh E r key v ttl config) s) = metrics s @ tr \<and>
     backend_calls tr \<le> 1 \<and>
     (\<forall>v'. result (tryProbabilisticEarlyRefresh E r key v ttl config) s = Ret (v', False) \<longrightarrow> v' = v)"
  using logsD [OF logs_early_refresh, of E r key v ttl config s] by (auto split: go.splits bool.splits)

text \<open>
  A value without a positive recomputation time, without a deadline or past it, or under a
  beta that is not positive, is never refreshed early, and the backend is not called.
\<close>

theorem early_refresh_only_if_refreshable:
  assumes "\<not> refreshable v (EarlyRefreshBeta config) (result (now E) (world s))"
  shows "result (tryProbabilisticEarlyRefresh E r key v ttl config) s = Ret (v, False) \<and>
    metrics (exec (tryProbabilisticEarlyRefresh E r key v ttl config) s) = metrics s"
proof -
  obtain d where "shouldEarlyRefresh E v (EarlyRefreshBeta config) (result (now E) (world s)) =
      (ret (False, 0, d) :: (('a, 'c) sys_scheme, bool \<times> f64 \<times> duration) state)"
    using should_not [OF assms] by blast
  then show ?thesis by (simp add: tryProbabilisticEarlyRefresh_def run)
qed

text \<open>
  C38. The closer the deadline, the likelier the refresh: a draw that refreshes the value at some
  moment also refreshes it at any later moment before its deadline.
\<close>

theorem early_refresh_monotone:
  assumes "fst (result (shouldEarlyRefresh E v beta instant) s)" and "instant \<le> instant'" and "instant' < L2Expiration v"
  shows "fst (result (shouldEarlyRefresh E v beta instant') s)"
  using assms sub_time_antimono [OF assms(2), of "L2Expiration v"]
  by (auto simp: should_result refreshable_def)

section \<open>Witnesses\<close>

definition slow_value :: KeyValue where
  "slow_value = \<lparr>Value = ''v'', L1Expiration = zero_time, L2Expiration = 10 * second, RecomputeDuration = 2 * second\<rparr>"

lemma slow_gap: "drawn_gap mini_env slow_value 1 (1 / 2) = second"
proof -
  have i: "rnd 2 = 2" "rnd 1 = 1" "rnd 1000000000 = 1000000000"
    using rnd_of_int [of 2] rnd_of_int [of 1] rnd_of_int [of 1000000000] by simp_all
  have sec: "Seconds (2 * second) = 2"
    using i by (simp add: Seconds_def fadd_def fdiv_def f64_of_int_def quot_def)
  have "ftrunc 1000000000 = 1000000000" using ftrunc_of_int [of 1000000000] by simp
  then show ?thesis using i sec
    by (simp add: drawn_gap_def slow_value_def fmul_def f64_to_i64_def in64_def)
qed

lemma slow_selected: "fst (result (shouldEarlyRefresh mini_env slow_value 1 (9 * second)) (mini_sys empty_mini))"
proof -
  have half: "result (random_float mini_env) empty_mini = 1 / 2" by (simp add: run empty_mini_def)
  have "refreshable slow_value 1 (9 * second)" "sub_time (L2Expiration slow_value) (9 * second) \<le> second"
    by (simp_all add: slow_value_def refreshable_def sub_time_def isZero_def zero_time_def)
  then show ?thesis unfolding should_result mini_sys_simps half slow_gap by blast
qed

theorem early_refresh_only_if_refreshable_witness:
  "result (tryProbabilisticEarlyRefresh mini_env sample_request ''/a'' (slow_value\<lparr>RecomputeDuration := 0\<rparr>) second sample_config)
     (mini_sys empty_mini) = Ret (slow_value\<lparr>RecomputeDuration := 0\<rparr>, False)"
  using early_refresh_only_if_refreshable [of "slow_value\<lparr>RecomputeDuration := 0\<rparr>" sample_config mini_env "mini_sys empty_mini"]
  by (simp add: refreshable_def)

theorem early_refresh_monotone_witness:
  "fst (result (shouldEarlyRefresh mini_env slow_value 1 (9 * second + 500 * millisecond)) (mini_sys empty_mini))"
  by (rule early_refresh_monotone [OF slow_selected]) (simp_all add: slow_value_def)

end
