(* ===== verification/Handler.thy ===== *)
theory Handler
  imports L1_Cache Config_Store Adaptive_TTL Response_Writer Single_Flight Early_Refresh
begin

text \<open>
  A user request from end to end: \<open>ServeHTTP\<close>, \<open>handleBackendNormally\<close> and
  \<open>currentGatewayConfig\<close> of \<open>gateway/handler.go\<close> and \<open>handleBackendSingleFlight\<close> of
  \<open>gateway/singleflight.go\<close>, over the state of one gateway process. A request runs to its
  end; while it waits for another request's call, the environment says how the wait ends. A
  value None means that the rounds given to the lock loop are used up.
\<close>

section \<open>The state of a gateway process\<close>

text \<open>\<open>writer\<close> is the response of the request that is being served.\<close>

record 'w hsys = "'w csys" +
  l1_cache :: l1_state
  gatewayConfig :: GatewayConfig
  configVersion :: int
  call_map :: flights
  writer :: ResponseWriter

definition on_l1 :: "(l1_state \<Rightarrow> 'a \<times> l1_state) \<Rightarrow> (('w, 'x) hsys_scheme, 'a) state" where
  "on_l1 f = State (\<lambda>s. let (a, h) = f (l1_cache s) in (a, s\<lparr>l1_cache := h\<rparr>))"

definition on_calls :: "(flights \<Rightarrow> 'a \<times> flights) \<Rightarrow> (('w, 'x) hsys_scheme, 'a) state" where
  "on_calls f = State (\<lambda>s. let (a, h) = f (call_map s) in (a, s\<lparr>call_map := h\<rparr>))"

definition on_writer :: "(ResponseWriter \<Rightarrow> 'a \<times> ResponseWriter) \<Rightarrow> (('w, 'x) hsys_scheme, 'a) state" where
  "on_writer f = State (\<lambda>s. let (a, h) = f (writer s) in (a, s\<lparr>writer := h\<rparr>))"

abbreviation rw_write :: "string \<Rightarrow> (('w, 'x) hsys_scheme, unit) state" where
  "rw_write data \<equiv> on_writer (\<lambda>rw. ((), rwWrite data rw))"

abbreviation put_L1 :: "string \<Rightarrow> KeyValue \<Rightarrow> int \<Rightarrow> (('w, 'x) hsys_scheme, unit) state" where
  "put_L1 key value m \<equiv> on_l1 (\<lambda>h. ((), setL1 key value m h))"

text \<open>The clock is read only when the key is there.\<close>

definition lookup_L1 :: "('w, 'v) env \<Rightarrow> string \<Rightarrow> (('w, 'x) hsys_scheme, KeyValue option) state" where
  "lookup_L1 E key = do {
     found \<leftarrow> on_l1 (\<lambda>h. (fmlookup (cache h) key \<noteq> None, h));
     if \<not> found then ret None
     else do { t \<leftarrow> time_now E; on_l1 (getL1 key t) } }"

section \<open>The configuration in force\<close>

text \<open>What happens under \<open>configMu\<close> to a configuration that was read before the lock was taken.\<close>

definition install_config :: "GatewayConfig \<Rightarrow> int \<Rightarrow> ('w, 'x) hsys_scheme \<Rightarrow> ('w, 'x) hsys_scheme" where
  "install_config config version h =
     (if version \<noteq> configVersion h
      then h\<lparr>l1_cache := clearL1 (l1_cache h), gatewayConfig := config, configVersion := version\<rparr>
      else h)"

definition currentGatewayConfig :: "('w, 'v) env \<Rightarrow> ctx \<Rightarrow> (('w, 'x) hsys_scheme, goerr + GatewayConfig) state" where
  "currentGatewayConfig E c = do {
     r \<leftarrow> GetConfigStore E c;
     case r of
       Inl err \<Rightarrow> ret (Inl err)
     | Inr (config, version) \<Rightarrow> State (\<lambda>h.
         let h = install_config config version h in (Inr (gatewayConfig h), h)) }"

section \<open>A cache miss\<close>

definition backend_value :: "nat \<Rightarrow> ('w, 'v) env \<Rightarrow> request \<Rightarrow> string \<Rightarrow> duration \<Rightarrow> GatewayConfig \<Rightarrow>
    (('w, 'x) hsys_scheme, (KeyValue \<times> int \<times> goerr option) go option) state" where
  "backend_value n E r key ttlL2 config =
     (if DistributedLockEnabled config then fetchWithDistributedLock n E r key ttlL2 config
      else do { res \<leftarrow> fetchFromBackend E r (BackendTimeoutMs config); ret (Some res) })"

definition answer_and_store :: "('w, 'v) env \<Rightarrow> string \<Rightarrow> KeyValue \<Rightarrow> int \<Rightarrow> duration \<Rightarrow> duration \<Rightarrow> GatewayConfig \<Rightarrow>
    (('w, 'x) hsys_scheme, unit go) state" where
  "answer_and_store E key value code ttlL1 ttlL2 config = do {
     x \<leftarrow> on_writer (rwWriteHeader code);
     case x of
       Panic \<Rightarrow> ret Panic
     | Ret _ \<Rightarrow> do {
         _ \<leftarrow> rw_write (Value value);
         if code < 200 \<or> code \<ge> 300 then ret (Ret ())
         else do {
           value \<leftarrow> (if \<not> DistributedLockEnabled config then do {
               t \<leftarrow> time_now E;
               let value = value\<lparr>L2Expiration := t + ttlL2\<rparr>;
               _ \<leftarrow> setL2 E RequestCtx key value ttlL2 (L2MaxEntries config);
               ret value }
             else ret value);
           t \<leftarrow> time_now E;
           _ \<leftarrow> put_L1 key (value\<lparr>L1Expiration := t + ttlL1\<rparr>) (L1MaxEntries config);
           ret (Ret ()) } } }"

definition handleBackendNormally :: "nat \<Rightarrow> ('w, 'v) env \<Rightarrow> request \<Rightarrow> string \<Rightarrow> duration \<Rightarrow> duration \<Rightarrow>
    GatewayConfig \<Rightarrow> (('w, 'x) hsys_scheme, unit go option) state" where
  "handleBackendNormally n E r key ttlL1 ttlL2 config = do {
     res \<leftarrow> backend_value n E r key ttlL2 config;
     case res of
       None \<Rightarrow> ret None
     | Some Panic \<Rightarrow> ret (Some Panic)
     | Some (Ret (value, code, err)) \<Rightarrow> do {
         x \<leftarrow> (case err of
             Some e \<Rightarrow> on_writer (rwError ''Backend request failed'' code)
           | None \<Rightarrow> answer_and_store E key value code ttlL1 ttlL2 config);
         ret (Some x) } }"

text \<open>
  With single flight. A follower waits; the gauge of waiting requests goes down by a deferred
  call. A leader publishes by a deferred call: what its variables hold when the fetch panics
  are their zero values.
\<close>

definition follow_call :: "('w, 'v) env \<Rightarrow> nat \<Rightarrow> (('w, 'x) hsys_scheme, unit go) state" where
  "follow_call E call = do {
     _ \<leftarrow> emit IncWaiting;
     ev \<leftarrow> on_world (select_call E call);
     x \<leftarrow> (case ev of
         CallDone data code (Some err) \<Rightarrow> on_writer (rwError ''Backend request failed'' StatusBadGateway)
       | CallDone data code None \<Rightarrow> do {
           x \<leftarrow> on_writer (rwWriteHeader code);
           case x of
             Panic \<Rightarrow> ret Panic
           | Ret _ \<Rightarrow> do { _ \<leftarrow> rw_write data; ret (Ret ()) } }
       | ContextDone \<Rightarrow> on_writer (rwError ''Request timed out while waiting'' StatusGatewayTimeout));
     _ \<leftarrow> emit DecWaiting;
     ret x }"

definition lead_call :: "nat \<Rightarrow> ('w, 'v) env \<Rightarrow> request \<Rightarrow> string \<Rightarrow> nat \<Rightarrow> duration \<Rightarrow> duration \<Rightarrow>
    GatewayConfig \<Rightarrow> (('w, 'x) hsys_scheme, unit go option) state" where
  "lead_call n E r key call ttlL1 ttlL2 config = do {
     res \<leftarrow> backend_value n E r key ttlL2 config;
     case res of
       None \<Rightarrow> ret None
     | Some Panic \<Rightarrow> do {
         _ \<leftarrow> on_calls (finishInFlight key call [] 0 None);
         ret (Some Panic) }
     | Some (Ret (value, code, err)) \<Rightarrow> do {
         x \<leftarrow> (case err of
             Some e \<Rightarrow> on_writer (rwError ''Backend request failed'' StatusBadGateway)
           | None \<Rightarrow> answer_and_store E key value code ttlL1 ttlL2 config);
         y \<leftarrow> on_calls (finishInFlight key call (Value value) code err);
         ret (Some (case x of Panic \<Rightarrow> Panic | Ret _ \<Rightarrow> y)) } }"

definition handleBackendSingleFlight :: "nat \<Rightarrow> ('w, 'v) env \<Rightarrow> request \<Rightarrow> string \<Rightarrow> duration \<Rightarrow> duration \<Rightarrow>
    GatewayConfig \<Rightarrow> (('w, 'x) hsys_scheme, unit go option) state" where
  "handleBackendSingleFlight n E r key ttlL1 ttlL2 config = do {
     (call, isLeader) \<leftarrow> on_calls (getOrCreateInFlight key);
     if \<not> isLeader then do { x \<leftarrow> follow_call E call; ret (Some x) }
     else lead_call n E r key call ttlL1 ttlL2 config }"

section \<open>A request\<close>

definition serve_L2_hit :: "('w, 'v) env \<Rightarrow> request \<Rightarrow> string \<Rightarrow> KeyValue \<Rightarrow> duration \<Rightarrow> duration \<Rightarrow> GatewayConfig \<Rightarrow>
    (('w, 'x) hsys_scheme, unit go) state" where
  "serve_L2_hit E r key value ttlL1 ttlL2 config = do {
     res \<leftarrow> (if ProbabilisticEarlyRefreshEnabled config
             then tryProbabilisticEarlyRefresh E r key value ttlL2 config
             else ret (Ret (value, False)));
     case res of
       Panic \<Rightarrow> ret Panic
     | Ret (refreshedValue, refreshed) \<Rightarrow> do {
         let value = (if refreshed then refreshedValue else value);
         t \<leftarrow> time_now E;
         let value = value\<lparr>L1Expiration := t + ttlL1\<rparr>;
         _ \<leftarrow> put_L1 key value (L1MaxEntries config);
         _ \<leftarrow> rw_write (Value value);
         _ \<leftarrow> emit IncL2Hits;
         ret (Ret ()) } }"

definition serve_key :: "nat \<Rightarrow> ('w, 'v) env \<Rightarrow> request \<Rightarrow> string \<Rightarrow> duration \<Rightarrow> duration \<Rightarrow> GatewayConfig \<Rightarrow>
    (('w, 'x) hsys_scheme, unit go option) state" where
  "serve_key n E r key ttlL1 ttlL2 config = do {
     cached \<leftarrow> lookup_L1 E key;
     case cached of
       Some cached \<Rightarrow> do {
         _ \<leftarrow> rw_write (Value cached);
         _ \<leftarrow> emit IncL1Hits;
         ret (Some (Ret ())) }
     | None \<Rightarrow> do {
         v \<leftarrow> getL2 E RequestCtx key;
         case v of
           Some value \<Rightarrow> do {
             x \<leftarrow> serve_L2_hit E r key value ttlL1 ttlL2 config;
             ret (Some x) }
         | None \<Rightarrow> do {
             _ \<leftarrow> emit IncCacheMisses;
             if SingleFlightEnabled config then handleBackendSingleFlight n E r key ttlL1 ttlL2 config
             else handleBackendNormally n E r key ttlL1 ttlL2 config } } }"

definition current_ttls :: "('w, 'v) env \<Rightarrow> GatewayConfig \<Rightarrow> (('w, 'x) csys_scheme, duration \<times> duration) state" where
  "current_ttls E config = State (\<lambda>s. case effectiveCacheTTLs E config (controller s) of (a, b, _) \<Rightarrow> ((a, b), s))"

text \<open>The duration of the request is observed by a deferred call.\<close>

definition serve_with :: "nat \<Rightarrow> ('w, 'v) env \<Rightarrow> request \<Rightarrow> GatewayConfig \<Rightarrow> (('w, 'x) hsys_scheme, unit go option) state" where
  "serve_with n E r config = do {
     start \<leftarrow> time_now E;
     let key = RequestURI E r;
     (ttlL1, ttlL2) \<leftarrow> current_ttls E config;
     res \<leftarrow> serve_key n E r key ttlL1 ttlL2 config;
     case res of
       None \<Rightarrow> ret None
     | Some x \<Rightarrow> do {
         t \<leftarrow> time_now E;
         _ \<leftarrow> emit (ObserveRequestDuration (sub_time t start));
         ret (Some x) } }"

definition ServeHTTP :: "nat \<Rightarrow> ('w, 'v) env \<Rightarrow> request \<Rightarrow> (('w, 'x) hsys_scheme, unit go option) state" where
  "ServeHTTP n E r = do {
     c \<leftarrow> currentGatewayConfig E RequestCtx;
     case c of
       Inl err \<Rightarrow> do {
         x \<leftarrow> on_writer (rwError ''Gateway configuration unavailable'' StatusServiceUnavailable);
         ret (Some x) }
     | Inr config \<Rightarrow> serve_with n E r config }"

section \<open>Starting a gateway\<close>

definition defaultConfig :: GatewayConfig where
  "defaultConfig = \<lparr>L1MaxEntries = 35, L2MaxEntries = 70, L1TTLSeconds = 15, L2TTLSeconds = 30,
     SingleFlightEnabled = False, DistributedLockEnabled = False, ProbabilisticEarlyRefreshEnabled = False,
     EarlyRefreshBeta = 1, BackendTimeoutMs = 7000, AdaptiveTTLEnabled = False,
     AdaptiveTTLMinFactor = defaultAdaptiveTTLMinFactor, AdaptiveTTLMaxFactor = defaultAdaptiveTTLMaxFactor,
     AdaptiveTTLLatencyThresholdMs = defaultAdaptiveTTLLatencyThresholdMs,
     AdaptiveTTLConcurrencyThreshold = defaultAdaptiveTTLConcurrencyThreshold,
     AdaptiveTTLAdjustmentIntervalMs = defaultAdaptiveTTLAdjustmentIntervalMs\<rparr>"

definition new_process :: "GatewayConfig \<Rightarrow> int \<Rightarrow> 'w sys \<Rightarrow> 'w hsys" where
  "new_process config version s = \<lparr>world = world s, metrics = metrics s, controller = NewAdaptiveTTLController,
     l1_cache = empty_l1, gatewayConfig = config, configVersion = version, call_map = no_flights,
     writer = newResponseWriter\<rparr>"

text \<open>\<open>NewHandler\<close> on a backend URL that parses.\<close>

definition NewHandler :: "('w, 'v) env \<Rightarrow> 'w sys \<Rightarrow> goerr + 'w hsys" where
  "NewHandler E s =
     (case result (Initialize E Background defaultConfig) s of
        Some err \<Rightarrow> Inl err
      | None \<Rightarrow> let s = exec (Initialize E Background defaultConfig) s in
          (case result (GetConfigStore E Background) s of
             Inl err \<Rightarrow> Inl err
           | Inr (config, version) \<Rightarrow> Inr (new_process config version (exec (GetConfigStore E Background) s))))"

lemma run_on_l1 [run]: "result (on_l1 f) s = fst (f (l1_cache s))" "exec (on_l1 f) s = s\<lparr>l1_cache := snd (f (l1_cache s))\<rparr>"
  by (simp_all add: on_l1_def result_def exec_def split: prod.split)

lemma run_on_calls [run]: "result (on_calls f) s = fst (f (call_map s))" "exec (on_calls f) s = s\<lparr>call_map := snd (f (call_map s))\<rparr>"
  by (simp_all add: on_calls_def result_def exec_def split: prod.split)

lemma run_on_writer [run]: "result (on_writer f) s = fst (f (writer s))" "exec (on_writer f) s = s\<lparr>writer := snd (f (writer s))\<rparr>"
  by (simp_all add: on_writer_def result_def exec_def split: prod.split)

lemma run_current_ttls [run]: "exec (current_ttls E config) s = s"
  "result (current_ttls E config) s =
     (fst (effectiveCacheTTLs E config (controller s)), fst (snd (effectiveCacheTTLs E config (controller s))))"
  by (simp_all add: current_ttls_def result_def exec_def split: prod.split)

lemma logs_quiet [wp]:
  "(\<And>a. P a []) \<Longrightarrow> logs (on_l1 f) P" "(\<And>a. P1 a []) \<Longrightarrow> logs (on_calls g) P1"
  "(\<And>a. P2 a []) \<Longrightarrow> logs (on_writer h) P2" "(\<And>a. P3 a []) \<Longrightarrow> logs (current_ttls E c) P3"
  by (simp_all add: logs_def run)

section \<open>What a request reports\<close>

text \<open>The metrics that a fetch touches: none of them classifies or times a request.\<close>

fun fetch_metric :: "metric \<Rightarrow> bool" where
  "fetch_metric (IncBackendCalls _) = True"
| "fetch_metric (IncLogicalRefreshes _) = True"
| "fetch_metric (ObserveBackendDuration _) = True"
| "fetch_metric (IncLockAttempts _) = True"
| "fetch_metric _ = False"

abbreviation fetch_only :: "'a \<Rightarrow> metric list \<Rightarrow> bool" where
  "fetch_only \<equiv> (\<lambda>_ tr. list_all fetch_metric tr)"

abbreviation request_durations :: "metric list \<Rightarrow> nat" where
  "request_durations \<equiv> calls (\<lambda>e. \<exists>d. e = ObserveRequestDuration d)"

abbreviation waits :: "metric list \<Rightarrow> nat" where
  "waits \<equiv> calls (\<lambda>e. e = IncWaiting)"

abbreviation waits_over :: "metric list \<Rightarrow> nat" where
  "waits_over \<equiv> calls (\<lambda>e. e = DecWaiting)"

text \<open>The counters of the middleware.\<close>

abbreviation user_counts :: "metric list \<Rightarrow> nat" where
  "user_counts \<equiv> calls (\<lambda>e. e = IncUserRequests \<or> e = IncFailedRequests)"

lemma calls_fetch_only: "list_all fetch_metric tr \<Longrightarrow> (\<And>e. p e \<Longrightarrow> \<not> fetch_metric e) \<Longrightarrow> calls p tr = 0"
  by (induction tr) auto

lemma fetch_only_counts: "list_all fetch_metric tr \<Longrightarrow>
    lookups tr = 0 \<and> request_durations tr = 0 \<and> waits tr = 0 \<and> waits_over tr = 0 \<and> user_counts tr = 0"
  by (auto intro!: calls_fetch_only)

lemma fetch_only_fetchFromBackend: "logs (fetchFromBackend E r ms) fetch_only"
proof -
  have rec: "logs (recordBackendCallForFAF E c k d) fetch_only" for c k d
    unfolding recordBackendCallForFAF_def Let_def by (intro wp) auto
  show ?thesis unfolding fetchFromBackend_def Let_def by (intro wp logs_conseq [OF rec]) auto
qed

lemma fetch_only_tryAcquire: "logs (tryAcquireDistributedLock E c key ttl) fetch_only"
  unfolding tryAcquireDistributedLock_def newDistributedLockToken_def by (intro wp) auto

lemma fetch_only_owner: "logs (fetchAsDistributedLockOwner E r k lk tok ttl config) fetch_only"
  unfolding fetchAsDistributedLockOwner_def owner_body_def releaseDistributedLock_def Let_def
  by (intro wp logs_conseq [OF logs_emit_free(1)] logs_conseq [OF logs_emit_free(2)]
      logs_conseq [OF fetch_only_fetchFromBackend]) auto

lemma fetch_only_lock_loop: "logs (lock_loop n E r k lk lttl c ttl config) fetch_only"
proof (induction n)
  case (Suc n)
  show ?case
    unfolding lock_loop.simps
    by (intro wp logs_conseq [OF fetch_only_tryAcquire] logs_conseq [OF fetch_only_owner]
        logs_conseq [OF logs_emit_free(1)] logs_conseq [OF Suc]) auto
qed (auto intro!: wp)

lemma fetch_only_early: "logs (tryProbabilisticEarlyRefresh E r key v ttl config) fetch_only"
  unfolding tryProbabilisticEarlyRefresh_def Let_def
  by (intro wp logs_conseq [OF logs_shouldEarlyRefresh] logs_conseq [OF fetch_only_fetchFromBackend]
      logs_conseq [OF logs_emit_free(2)]) auto

lemma logs_backend_value: "logs (backend_value n E r key ttl config) (\<lambda>a tr. fetch_only a tr \<and> backend_calls tr \<le> 1)"
proof -
  have 1: "logs (fetchWithDistributedLock n E r key ttl config) (\<lambda>a tr. fetch_only a tr \<and> backend_calls tr \<le> 1)"
    by (rule logs_conj, unfold fetchWithDistributedLock_def Let_def)
      (intro wp logs_conseq [OF fetch_only_lock_loop] logs_conseq [OF logs_lock_loop]; auto)+
  have 2: "logs (fetchFromBackend E r ms) (\<lambda>a tr. fetch_only a tr \<and> backend_calls tr \<le> 1)" for ms
    by (rule logs_conj [OF fetch_only_fetchFromBackend logs_conseq [OF logs_fetchFromBackend]]) auto
  show ?thesis unfolding backend_value_def by (intro wp logs_conseq [OF 1] logs_conseq [OF 2]) auto
qed

lemma logs_answer: "logs (answer_and_store E key value code ttlL1 ttlL2 config) (\<lambda>_ tr. tr = [])"
  unfolding answer_and_store_def Let_def by (intro wp logs_conseq [OF logs_emit_free(2)]) auto

text \<open>What handling a miss reports: one backend call at most, and every wait that begins ends.\<close>

definition miss_trace :: "metric list \<Rightarrow> bool" where
  "miss_trace tr \<longleftrightarrow> lookups tr = 0 \<and> request_durations tr = 0 \<and> backend_calls tr \<le> 1 \<and>
     waits tr = waits_over tr \<and> user_counts tr = 0"

lemma miss_trace_fetch: "list_all fetch_metric tr \<Longrightarrow> backend_calls tr \<le> 1 \<Longrightarrow> miss_trace tr"
  using fetch_only_counts [of tr] by (simp add: miss_trace_def)

lemma logs_normally: "logs (handleBackendNormally n E r key ttlL1 ttlL2 config) (\<lambda>_. miss_trace)"
  unfolding handleBackendNormally_def
  by (intro wp logs_conseq [OF logs_backend_value] logs_conseq [OF logs_answer])
    (auto intro: miss_trace_fetch)

lemma logs_follow: "logs (follow_call E call) (\<lambda>_ tr. tr = [IncWaiting, DecWaiting])"
  unfolding follow_call_def by (intro wp) (auto split: select_event.split option.split go.split intro!: wp)

lemma miss_trace_follow: "miss_trace [IncWaiting, DecWaiting]"
  by (simp add: miss_trace_def)

lemma logs_single_flight: "logs (handleBackendSingleFlight n E r key ttlL1 ttlL2 config) (\<lambda>_. miss_trace)"
  unfolding handleBackendSingleFlight_def lead_call_def
  by (intro wp logs_conseq [OF logs_backend_value] logs_conseq [OF logs_answer] logs_conseq [OF logs_follow])
    (auto intro: miss_trace_fetch miss_trace_follow)

text \<open>What a request reports once it has a configuration.\<close>

definition request_trace :: "unit go option \<Rightarrow> metric list \<Rightarrow> bool" where
  "request_trace x tr \<longleftrightarrow> lookups tr \<le> 1 \<and> (x = Some (Ret ()) \<longrightarrow> lookups tr = 1) \<and>
     request_durations tr = (if x = None then 0 else 1) \<and> backend_calls tr \<le> 1 \<and>
     waits tr = waits_over tr \<and> user_counts tr = 0"

lemma logs_L2_hit: "logs (serve_L2_hit E r key v ttlL1 ttlL2 config)
    (\<lambda>x tr. lookups tr = (if x = Panic then 0 else 1) \<and> request_durations tr = 0 \<and> backend_calls tr \<le> 1 \<and>
       waits tr = waits_over tr \<and> user_counts tr = 0)"
proof -
  have e: "logs (tryProbabilisticEarlyRefresh E r key v ttlL2 config) (\<lambda>_. miss_trace)"
    by (rule logs_conseq [OF logs_conj [OF fetch_only_early logs_early_refresh]]) (auto intro: miss_trace_fetch)
  show ?thesis unfolding serve_L2_hit_def Let_def
    by (intro wp logs_conseq [OF e]) (auto simp: miss_trace_def)
qed

lemma logs_serve_key: "logs (serve_key n E r key ttlL1 ttlL2 config)
    (\<lambda>x tr. \<forall>d. request_trace x (tr @ (if x = None then [] else [ObserveRequestDuration d])))"
  unfolding serve_key_def lookup_L1_def
  by (intro wp logs_conseq [OF logs_emit_free(1)] logs_conseq [OF logs_L2_hit]
      logs_conseq [OF logs_single_flight] logs_conseq [OF logs_normally])
    (auto simp: request_trace_def miss_trace_def)

text \<open>
  The version is compared with \<open>!=\<close> only, so of two requests that read the store before and after
  an update, the one with the older reply can install it over the newer one; the next request
  that reads the store repairs that.
\<close>

lemma stale_config_reinstalled:
  assumes "n < m"
  shows "let h' = install_config g n (install_config g' m h) in
    configVersion h' = n \<and> gatewayConfig h' = g \<and> configVersion (install_config g' m h') = m"
  using assms by (simp add: install_config_def Let_def)

lemma run_currentGatewayConfig:
  "result (currentGatewayConfig E c) s = (case result (GetConfigStore E c) s of
     Inl err \<Rightarrow> Inl err
   | Inr (config, version) \<Rightarrow> Inr (gatewayConfig (install_config config version (exec (GetConfigStore E c) s))))"
  "exec (currentGatewayConfig E c) s = (case result (GetConfigStore E c) s of
     Inl err \<Rightarrow> exec (GetConfigStore E c) s
   | Inr (config, version) \<Rightarrow> install_config config version (exec (GetConfigStore E c) s))"
  by (auto simp: currentGatewayConfig_def run Let_def result_def exec_def split: sum.split prod.split)

lemma logs_install [wp]: "(\<And>a. P a []) \<Longrightarrow> logs (State (\<lambda>h. let h = install_config config version h in (f h, h))) P"
  by (simp add: logs_def result_def exec_def Let_def install_config_def)

lemma logs_GetConfigStore: "logs (GetConfigStore E c) (\<lambda>_ tr. tr = [])"
  unfolding GetConfigStore_def by (intro wp) auto

lemma logs_currentGatewayConfig: "logs (currentGatewayConfig E c) (\<lambda>_ tr. tr = [])"
  unfolding currentGatewayConfig_def
  by (intro wp logs_conseq [OF logs_GetConfigStore]) auto

lemma logs_serve_with: "logs (serve_with n E r config) request_trace"
  unfolding serve_with_def Let_def
  by (intro wp logs_conseq [OF logs_serve_key]) auto

section \<open>What a fetch leaves alone\<close>

text \<open>
  The helpers work on the world and the metrics; the rest of the process state, the first-level
  cache and the response among it, is none of their business.
\<close>

abbreviation frame :: "'x \<Rightarrow> ('w, 'x) sys_scheme \<Rightarrow> bool" where
  "frame z s \<equiv> sys.more s = z"

lemma frame_on_world [wp]: "keeps (frame z) (on_world m)"
  by (simp add: keeps_def run)

lemma frame_emit [wp]: "keeps (frame z) (emit e)"
  by (simp add: keeps_def run)

lemma frame_calls [wp]: "keeps (frame z) (redis E c cmd)" "keeps (frame z) (time_now E)" "keeps (frame z) (with_timeout E c d)"
  unfolding redis_def time_now_def with_timeout_def by (intro wp)+

lemma frame_L2: "keeps (frame z) (getL2 E c key)" "keeps (frame z) (setL2 E c key v ttl m)"
proof -
  have d: "keeps (frame z) (del_evicted E c es)" for es
    by (induction es) (auto split: zmember.split intro!: wp)
  show "keeps (frame z) (getL2 E c key)" unfolding getL2_def by (intro wp)
  show "keeps (frame z) (setL2 E c key v ttl m)" unfolding setL2_def removeL2LRU_def by (intro wp d)
qed

lemma frame_GetConfigStore: "keeps (frame z) (GetConfigStore E c)"
  unfolding GetConfigStore_def by (intro wp)

lemma frame_fetchFromBackend: "keeps (frame z) (fetchFromBackend E r ms)"
  unfolding fetchFromBackend_def recordBackendCallForFAF_def Let_def by (intro wp)

lemma frame_lock_loop: "keeps (frame z) (lock_loop n E r k lk lttl c ttl config)"
proof (induction n)
  case (Suc n)
  show ?case
    unfolding lock_loop.simps tryAcquireDistributedLock_def newDistributedLockToken_def
      fetchAsDistributedLockOwner_def owner_body_def releaseDistributedLock_def Let_def
    by (intro wp frame_L2 frame_fetchFromBackend Suc)
qed (simp add: wp)

lemma frame_backend_value: "keeps (frame z) (backend_value n E r key ttl config)"
  unfolding backend_value_def fetchWithDistributedLock_def Let_def
  by (intro wp frame_fetchFromBackend frame_lock_loop)

lemma frame_early: "keeps (frame z) (tryProbabilisticEarlyRefresh E r key v ttl config)"
  unfolding tryProbabilisticEarlyRefresh_def shouldEarlyRefresh_def Let_def
  by (intro wp frame_L2 frame_fetchFromBackend)

lemma frame_fields: "sys.more s = sys.more (t :: ('w, 'x) hsys_scheme) \<Longrightarrow>
    l1_cache s = l1_cache t \<and> gatewayConfig s = gatewayConfig t \<and> configVersion s = configVersion t \<and>
    call_map s = call_map t \<and> writer s = writer t \<and> controller s = controller t"
  by (cases s, cases t) simp

lemma frameD: "(\<And>z. keeps (frame z) m) \<Longrightarrow> sys.more (exec m s) = sys.more s"
  by (simp add: keeps_def)

text \<open>So whatever holds of the rest is kept.\<close>

lemma keeps_frame: "(\<And>z. keeps (frame z) m) \<Longrightarrow> keeps (\<lambda>s. J (sys.more s)) m"
  by (simp add: keeps_def)

section \<open>The response\<close>

definition answered :: "ResponseWriter \<Rightarrow> bool" where
  "answered rw \<longleftrightarrow> rw_ok rw \<and> wroteHeader rw \<and> valid_status (statusCode rw)"

text \<open>A response with headers at most.\<close>

definition unwritten :: "ResponseWriter \<Rightarrow> bool" where
  "unwritten rw \<longleftrightarrow> rw_ok rw \<and> \<not> wroteHeader rw"

abbreviation fresh :: "('w, 'x) hsys_scheme \<Rightarrow> bool" where
  "fresh s \<equiv> unwritten (writer s)"

text \<open>\<open>x\<close> is what a handler that started with a fresh response returned.\<close>

abbreviation responds :: "unit go option \<Rightarrow> ('w, 'x) hsys_scheme \<Rightarrow> bool" where
  "responds x s \<equiv> x = Some (Ret ()) \<longrightarrow> answered (writer s)"

lemma triple_keep_bind: "keeps I m \<Longrightarrow> (\<And>a. triple I (f a) Q) \<Longrightarrow> triple I (Monad_Syntax.bind m f) Q"
  by (simp add: triple_def keeps_def run)

lemma triple_keeps: "keeps I m \<Longrightarrow> (\<And>a s. I s \<Longrightarrow> Q a s) \<Longrightarrow> triple I m Q"
  by (simp add: triple_def keeps_def)

lemma triple_if: "(b \<Longrightarrow> triple I m Q) \<Longrightarrow> (\<not> b \<Longrightarrow> triple I n Q) \<Longrightarrow> triple I (if b then m else n) Q"
  by simp

lemma triple_cases:
  "(x = None \<Longrightarrow> triple I m Q) \<Longrightarrow> (\<And>y. x = Some y \<Longrightarrow> triple I (f y) Q) \<Longrightarrow> triple I (case_option m f x) Q"
  "(\<And>a. g = Ret a \<Longrightarrow> triple I (h a) Q) \<Longrightarrow> (g = Panic \<Longrightarrow> triple I m Q) \<Longrightarrow> triple I (case_go h m g) Q"
  "(\<And>a b. p = (a, b) \<Longrightarrow> triple I (k a b) Q) \<Longrightarrow> triple I (case_prod k p) Q"
  by (auto split: option.split go.split prod.split)

lemma keeps_writer: "(\<And>z. keeps (frame z) m) \<Longrightarrow> keeps (\<lambda>s. P (writer s)) m"
  unfolding keeps_def by (metis frame_fields)

lemma keeps_writer_local [wp]: "keeps (\<lambda>s. P (writer s)) (on_l1 f)" "keeps (\<lambda>s. P (writer s)) (on_calls g)"
  "keeps (\<lambda>s. P (writer s)) (current_ttls E c)"
  by (simp_all add: keeps_def run)

lemma keeps_writer_config:
  fixes E :: "('w, 'v) env"
  shows "keeps (\<lambda>s :: ('w, 'x) hsys_scheme. P (writer s)) (currentGatewayConfig E c)"
proof (rule keepsI)
  fix s :: "('w, 'x) hsys_scheme"
  have "writer (exec (GetConfigStore E c) s) = writer s"
    using frame_fields [OF frameD [OF frame_GetConfigStore]] by blast
  then show "P (writer s) \<Longrightarrow> P (writer (exec (currentGatewayConfig E c) s))"
    by (simp add: run_currentGatewayConfig install_config_def split: sum.split prod.split)
qed

lemmas keeps_writer_quiet [wp] = keeps_writer [OF frame_calls(2)] keeps_writer [OF frame_L2(1)]
  keeps_writer [OF frame_L2(2)] keeps_writer [OF frame_backend_value] keeps_writer [OF frame_early]
  keeps_writer [OF frame_emit] keeps_writer [OF frame_on_world] keeps_writer_config

lemma answered_write: "rw_ok rw \<Longrightarrow> wroteHeader rw \<longrightarrow> valid_status (statusCode rw) \<Longrightarrow> answered (rwWrite d rw)"
  using rw_ok_write [of rw d] status_first [of rw "CallWrite d"]
  by (auto simp: answered_def rwWrite_def Let_def rwWriteHeader_def valid_status_def statuses)

lemma unwritten_new [simp]: "unwritten newResponseWriter"
  using rw_ok_new by (simp add: unwritten_def newResponseWriter_def)

lemma answered_header: "unwritten rw \<Longrightarrow> fst (rwWriteHeader c rw) = Ret x \<Longrightarrow> answered (snd (rwWriteHeader c rw))"
  using rw_ok_header [of rw c]
  by (auto simp: answered_def unwritten_def rwWriteHeader_def Let_def split: if_splits)

lemma answered_error: "unwritten rw \<Longrightarrow> fst (rwError m c rw) = Ret x \<Longrightarrow> answered (snd (rwError m c rw))"
  using rw_ok_error [of rw m c]
  by (auto simp: answered_def unwritten_def rwError_def rwWriteHeader_def rwWrite_def Let_def split: if_splits)

lemma keeps_answered_write [wp]: "keeps (\<lambda>s. answered (writer s)) (rw_write d)"
  by (auto simp: keeps_def run answered_def intro!: answered_write [unfolded answered_def])

lemma answered_first_write [simp]: "unwritten rw \<Longrightarrow> answered (rwWrite d rw)"
  by (rule answered_write) (simp_all add: unwritten_def)

lemma respond_header: "triple fresh (on_writer (rwWriteHeader c)) (\<lambda>x s. x = Ret () \<longrightarrow> answered (writer s))"
  by (auto simp: triple_def run intro: answered_header)

lemma respond_error: "triple fresh (on_writer (rwError m c)) (\<lambda>x s. x = Ret () \<longrightarrow> answered (writer s))"
  by (auto simp: triple_def run intro: answered_error)

lemma respond_write: "triple fresh (rw_write d) (\<lambda>_ s. answered (writer s))"
  by (simp add: triple_def run)

text \<open>Once the response is under way, whatever follows only has to leave it be.\<close>

lemma triple_after: "keeps (\<lambda>s. answered (writer s)) m \<Longrightarrow>
    triple (\<lambda>s. answered (writer s)) m (\<lambda>x s. x = Ret () \<longrightarrow> answered (writer s))"
  by (simp add: triple_def keeps_def)

lemma respond_answer:
  fixes E :: "('w, 'v) env"
  shows "triple (fresh :: ('w, 'x) hsys_scheme \<Rightarrow> bool) (answer_and_store E key v c ttlL1 ttlL2 config) (\<lambda>x s. x = Ret () \<longrightarrow> answered (writer s))"
  unfolding answer_and_store_def
proof (rule triple_bind [OF respond_header], goal_cases)
  case (1 x)
  then show ?case
  proof (cases x)
    case (Ret y)
    have after: "triple (\<lambda>s. answered (writer s)) m Q \<Longrightarrow> triple (\<lambda>s. Ret y = Ret () \<longrightarrow> answered (writer s)) m Q"
      for m and Q :: "unit go \<Rightarrow> ('w, 'x) hsys_scheme \<Rightarrow> bool"
      by (simp add: triple_def)
    show ?thesis unfolding Ret go.case by (rule after, unfold Let_def, intro triple_after wp)
  qed (simp add: wp)
qed

lemma triple_Some: "triple I m (\<lambda>x s. x = Ret () \<longrightarrow> answered (writer s)) \<Longrightarrow>
    triple I (Monad_Syntax.bind m (\<lambda>x. ret (Some x))) responds"
  by (simp add: triple_def run)

lemma respond_reply:
  "triple fresh (case err of
       Some e \<Rightarrow> on_writer (rwError m c) | None \<Rightarrow> answer_and_store E key v code ttlL1 ttlL2 config)
     (\<lambda>x s. x = Ret () \<longrightarrow> answered (writer s))"
  by (cases err) (simp_all add: respond_error respond_answer)

lemma respond_normally: "triple fresh (handleBackendNormally n E r key ttlL1 ttlL2 config) responds"
  unfolding handleBackendNormally_def
proof (rule triple_keep_bind, goal_cases)
  case (2 res)
  show ?case
    by (auto split: option.split go.split intro!: triple_return triple_Some respond_answer respond_error)
qed (intro wp)

lemma respond_follow: "triple fresh (follow_call E call) (\<lambda>x s. x = Ret () \<longrightarrow> answered (writer s))"
  unfolding follow_call_def
proof (rule triple_keep_bind [OF _ triple_keep_bind], goal_cases)
  case (3 u ev)
  let ?m = "case ev of
         CallDone data code (Some err) \<Rightarrow> on_writer (rwError ''Backend request failed'' StatusBadGateway)
       | CallDone data code None \<Rightarrow> do {
           x \<leftarrow> on_writer (rwWriteHeader code);
           case x of
             Panic \<Rightarrow> ret Panic
           | Ret _ \<Rightarrow> do { _ \<leftarrow> rw_write data; ret (Ret ()) } }
       | ContextDone \<Rightarrow> on_writer (rwError ''Request timed out while waiting'' StatusGatewayTimeout)"
  have copied: "triple fresh (do { x \<leftarrow> on_writer (rwWriteHeader code);
        case x of Panic \<Rightarrow> ret Panic | Ret _ \<Rightarrow> do { _ \<leftarrow> rw_write data; ret (Ret ()) } })
      (\<lambda>x s. x = Ret () \<longrightarrow> answered (writer s))" for code data
    by (rule triple_bind [OF respond_header])
      (auto split: go.split intro!: triple_return triple_after wp)
  have "triple fresh ?m (\<lambda>x s. x = Ret () \<longrightarrow> answered (writer s))"
    using copied by (auto split: select_event.split option.split intro: respond_error)
  then show ?case
    by (rule triple_bind) (auto simp: triple_def run)
qed (intro wp)+

lemma respond_lead: "triple fresh (lead_call n E r key call ttlL1 ttlL2 config) responds"
  unfolding lead_call_def
proof (rule triple_keep_bind, goal_cases)
  case (2 res)
  have "triple fresh (do {
         x \<leftarrow> (case err of
             Some e \<Rightarrow> on_writer (rwError m c)
           | None \<Rightarrow> answer_and_store E key v code ttlL1 ttlL2 config);
         y \<leftarrow> on_calls (finishInFlight key call (Value v) code err);
         ret (Some (case x of Panic \<Rightarrow> Panic | Ret _ \<Rightarrow> y)) }) responds" for err v code m c
    by (rule triple_bind [OF respond_reply]) (auto simp: triple_def run split: go.splits)
  note fin = this
  have pan: "triple fresh (do { _ \<leftarrow> on_calls (finishInFlight key call [] 0 None); ret (Some Panic) }) responds"
    by (simp add: triple_def run)
  show ?case by (intro triple_cases triple_return fin pan) simp
qed (intro wp)

lemma respond_single_flight: "triple fresh (handleBackendSingleFlight n E r key ttlL1 ttlL2 config) responds"
  unfolding handleBackendSingleFlight_def
  by (rule triple_keep_bind)
    (auto split: prod.split intro!: wp triple_Some respond_follow respond_lead)

lemma respond_L2_hit: "triple fresh (serve_L2_hit E r key v ttlL1 ttlL2 config) (\<lambda>x s. x = Ret () \<longrightarrow> answered (writer s))"
  unfolding serve_L2_hit_def Let_def
proof (rule triple_keep_bind, goal_cases)
  case (2 res)
  show ?case
    by (auto split: prod.split go.split intro!: wp triple_keep_bind triple_bind [OF respond_write] simp: triple_def run)
qed (intro wp)

lemma respond_serve_key: "triple fresh (serve_key n E r key ttlL1 ttlL2 config) responds"
proof -
  have look: "keeps fresh (lookup_L1 E key)" unfolding lookup_L1_def by (intro wp)
  have hit: "triple fresh (do { _ \<leftarrow> rw_write d; _ \<leftarrow> emit IncL1Hits; ret (Some (Ret ())) }) responds" for d
    by (rule triple_bind [OF respond_write]) (auto simp: triple_def run)
  show ?thesis unfolding serve_key_def
    by (auto split: option.split intro!: triple_keep_bind wp look hit triple_Some respond_L2_hit triple_if
        respond_single_flight respond_normally)
qed

lemma respond_ServeHTTP: "triple fresh (ServeHTTP n E r) responds"
proof -
  have "triple fresh (serve_with n E r config) responds" for config
    unfolding serve_with_def Let_def
    by (auto split: prod.split intro!: triple_keep_bind wp triple_bind [OF respond_serve_key])
      (auto simp: triple_def run split: option.split)
  then show ?thesis unfolding ServeHTTP_def
    by (auto split: sum.split intro!: triple_keep_bind wp triple_Some respond_error)
qed

section \<open>The first-level cache\<close>

lemma keeps_l1_quiet: "(\<And>z. keeps (frame z) m) \<Longrightarrow> keeps (\<lambda>s. P (l1_cache s)) m"
  unfolding keeps_def by (metis frame_fields)

lemmas keeps_l1_frame [wp] = keeps_l1_quiet [OF frame_calls(2)] keeps_l1_quiet [OF frame_L2(1)]
  keeps_l1_quiet [OF frame_L2(2)] keeps_l1_quiet [OF frame_backend_value] keeps_l1_quiet [OF frame_early]
  keeps_l1_quiet [OF frame_emit] keeps_l1_quiet [OF frame_on_world]

abbreviation cache_ok :: "('w, 'x) hsys_scheme \<Rightarrow> bool" where
  "cache_ok s \<equiv> l1_inv (l1_cache s)"

lemma cache_ok_local [wp]: "(\<And>h. l1_inv h \<Longrightarrow> l1_inv (snd (f h))) \<Longrightarrow> keeps cache_ok (on_l1 f)"
  "keeps cache_ok (on_calls g)" "keeps cache_ok (on_writer k)" "keeps cache_ok (current_ttls E c)"
  by (simp_all add: keeps_def run)

lemma cache_ok_config: 
  fixes E :: "('w, 'v) env"
  shows "keeps (cache_ok :: ('w, 'x) hsys_scheme \<Rightarrow> bool) (currentGatewayConfig E c)"
proof (rule keepsI)
  fix s :: "('w, 'x) hsys_scheme"
  have "l1_cache (exec (GetConfigStore E c) s) = l1_cache s"
    using frame_fields [OF frameD [OF frame_GetConfigStore]] by blast
  then show "cache_ok s \<Longrightarrow> cache_ok (exec (currentGatewayConfig E c) s)"
    by (simp add: run_currentGatewayConfig install_config_def l1_invs split: sum.split prod.split)
qed

lemma cache_ok_put: "keeps cache_ok (put_L1 key v m)" "keeps cache_ok (lookup_L1 E key)"
  unfolding lookup_L1_def by (intro wp; simp add: l1_invs)+

lemma cache_ok_answer: "keeps cache_ok (answer_and_store E key v c ttlL1 ttlL2 config)"
  unfolding answer_and_store_def Let_def by (intro wp cache_ok_put)

lemma cache_ok_follow: "keeps cache_ok (follow_call E call)"
  unfolding follow_call_def by (intro wp) (auto split: select_event.split option.split intro!: wp)

lemma cache_ok_handlers: "keeps cache_ok (handleBackendNormally n E r key ttlL1 ttlL2 config)"
    "keeps cache_ok (handleBackendSingleFlight n E r key ttlL1 ttlL2 config)"
    "keeps cache_ok (serve_L2_hit E r key v ttlL1 ttlL2 config)"
proof -
  show "keeps cache_ok (handleBackendNormally n E r key ttlL1 ttlL2 config)"
    unfolding handleBackendNormally_def by (intro wp cache_ok_answer)
  have "keeps cache_ok (lead_call n E r key call ttlL1 ttlL2 config)" for call
    unfolding lead_call_def by (intro wp cache_ok_answer)
  then show "keeps cache_ok (handleBackendSingleFlight n E r key ttlL1 ttlL2 config)"
    unfolding handleBackendSingleFlight_def by (intro wp cache_ok_follow)
  show "keeps cache_ok (serve_L2_hit E r key v ttlL1 ttlL2 config)"
    unfolding serve_L2_hit_def Let_def by (intro wp cache_ok_put)
qed

lemma cache_ok_serve_key: "keeps cache_ok (serve_key n E r key ttlL1 ttlL2 config)"
  unfolding serve_key_def by (intro wp cache_ok_put cache_ok_handlers)

lemma cache_ok_ServeHTTP: "keeps cache_ok (ServeHTTP n E r)"
  unfolding ServeHTTP_def serve_with_def Let_def by (intro wp cache_ok_config cache_ok_serve_key)

lemma status_ok_valid: "status_ok code \<Longrightarrow> valid_status code"
  by (simp add: status_ok_def valid_status_def)



text \<open>A successful one stores the value it sends.\<close>

lemma answer_successful:
  fixes E :: "('w, 'v) env" and s :: "('w, 'x) hsys_scheme"
  assumes ok: "status_ok code"
  shows "\<exists>v'. result (answer_and_store E key v code ttlL1 ttlL2 config) s = Ret () \<and> Value v' = Value v \<and>
    (\<exists>w. L1Expiration v' = result (now E) w + ttlL1) \<and>
    (if DistributedLockEnabled config then L2Expiration v' = L2Expiration v
     else \<exists>w. L2Expiration v' = result (now E) w + ttlL2) \<and>
    l1_cache (exec (answer_and_store E key v code ttlL1 ttlL2 config) s) = setL1 key v' (L1MaxEntries config) (l1_cache s) \<and>
    writer (exec (answer_and_store E key v code ttlL1 ttlL2 config) s) =
      rwWrite (Value v) (snd (rwWriteHeader code (writer s)))"
proof -
  have h: "fst (rwWriteHeader code (writer s)) = Ret ()" and st: "\<not> (code < 200 \<or> 300 \<le> code)"
    using ok status_ok_valid [OF ok] by (auto simp: rwWriteHeader_def Let_def status_ok_def)
  let ?w = "rwWrite (Value v) (snd (rwWriteHeader code (writer s)))"
  let ?s = "s\<lparr>writer := ?w\<rparr>"
  show ?thesis
  proof (cases "DistributedLockEnabled config")
    case True
    let ?v = "v\<lparr>L1Expiration := result (now E) (world ?s) + ttlL1\<rparr>"
    show ?thesis using True h st
      by (intro exI [of _ ?v]) (auto simp: answer_and_store_def run)
  next
    case False
    let ?s1 = "exec (time_now E) ?s"
    let ?v1 = "v\<lparr>L2Expiration := result (time_now E) ?s + ttlL2\<rparr>"
    let ?s2 = "exec (setL2 E RequestCtx key ?v1 ttlL2 (L2MaxEntries config)) ?s1"
    let ?v = "?v1\<lparr>L1Expiration := result (now E) (world ?s2) + ttlL1\<rparr>"
    have "l1_cache ?s2 = l1_cache ?s1" "writer ?s2 = writer ?s1"
      using frame_fields [OF frameD [OF frame_L2(2)]] by blast+
    then show ?thesis using False h st
      by (intro exI [of _ ?v]) (auto simp: answer_and_store_def run Let_def)
  qed
qed

section \<open>The call in flight\<close>

lemma lead_call_returns:
  assumes "result (backend_value n E r key ttlL2 config) s = Some x"
  shows "\<exists>data code err t. exec (lead_call n E r key call ttlL1 ttlL2 config) s =
      t\<lparr>call_map := snd (finishInFlight key call data code err (call_map t))\<rparr> \<and>
    (x = Panic \<longrightarrow> data = [] \<and> code = 0 \<and> err = None \<and> result (lead_call n E r key call ttlL1 ttlL2 config) s = Some Panic) \<and>
    (\<forall>v c e. x = Ret (v, c, e) \<longrightarrow> data = Value v \<and> code = c \<and> err = e)"
proof (cases x)
  case Panic
  then show ?thesis using assms
    by (intro exI [of _ "[]"] exI [of _ 0] exI [of _ None] exI [of _ "exec (backend_value n E r key ttlL2 config) s"])
      (simp add: lead_call_def run)
next
  case (Ret p)
  obtain v c e where p: "p = (v, c, e)" by (cases p)
  let ?s1 = "exec (backend_value n E r key ttlL2 config) s"
  let ?reply = "(case e of Some e \<Rightarrow> on_writer (rwError ''Backend request failed'' StatusBadGateway)
           | None \<Rightarrow> answer_and_store E key v c ttlL1 ttlL2 config)"
  show ?thesis using assms Ret p
    by (intro exI [of _ "Value v"] exI [of _ c] exI [of _ e] exI [of _ "exec ?reply ?s1"])
      (simp add: lead_call_def run)
qed

lemma default_config_go: "go_config defaultConfig"
  using rnd_of_int [of 1] rnd_of_int [of 4] rnd_three_quarters
  by (simp add: go_config_def defaultConfig_def in64_def adaptive_defaults)

lemma default_config_kept [simp]: "applyAdaptiveTTLDefaults defaultConfig = defaultConfig"
  by (simp add: adaptive_ok_def defaultConfig_def adaptive_defaults)

section \<open>Properties\<close>

text \<open>
  The metrics add up: once its configuration is known, a request that returns is counted as
  exactly one of L1 hit, L2 hit and miss, its duration is observed once even when it panics, it
  calls the backend at most once, and the gauge of waiting requests is left as it was. Without
  a configuration nothing is reported.
\<close>

theorem request_reported:
  "\<exists>tr. metrics (exec (ServeHTTP n E r) s) = metrics s @ tr \<and>
     (case result (currentGatewayConfig E RequestCtx) s of
        Inl _ \<Rightarrow> tr = []
      | Inr _ \<Rightarrow> request_trace (result (ServeHTTP n E r) s) tr)"
proof -
  let ?s = "exec (currentGatewayConfig E RequestCtx) s"
  have m: "metrics ?s = metrics s" using logsD [OF logs_currentGatewayConfig, of E RequestCtx s] by auto
  show ?thesis
  proof (cases "result (currentGatewayConfig E RequestCtx) s")
    case (Inr config)
    then show ?thesis using logsD [OF logs_serve_with, of n E r config ?s] m by (simp add: ServeHTTP_def run)
  qed (use m in \<open>simp add: ServeHTTP_def run\<close>)
qed

text \<open>
  C18. Whatever path a request takes, when it returns the client has been sent exactly one
  status, ahead of the body, and it is the one that the middleware will read.
\<close>

theorem request_answered:
  assumes "rw_ok (writer s)" and "\<not> wroteHeader (writer s)" and "result (ServeHTTP n E r) s = Some (Ret ())"
  shows "let rw = writer (exec (ServeHTTP n E r) s) in rw_ok rw \<and> wroteHeader rw \<and> status_sent rw = Some (statusCode rw)"
proof -
  have "answered (writer (exec (ServeHTTP n E r) s))"
    using tripleD [where s = s, OF respond_ServeHTTP] assms unwritten_def by blast
  then show ?thesis using status_sent_ok by (auto simp: answered_def Let_def)
qed

text \<open>
  A key that is in the first-level cache and has not expired is answered from it: apart
  from fetching the configuration, the request only reads the clock.
\<close>

theorem l1_hit_is_local:
  assumes "result (currentGatewayConfig E RequestCtx) s = Inr config"
  defines "s1 \<equiv> exec (time_now E) (exec (currentGatewayConfig E RequestCtx) s)"
  assumes "fst (getL1 (RequestURI E r) (result (time_now E) s1) (l1_cache s1)) = Some v"
  shows "result (ServeHTTP n E r) s = Some (Ret ()) \<and>
    writer (exec (ServeHTTP n E r) s) = rwWrite (Value v) (writer s1) \<and>
    world (exec (ServeHTTP n E r) s) = exec (now E) (exec (now E) (world s1))"
proof -
  have found: "fmlookup (cache (l1_cache s1)) (RequestURI E r) \<noteq> None"
    using assms(3) by (auto simp: getL1_def split: option.splits)
  then show ?thesis using assms
    by (simp add: ServeHTTP_def serve_with_def serve_key_def lookup_L1_def run Let_def)
qed


text \<open>
  C9. What a miss fetched with success is what the client gets and what the first-level cache
  then answers with, until either of its deadlines.
\<close>

theorem miss_then_hit:
  fixes ttlL1 :: duration
  assumes "result (backend_value n E r key ttlL2 config) s = Some (Ret (v, code, None))" and "status_ok code"
    and "l1_inv (l1_cache s)" and "0 < L1MaxEntries config"
  defines "s' \<equiv> exec (handleBackendNormally n E r key ttlL1 ttlL2 config) s"
  shows "writer s' = rwWrite (Value v) (snd (rwWriteHeader code (writer s))) \<and>
    (\<exists>v'. Value v' = Value v \<and> (\<exists>w. L1Expiration v' = result (now E) w + ttlL1) \<and>
      (if DistributedLockEnabled config then L2Expiration v' = L2Expiration v
       else \<exists>w. L2Expiration v' = result (now E) w + ttlL2) \<and>
      (\<forall>t. fst (getL1 key t (l1_cache s')) =
        (if L1Expiration v' < t \<or> (\<not> isZero (L2Expiration v') \<and> L2Expiration v' < t) then None else Some v')))"
proof -
  let ?s = "exec (backend_value n E r key ttlL2 config) s"
  have same: "l1_cache ?s = l1_cache s" "writer ?s = writer s"
    using frame_fields [OF frameD [OF frame_backend_value]] by blast+
  have s': "s' = exec (answer_and_store E key v code ttlL1 ttlL2 config) ?s"
    using assms(1) by (simp add: s'_def handleBackendNormally_def run)
  obtain v' where v': "Value v' = Value v" "\<exists>w. L1Expiration v' = result (now E) w + ttlL1"
      "if DistributedLockEnabled config then L2Expiration v' = L2Expiration v
       else \<exists>w. L2Expiration v' = result (now E) w + ttlL2"
      "l1_cache s' = setL1 key v' (L1MaxEntries config) (l1_cache s)"
      "writer s' = rwWrite (Value v) (snd (rwWriteHeader code (writer s)))"
    using answer_successful [OF assms(2), of E key v ttlL1 ttlL2 config ?s] unfolding s' same by blast
  have "l1_find (l1_cache s') key = Some v'" "l1_inv (l1_cache s')"
    using l1.put_find [OF assms(3,4)] assms(3) by (simp_all add: v'(4) l1_invs)
  then have "fst (getL1 key t (l1_cache s')) = (if expired_at t v' then None else Some v')" for t
    using l1.get_value by (simp split: option.split)
  then show ?thesis using v' by (intro conjI exI [of _ v']) (auto simp: expired_at_def)
qed

text \<open>C0. However it is served, a request leaves the first-level cache well formed.\<close>

theorem request_keeps_cache:
  assumes "l1_inv (l1_cache s)"
  shows "l1_inv (l1_cache (exec (ServeHTTP n E r) s))"
  by (rule keepsD [OF cache_ok_ServeHTTP assms])

text \<open>
  C23. A configuration change reaches every gateway: after an update by one, the next request at
  another that still has an older version runs under the new configuration, with an empty
  first-level cache.
\<close>

theorem config_change_reaches_gateway:
  assumes "redis_config E vw" and "reliable E" and "go_config g" and "in64 (n + 1)"
    and "holds_config E (vw (world a)) g0 n" and "world b = world (exec (UpdateConfigStore E c g) a)"
    and "configVersion b \<le> n"
  shows "result (currentGatewayConfig E c') b = Inr (applyAdaptiveTTLDefaults g) \<and>
    (let b' = exec (currentGatewayConfig E c') b in
      configVersion b' = n + 1 \<and> gatewayConfig b' = applyAdaptiveTTLDefaults g \<and>
      (\<forall>k t. fst (getL1 k t (l1_cache b')) = None))"
proof -
  have held: "holds_config E (vw (world b)) g (n + 1)"
    using redis_config.update_effect(2) [OF assms(1-5)] assms(6) by simp
  let ?b = "exec (GetConfigStore E c') b"
  have "configVersion ?b = configVersion b" using frame_fields [OF frameD [OF frame_GetConfigStore]] by blast
  then show ?thesis using redis_config.get_held [OF assms(1,2) held] assms(7)
    by (simp add: run_currentGatewayConfig install_config_def getL1_def clearL1_def)
qed

text \<open>
  A gateway that starts on an empty store comes up under the default configuration as
  version 1; one that joins others comes up under theirs, and leaves it as it is.
\<close>

theorem new_handler_joins:
  fixes E :: "('w, 'v) env" and s :: "'w sys"
  assumes "redis_config E vw" and "reliable E"
    and "keys (vw (world s)) gatewayConfigKey = None \<or> holds_config E (vw (world s)) g0 n"
  shows "\<exists>h. NewHandler E s = Inr h \<and> l1_inv (l1_cache h) \<and>
    (if keys (vw (world s)) gatewayConfigKey = None
     then gatewayConfig h = defaultConfig \<and> configVersion h = 1
     else gatewayConfig h = applyAdaptiveTTLDefaults g0 \<and> configVersion h = n)"
proof -
  let ?s = "exec (Initialize E Background defaultConfig) s"
  note init = redis_config.initialize_effect [OF assms(1,2) default_config_go]
  have get: "NewHandler E s = Inr (new_process (applyAdaptiveTTLDefaults g) k (exec (GetConfigStore E Background) ?s))"
    if "holds_config E (vw (world ?s)) g k" for g k
    by (simp add: NewHandler_def init(1) redis_config.get_held [OF assms(1,2) that])
  show ?thesis
  proof (cases "keys (vw (world s)) gatewayConfigKey = None")
    case True
    show ?thesis using get [OF init(2) [OF True]] True by (simp add: new_process_def l1_invs)
  next
    case False
    then have held: "holds_config E (vw (world s)) g0 n" using assms(3) by metis
    show ?thesis unfolding get [OF init(3) [OF held]] if_not_P [OF False] by (simp add: new_process_def l1_invs)
  qed
qed

text \<open>
  A leader that gets an outcome, be it a panic, always publishes it: its call leaves the map,
  so later requests for the key do not wait for it, and those that do wait are released.
\<close>

theorem leader_always_publishes:
  fixes ttlL1 :: duration and call :: nat
  assumes "result (backend_value n E r key ttlL2 config) s = Some x"
  defines "f \<equiv> call_map (exec (lead_call n E r key call ttlL1 ttlL2 config) s)"
  shows "inFlight f key = None \<and> finished (heap f call)"
  using lead_call_returns [OF assms(1), of call ttlL1] unfolding f_def
  by (auto simp: finishInFlight_def Let_def)

text \<open>
  A panic of the leader's fetch (the backend's body breaking off) spreads: what it publishes
  is the status 0 without an error, on which every follower panics in turn.
\<close>

theorem leader_panic_spreads:
  fixes ttlL1 :: duration and call :: nat
  assumes "result (backend_value n E r key ttlL2 config) s = Some Panic"
  defines "f \<equiv> call_map (exec (lead_call n E r key call ttlL1 ttlL2 config) s)"
  assumes "select_call E call = ret (CallDone (callData (heap f call)) (callStatus (heap f call)) (callErr (heap f call)))"
    and "\<not> wroteHeader (writer u)"
  shows "result (follow_call E call) u = Panic"
proof -
  have "callStatus (heap f call) = 0 \<and> callErr (heap f call) = None"
    using lead_call_returns [OF assms(1), of call ttlL1] unfolding f_def
    by (auto simp: finishInFlight_def Let_def)
  then show ?thesis using assms(3,4)
    by (simp add: follow_call_def run rwWriteHeader_def Let_def valid_status_def)
qed

section \<open>Witnesses\<close>

definition gateway :: "mini \<Rightarrow> mini hsys" where
  "gateway m = \<lparr>world = m, metrics = [], controller = NewAdaptiveTTLController, l1_cache = empty_l1,
     gatewayConfig = sample_config, configVersion = 3, call_map = no_flights, writer = newResponseWriter\<rparr>"

definition plain_config :: GatewayConfig where
  "plain_config = sample_config\<lparr>DistributedLockEnabled := False, SingleFlightEnabled := False, AdaptiveTTLEnabled := False\<rparr>"

lemma plain_fields [simp]: "\<not> DistributedLockEnabled plain_config" "\<not> SingleFlightEnabled plain_config"
  "BackendTimeoutMs plain_config = 2000" "L1MaxEntries plain_config = 100" "L2MaxEntries plain_config = 500"
  by (simp_all add: plain_config_def sample_config_def)

text \<open>Backends that answer, fail and break off.\<close>

definition backend_says :: "proxy_outcome \<Rightarrow> mini" where
  "backend_says out = empty_mini\<lparr>m_backend := [(10 * millisecond, out)]\<rparr>"

text \<open>Waiting for a call that its leader published with the zero values.\<close>

definition released_env :: "(mini, mval) env" where
  "released_env = mini_env\<lparr>select_call := (\<lambda>call. ret (CallDone [] 0 None))\<rparr>"

lemma released_same: "now released_env = now mini_env" "ctx_err released_env = ctx_err mini_env"
    "proxy_serve released_env = proxy_serve mini_env" "time_now released_env = time_now mini_env"
    "with_timeout released_env c d = with_timeout mini_env c d" "RequestURI released_env r = RequestURI mini_env r"
    "redis released_env c m = redis mini_env c m" "c_setnx released_env = c_setnx mini_env"
    "string_value released_env = string_value mini_env" "fafRefreshMarkerKey released_env k = fafRefreshMarkerKey mini_env k"
  by (simp_all add: released_env_def time_now_def with_timeout_def RequestURI_def redis_def redis_do_def
      fafRefreshMarkerKey_def)

lemma released_fetch: "fetchFromBackend released_env r ms = fetchFromBackend mini_env r ms"
  unfolding fetchFromBackend_def recordBackendCallForFAF_def released_same ..

lemma mini_says_value:
  "result (backend_value n mini_env sample_request key ttl plain_config) (gateway (backend_says out)) = Some
     (case out of
        Answered code body \<Rightarrow> Ret (no_KeyValue\<lparr>Value := body, RecomputeDuration := 10 * millisecond\<rparr>, code, None)
      | TransportError e \<Rightarrow> Ret (no_KeyValue\<lparr>Value := error_body ''Backend unavailable'',
          RecomputeDuration := 10 * millisecond\<rparr>, 502, Some e)
      | AbortPanic \<Rightarrow> Panic)"
  by (simp add: backend_value_def fetchFromBackend_def recordBackendCallForFAF_def run time_now_def with_timeout_def
      backend_says_def gateway_def empty_mini_def serve_recorded_def statuses m_lookup_def Let_def advance_def
      dur_mul_def wrap64_def sub_time_def split: proxy_outcome.split)

lemma released_says_value:
  "result (backend_value n released_env sample_request key ttl plain_config) (gateway (backend_says out)) =
   result (backend_value n mini_env sample_request key ttl plain_config) (gateway (backend_says out))"
  by (simp add: backend_value_def released_fetch)


theorem miss_then_hit_witness:
  "\<exists>v'. Value v' = ''body'' \<and>
    (\<forall>t. fst (getL1 ''/a'' t (l1_cache (exec (handleBackendNormally 0 mini_env sample_request ''/a'' (2 * second) (3 * second)
        plain_config) (gateway (backend_says (Answered 200 ''body'')))))) =
      (if L1Expiration v' < t \<or> (\<not> isZero (L2Expiration v') \<and> L2Expiration v' < t) then None else Some v'))"
proof -
  have inv: "l1_inv (l1_cache (gateway (backend_says (Answered 200 ''body''))))" by (simp add: gateway_def l1_invs)
  show ?thesis
    using miss_then_hit [OF mini_says_value [where out = "Answered 200 ''body''", unfolded proxy_outcome.case] _ inv,
        where ?ttlL1.0 = "2 * second" and n = 0 and key = "''/a''" and ?ttlL2.0 = "3 * second"]
    by (auto simp: status_ok_def)
qed

theorem request_keeps_cache_witness: "l1_inv (l1_cache (exec (ServeHTTP 1 mini_env sample_request) (gateway configured)))"
  by (rule request_keeps_cache) (simp add: gateway_def l1_invs)

theorem leader_always_publishes_witness:
  "inFlight (call_map (exec (lead_call 0 mini_env sample_request ''/a'' 0 second second plain_config)
     (gateway (backend_says AbortPanic)))) ''/a'' = None"
  using leader_always_publishes [OF mini_says_value [where out = AbortPanic, unfolded proxy_outcome.case]] by blast

theorem leader_panic_spreads_witness:
  "result (follow_call released_env 0) (gateway empty_mini) = Panic"
proof -
  let ?s = "gateway (backend_says AbortPanic)"
  let ?f = "call_map (exec (lead_call 0 released_env sample_request ''/a'' 0 second second plain_config) ?s)"
  note panics = released_says_value [where out = AbortPanic, unfolded mini_says_value proxy_outcome.case]
  have "callData (heap ?f 0) = [] \<and> callStatus (heap ?f 0) = 0 \<and> callErr (heap ?f 0) = None"
    by (simp add: lead_call_def run released_says_value mini_says_value finishInFlight_def Let_def)
  then have "select_call released_env 0 = ret (CallDone (callData (heap ?f 0)) (callStatus (heap ?f 0)) (callErr (heap ?f 0)))"
    by (simp add: released_env_def)
  moreover have "\<not> wroteHeader (writer (gateway empty_mini))" by (simp add: gateway_def newResponseWriter_def)
  ultimately show ?thesis by (rule leader_panic_spreads [OF panics])
qed

text \<open>A gateway that is configured and holds a value for the sample request.\<close>

definition warm :: "mini hsys" where
  "warm = (gateway configured)\<lparr>l1_cache := setL1 (RequestURI mini_env sample_request) (sample_value ''v'') 100 empty_l1\<rparr>"

lemma warm_config: "result (currentGatewayConfig mini_env c) warm = Inr sample_config"
    "exec (currentGatewayConfig mini_env c) warm = warm"
proof -
  have "result (GetConfigStore mini_env c) warm = Inr (sample_config, 3)" "exec (GetConfigStore mini_env c) warm = warm"
    by (simp_all add: GetConfigStore_def run warm_def gateway_def configured_def empty_mini_def m_lookup_def m_int_def
        gatewayConfigKey_def gatewayConfigVersionKey_def adaptive_ok_def sample_config_def)
  then show "result (currentGatewayConfig mini_env c) warm = Inr sample_config"
      "exec (currentGatewayConfig mini_env c) warm = warm"
    by (simp_all add: run_currentGatewayConfig install_config_def) (simp_all add: warm_def gateway_def)
qed

lemma warm_hit: "fst (getL1 (RequestURI mini_env sample_request) 0 (l1_cache warm)) = Some (sample_value ''v'')"
  using l1.get_after_put [OF l1_inv_empty, of 100 0 "sample_value ''v''" "RequestURI mini_env sample_request"]
  by (simp add: warm_def expired_at_def sample_value_def)

lemma warm_time: "exec (time_now mini_env) warm = warm" "result (time_now mini_env) warm = 0"
  by (simp_all add: run warm_def gateway_def configured_def empty_mini_def)

theorem l1_hit_is_local_witness:
  "result (ServeHTTP 0 mini_env sample_request) warm = Some (Ret ()) \<and>
   body_sent (writer (exec (ServeHTTP 0 mini_env sample_request) warm)) = ''v''"
proof -
  have "fst (getL1 (RequestURI mini_env sample_request)
      (result (time_now mini_env) (exec (time_now mini_env) (exec (currentGatewayConfig mini_env RequestCtx) warm)))
      (l1_cache (exec (time_now mini_env) (exec (currentGatewayConfig mini_env RequestCtx) warm)))) = Some (sample_value ''v'')"
    using warm_hit by (simp only: warm_config warm_time)
  from l1_hit_is_local [OF warm_config(1) this, of 0] show ?thesis
    unfolding warm_config warm_time
    by (simp add: warm_def gateway_def rwWrite_def rwWriteHeader_def newResponseWriter_def body_sent_def valid_status_def
        statuses sample_value_def Let_def)
qed

lemma unavailable: "result (ServeHTTP 0 mini_env sample_request) (gateway empty_mini) = Some (Ret ())"
proof -
  have "\<exists>e. result (GetConfigStore mini_env RequestCtx) (gateway empty_mini) = Inl e"
    by (simp add: GetConfigStore_def run gateway_def empty_mini_def m_lookup_def)
  moreover have "writer (exec (GetConfigStore mini_env RequestCtx) (gateway empty_mini)) = newResponseWriter"
    using frame_fields [OF frameD [OF frame_GetConfigStore]] by (metis gateway_def hsys.select_convs(5))
  ultimately show ?thesis
    by (auto simp: ServeHTTP_def run run_currentGatewayConfig rwError_def rwWriteHeader_def newResponseWriter_def
        statuses valid_status_def)
qed

theorem request_answered_witness:
  "\<exists>code. status_sent (writer (exec (ServeHTTP 0 mini_env sample_request) (gateway empty_mini))) = Some code"
  using request_answered [OF _ _ unavailable] rw_ok_new by (auto simp: gateway_def newResponseWriter_def Let_def)

theorem config_change_reaches_gateway_witness:
  "result (currentGatewayConfig mini_env RequestCtx)
     (gateway (world (exec (UpdateConfigStore mini_env Background (sample_config\<lparr>L1TTLSeconds := 5\<rparr>)) (mini_sys configured)))) =
   Inr (sample_config\<lparr>L1TTLSeconds := 5\<rparr>)"
  using config_change_reaches_gateway [OF mini_config.redis_config_axioms mini_reliable sample_config_go(2) _ configured_holds,
      of "gateway (world (exec (UpdateConfigStore mini_env Background (sample_config\<lparr>L1TTLSeconds := 5\<rparr>)) (mini_sys configured)))"
        Background]
  by (simp add: gateway_def in64_def adaptive_ok_def sample_config_def)

theorem new_handler_joins_witness:
  "\<exists>h. NewHandler mini_env (mini_sys empty_mini) = Inr h \<and> gatewayConfig h = defaultConfig \<and> configVersion h = 1"
proof -
  have k: "keys (mini_view (world (mini_sys empty_mini))) gatewayConfigKey = None"
    by (simp add: mini_view_def empty_mini_def)
  show ?thesis using new_handler_joins [OF mini_config.redis_config_axioms mini_reliable disjI1 [OF k]] k by auto
qed

end
