(* ===== verification/Config_Handler.thy ===== *)
theory Config_Handler
  imports Handler
begin

text \<open>
  Reading and changing the configuration over HTTP, \<open>gateway/cache_config_handler.go\<close>. The body
  of a request is what the JSON decoder makes of it: None when it fails. The encoder is a
  parameter; a configuration of finite floats always has an encoding. Log output is left out.
\<close>

definition StatusBadRequest :: int where "StatusBadRequest = 400"
definition StatusInternalServerError :: int where "StatusInternalServerError = 500"

lemmas config_statuses = statuses StatusBadRequest_def StatusInternalServerError_def

text \<open>The checks, in the order of the code, each with its message.\<close>

definition validateConfig :: "GatewayConfig \<Rightarrow> string option" where
  "validateConfig newConfig =
     (if L1MaxEntries newConfig < 0 then Some ''L1MaxEntries must be less than zero''
      else if L2MaxEntries newConfig \<le> 0 then Some ''L2MaxEntries must be greater than zero''
      else if L1MaxEntries newConfig > L2MaxEntries newConfig
        then Some ''L1MaxEntries must not be greater than L2MaxEntries''
      else if L1TTLSeconds newConfig \<le> 0 then Some ''L1TTLSeconds must be greater than zero''
      else if L2TTLSeconds newConfig \<le> 0 then Some ''L2TTLSeconds must be greater than zero''
      else if L1TTLSeconds newConfig > L2TTLSeconds newConfig
        then Some ''L1TTLSeconds must not be greater than L2TTLSeconds''
      else if BackendTimeoutMs newConfig \<le> 0 then Some ''BackendTimeoutMs must be greater than zero''
      else if EarlyRefreshBeta newConfig < rnd (1 / 10) \<or> EarlyRefreshBeta newConfig > 10
        then Some ''EarlyRefreshBeta must be between 0.1 and 10''
      else if AdaptiveTTLMinFactor newConfig \<le> 0 then Some ''AdaptiveTTLMinFactor must be greater than zero''
      else if AdaptiveTTLMinFactor newConfig > adaptiveTTLInitialFactor
        then Some ''AdaptiveTTLMinFactor must not be greater than 1''
      else if AdaptiveTTLMaxFactor newConfig < adaptiveTTLInitialFactor
        then Some ''AdaptiveTTLMaxFactor must not be smaller than 1''
      else if AdaptiveTTLMaxFactor newConfig < AdaptiveTTLMinFactor newConfig
        then Some ''AdaptiveTTLMaxFactor must not be smaller than AdaptiveTTLMinFactor''
      else if AdaptiveTTLLatencyThresholdMs newConfig \<le> 0
        then Some ''AdaptiveTTLLatencyThresholdMs must be greater than zero''
      else if AdaptiveTTLConcurrencyThreshold newConfig \<le> 0
        then Some ''AdaptiveTTLConcurrencyThreshold must be greater than zero''
      else if AdaptiveTTLAdjustmentIntervalMs newConfig \<le> 0
        then Some ''AdaptiveTTLAdjustmentIntervalMs must be greater than zero''
      else None)"

abbreviation set_json_header :: "(('w, 'x) hsys_scheme, unit) state" where
  "set_json_header \<equiv> on_writer (\<lambda>rw. ((), rw_step (CallSet ''Content-Type'' ''application/json'') rw))"

definition getCacheConfig :: "('w, 'v) env \<Rightarrow> (GatewayConfig \<Rightarrow> string) \<Rightarrow> (('w, 'x) hsys_scheme, unit go) state" where
  "getCacheConfig E encode = do {
     r \<leftarrow> currentGatewayConfig E RequestCtx;
     case r of
       Inl err \<Rightarrow> on_writer (rwError ''Failed to read gateway configuration'' StatusInternalServerError)
     | Inr config \<Rightarrow> do {
         _ \<leftarrow> set_json_header;
         _ \<leftarrow> rw_write (encode config);
         ret (Ret ()) } }"

text \<open>The state change under \<open>configMu\<close>.\<close>

definition change_config :: "GatewayConfig \<Rightarrow> int \<Rightarrow> (('w, 'x) hsys_scheme, unit) state" where
  "change_config newConfig version = State (\<lambda>h. ((),
     h\<lparr>gatewayConfig := newConfig, configVersion := version, l1_cache := clearL1 (l1_cache h)\<rparr>))"

definition apply_update :: "nat \<Rightarrow> ('w, 'v) env \<Rightarrow> (GatewayConfig \<Rightarrow> string) \<Rightarrow> GatewayConfig \<Rightarrow>
    (('w, 'x) hsys_scheme, unit go option) state" where
  "apply_update n E encode newConfig = do {
     r \<leftarrow> UpdateConfigStore E RequestCtx newConfig;
     case r of
       Inl err \<Rightarrow> do {
         x \<leftarrow> on_writer (rwError ''Failed to update gateway configuration'' StatusInternalServerError);
         ret (Some x) }
     | Inr version \<Rightarrow> do {
         _ \<leftarrow> change_config newConfig version;
         r \<leftarrow> clearL2 E RequestCtx;
         case r of
           Some err \<Rightarrow> do {
             x \<leftarrow> on_writer (rwError ''Configuration changed, but clearing L2 failed'' StatusInternalServerError);
             ret (Some x) }
         | None \<Rightarrow> do {
             r \<leftarrow> Reset n E RequestCtx (AdaptiveTTLEnabled newConfig);
             case r of
               None \<Rightarrow> ret None
             | Some (Some err) \<Rightarrow> do {
                 x \<leftarrow> on_writer (rwError ''Configuration changed, but resetting adaptive TTL failed''
                        StatusInternalServerError);
                 ret (Some x) }
             | Some None \<Rightarrow> do {
                 _ \<leftarrow> set_json_header;
                 x \<leftarrow> on_writer (rwWriteHeader StatusOK);
                 case x of
                   Panic \<Rightarrow> ret (Some Panic)
                 | Ret _ \<Rightarrow> do {
                     _ \<leftarrow> rw_write (encode newConfig);
                     ret (Some (Ret ())) } } } } }"

definition updateCacheConfig :: "nat \<Rightarrow> ('w, 'v) env \<Rightarrow> (GatewayConfig \<Rightarrow> string) \<Rightarrow> GatewayConfig option \<Rightarrow>
    (('w, 'x) hsys_scheme, unit go option) state" where
  "updateCacheConfig n E encode body =
     (case body of
        None \<Rightarrow> do {
          x \<leftarrow> on_writer (rwError ''Invalid request body'' StatusBadRequest);
          ret (Some x) }
      | Some newConfig \<Rightarrow> (case validateConfig newConfig of
          Some message \<Rightarrow> do {
            x \<leftarrow> on_writer (rwError message StatusBadRequest);
            ret (Some x) }
        | None \<Rightarrow> apply_update n E encode newConfig))"

section \<open>What a validated configuration guarantees\<close>


section \<open>Which keys an operation touches\<close>

text \<open>Between two moments of the server only names in \<open>S\<close> changed, be they keys or sorted sets.\<close>

definition only_touches :: "string set \<Rightarrow> 'v view \<Rightarrow> 'v view \<Rightarrow> bool" where
  "only_touches S v v' \<longleftrightarrow> server_time v \<le> server_time v' \<and>
     (\<forall>k. k \<notin> S \<longrightarrow> keys v' k = keys v k \<and> zsets v' k = zsets v k)"

lemma only_touches_refl [simp]: "only_touches S v v"
  by (simp add: only_touches_def)

lemma only_touches_trans: "only_touches S u v \<Longrightarrow> only_touches S v w \<Longrightarrow> only_touches S u w"
  by (auto simp: only_touches_def)

lemma only_touches_time: "server_time v \<le> t \<Longrightarrow> only_touches S v (v\<lparr>server_time := t\<rparr>)"
  by (simp add: only_touches_def)

lemma only_touches_put: "server_time v \<le> t \<Longrightarrow> k \<in> S \<Longrightarrow> only_touches S v ((put_key k x e v)\<lparr>server_time := t\<rparr>)"
  by (auto simp: only_touches_def)

lemma only_touches_del: "server_time v \<le> t \<Longrightarrow> set ks \<subseteq> S \<Longrightarrow> only_touches S v ((del_keys ks v)\<lparr>server_time := t\<rparr>)"
  by (auto simp: only_touches_def)

text \<open>What was gone stays gone, and what has no expiry stays.\<close>

lemma untouched_gone:
  "only_touches S v v' \<Longrightarrow> k \<notin> S \<Longrightarrow> lookup_at v k = None \<Longrightarrow> lookup_at v' k = None"
  by (auto simp: only_touches_def lookup_at_def split: option.splits if_splits)

lemma untouched_config:
  "only_touches S v v' \<Longrightarrow> gatewayConfigKey \<notin> S \<Longrightarrow> gatewayConfigVersionKey \<notin> S \<Longrightarrow>
   holds_config E v g n \<Longrightarrow> holds_config E v' g n"
  by (simp add: only_touches_def holds_config_def)

text \<open>The names of the adaptive controller.\<close>

abbreviation adaptive_names :: "string set" where
  "adaptive_names \<equiv> {adaptiveTTLControllerLockRedisKey, adaptiveTTLSnapshotRedisKey}"

abbreviation config_names :: "string set" where
  "config_names \<equiv> {gatewayConfigKey, gatewayConfigVersionKey}"

lemma names_distinct [simp]:
  "gatewayConfigKey \<notin> adaptive_names" "gatewayConfigVersionKey \<notin> adaptive_names"
  "l2LRUKey \<notin> adaptive_names" "l2LRUKey \<notin> config_names"
  by (simp_all add: gatewayConfigKey_def gatewayConfigVersionKey_def l2LRUKey_def
      adaptiveTTLControllerLockRedisKey_def adaptiveTTLSnapshotRedisKey_def)

text \<open>An operation touches only names in \<open>S\<close>.\<close>

definition touches :: "('w \<Rightarrow> 'v view) \<Rightarrow> string set \<Rightarrow> (('w, 'x) sys_scheme, 'a) state \<Rightarrow> bool" where
  "touches vw S m \<longleftrightarrow> (\<forall>s. only_touches S (vw (world s)) (vw (world (exec m s))))"

lemma touchesD: "touches vw S m \<Longrightarrow> only_touches S (vw (world s)) (vw (world (exec m s)))"
  by (simp add: touches_def)

lemma touches_bind: "touches vw S m \<Longrightarrow> (\<And>a. touches vw S (f a)) \<Longrightarrow> touches vw S (Monad_Syntax.bind m f)"
  unfolding touches_def run by (blast intro: only_touches_trans)

lemma touches_ret: "touches vw S (ret x)"
  by (simp add: touches_def run)

lemma touches_controller: "touches vw S (on_controller f)"
  by (simp add: touches_def run)

lemma touches_quiet:
  assumes "\<And>w. vw (exec m w) = served vw m w" and "\<And>w. time_passes vw m w"
  shows "touches vw S (on_world m)"
proof -
  have "keys (vw (exec m w)) = keys (vw w)" "zsets (vw (exec m w)) = zsets (vw w)" for w
    by (metis assms(1) served_simps(1), metis assms(1) served_simps(2))
  then show ?thesis using assms(2) by (simp add: touches_def run only_touches_def time_passes_def)
qed

lemma touches_cases:
  "(x = None \<Longrightarrow> touches vw S m) \<Longrightarrow> (\<And>y. x = Some y \<Longrightarrow> touches vw S (f y)) \<Longrightarrow> touches vw S (case_option m f x)"
  "(\<And>a. r = Inl a \<Longrightarrow> touches vw S (g a)) \<Longrightarrow> (\<And>b. r = Inr b \<Longrightarrow> touches vw S (h b)) \<Longrightarrow> touches vw S (case_sum g h r)"
  "(\<And>a b. p = (a, b) \<Longrightarrow> touches vw S (k a b)) \<Longrightarrow> touches vw S (case_prod k p)"
  "(q \<Longrightarrow> touches vw S m) \<Longrightarrow> (\<not> q \<Longrightarrow> touches vw S m') \<Longrightarrow> touches vw S (if q then m else m')"
  by (auto split: option.split sum.split prod.split)

lemmas touches_rules = touches_bind touches_ret touches_controller touches_cases

text \<open>What a gateway needs of Redis as a whole.\<close>

locale redis_gateway = redis_config E vw + redis_l2 E vw + redis_adaptive E vw
  for E :: "('w, 'v) env" and vw :: "'w \<Rightarrow> 'v view" +
  assumes wait_quiet: "vw (exec (sleep_or_done E c d) w) = served vw (sleep_or_done E c d) w"
    and wait_time: "time_passes vw (sleep_or_done E c d) w"
    and done_quiet: "vw (exec (ctx_err E c) w) = served vw (ctx_err E c) w"
    and done_time: "time_passes vw (ctx_err E c) w"
    and done_err: "\<not> result (sleep_or_done E c d) w \<Longrightarrow> result (ctx_err E c) (exec (sleep_or_done E c d) w) \<noteq> None"
begin

lemma touches_acquire: "touches vw adaptive_names (tryAcquireControllerLock E c)"
  unfolding touches_def
proof
  fix s :: "('w, 'a) csys_scheme"
  let ?v = "vw (world s)"
  obtain t where t: "server_time ?v \<le> t" and at: "lock_attempt E adaptiveTTLControllerLockRedisKey adaptiveTTLControllerLockTTL
      (?v\<lparr>server_time := t\<rparr>) (result (tryAcquireControllerLock E c) s) (vw (world (exec (tryAcquireControllerLock E c) s)))"
    using controller_attempt by blast
  from at show "only_touches adaptive_names ?v (vw (world (exec (tryAcquireControllerLock E c) s)))"
    by cases (use t in \<open>auto simp: only_touches_put only_touches_time\<close>)
qed

lemma touches_release: "touches vw adaptive_names (releaseControllerLock E tok)"
  unfolding touches_def
proof
  fix s :: "('w, 'a) csys_scheme"
  have "release_shape E adaptiveTTLControllerLockRedisKey tok (vw (world s)) (vw (world (exec (releaseControllerLock E tok) s)))"
    unfolding releaseControllerLock_same by (rule release_shape_lock)
  then show "only_touches adaptive_names (vw (world s)) (vw (world (exec (releaseControllerLock E tok) s)))"
    unfolding release_shape_def by (auto simp: only_touches_time intro!: only_touches_del)
qed

lemma touches_save: "reliable E \<Longrightarrow> touches vw adaptive_names (saveSharedSnapshot E c x)"
proof -
  assume rel: "reliable E"
  have "touches vw adaptive_names (redis E c (c_set E adaptiveTTLSnapshotRedisKey d 0) :: (('w, 'x) sys_scheme, _) state)" for d
    unfolding touches_def
  proof
    fix s :: "('w, 'x) sys_scheme"
    obtain t e where "server_time (vw (world s)) \<le> t"
        "vw (world (exec (redis E c (c_set E adaptiveTTLSnapshotRedisKey d 0)) s)) =
          put_key adaptiveTTLSnapshotRedisKey d e ((vw (world s))\<lparr>server_time := t\<rparr>)"
      using redis_set [OF rel ttl_ok_0] by blast
    then show "only_touches adaptive_names (vw (world s))
        (vw (world (exec (redis E c (c_set E adaptiveTTLSnapshotRedisKey d 0)) s)))"
      by (simp add: only_touches_put)
  qed
  then show ?thesis unfolding saveSharedSnapshot_def by (intro touches_rules)
qed

lemma touches_reset: "reliable E \<Longrightarrow> touches vw adaptive_names (Reset n E c enabled)"
proof (induction n)
  case (Suc n)
  have wait: "touches vw adaptive_names (on_world (sleep_or_done E c d))"
      "touches vw adaptive_names (on_world (ctx_err E c))" for d
    by (intro touches_quiet wait_quiet wait_time done_quiet done_time)+
  show ?case
    unfolding Reset.simps reset_as_owner_def waitForAdaptiveTTLInterval_def
    by (intro touches_rules touches_acquire touches_release touches_save Suc wait Suc.prems)
qed (simp add: touches_ret)

text \<open>The three steps of an accepted change.\<close>

lemma update_only:
  assumes rel: "reliable E" and g: "go_config g" and n: "in64 (n + 1)" and held: "holds_config E (vw (world s)) g0 n"
  shows "only_touches config_names (vw (world s)) (vw (world (exec (UpdateConfigStore E c g) s)))"
proof -
  obtain d where d: "enc_config E g = Some d" using config_json [OF g] by blast
  let ?w = "exec (link_status E c) (world s)"
  obtain t where t: "server_time (vw (world s)) \<le> t" "vw ?w = (vw (world s))\<lparr>server_time := t\<rparr>" using link_view by blast
  obtain x where x: "keys (vw ?w) gatewayConfigVersionKey = Some (x, None)" "parse_int E x = Some n"
    using held t by (auto simp: holds_config_def)
  note tr = transaction_effect [OF x(2,1) n, of d]
  have "exec (UpdateConfigStore E c g) s = s\<lparr>world := exec (update_transaction E d) ?w\<rparr>"
    using d tr(1) by (simp add: UpdateConfigStore_def run redis_delivered [OF rel])
  then show ?thesis using tr(2) t by (auto simp: only_touches_def)
qed

lemma clear_only:
  assumes rel: "reliable E" and ix: "l2_indexed K (vw (world s))"
  shows "result (clearL2 E c) s = None"
    and "only_touches (insert l2LRUKey K) (vw (world s)) (vw (world (exec (clearL2 E c) s)))"
    and "k \<in> K \<Longrightarrow> lookup_at (vw (world (exec (clearL2 E c) s))) k = None"
    and "zsets (vw (world (exec (clearL2 E c) s))) l2LRUKey = Map.empty"
proof -
  obtain ks u where ks: "set ks = dom (zsets (vw (world s)) l2LRUKey)" "server_time (vw (world s)) \<le> u"
      "result (clearL2 E c) s = None"
      "vw (world (exec (clearL2 E c) s)) = (del_keys (ks @ [l2LRUKey]) (vw (world s)))\<lparr>server_time := u\<rparr>"
    using clearL2_effect [OF rel, where s = s and c = c] by blast
  show "result (clearL2 E c) s = None" by (rule ks(3))
  show "only_touches (insert l2LRUKey K) (vw (world s)) (vw (world (exec (clearL2 E c) s)))"
    unfolding ks(4) by (rule only_touches_del [OF ks(2)]) (use ks(1) ix in \<open>auto simp: l2_indexed_def\<close>)
  show "zsets (vw (world (exec (clearL2 E c) s))) l2LRUKey = Map.empty" by (simp add: ks(4))
  assume k: "k \<in> K"
  have "lookup_at (del_keys (ks @ [l2LRUKey]) (vw (world s))) k = None"
    using ix k ks(1) by (auto simp: lookup_at_del l2_indexed_def)
  then show "lookup_at (vw (world (exec (clearL2 E c) s))) k = None"
    unfolding ks(4) using lookup_at_later [of "del_keys (ks @ [l2LRUKey]) (vw (world s))" u k] ks(2)
    by (cases "lookup_at ((del_keys (ks @ [l2LRUKey]) (vw (world s)))\<lparr>server_time := u\<rparr>) k") auto
qed

lemma reset_done: "reliable E \<Longrightarrow> result (Reset n E c enabled) s = Some None \<Longrightarrow>
    controller (exec (Reset n E c enabled) s) = applySnapshot (resetSnapshot enabled) (controller s)"
proof (induction n arbitrary: s)
  case (Suc n)
  have go: "go_snapshot (resetSnapshot enabled)"
    using rnd_of_int [of 1] by (simp add: go_snapshot_def resetSnapshot_def adaptiveTTLInitialFactor_def in64_def)
  let ?s1 = "exec (tryAcquireControllerLock E c) s"
  note save = save_publishes [OF Suc.prems(1) go, of c ?s1]
  show ?case
  proof (cases "result (tryAcquireControllerLock E c) s")
    case (Inr p)
    obtain tok won where p: "p = (tok, won)" by (cases p)
    show ?thesis
    proof (cases won)
      case True
      then show ?thesis using Inr p save
        by (simp add: run reset_as_owner_def attempt_keeps_controller release_keeps(2))
    next
      case False
      let ?w = "waitForAdaptiveTTLInterval E c adaptiveTTLControllerLockPollInterval"
      have c2: "controller (exec ?w ?s1) = controller s"
        by (simp add: waitForAdaptiveTTLInterval_def run attempt_keeps_controller)
      show ?thesis
      proof (cases "result ?w ?s1")
        case True
        have "result (Reset n E c enabled) (exec ?w ?s1) = Some None"
          using Suc.prems(2) Inr p False True by (simp add: run)
        from Suc.IH [OF Suc.prems(1) this] show ?thesis using Inr p False True c2 by (simp add: run)
      next
        case stop: False
        then have "result (ctx_err E c) (world (exec ?w ?s1)) \<noteq> None"
          using done_err by (simp add: waitForAdaptiveTTLInterval_def run)
        then show ?thesis using Suc.prems(2) Inr p False stop by (simp add: run)
      qed
    qed
  qed (use Suc.prems in \<open>simp add: run\<close>)
qed (simp add: run)

lemma indexed_update:
  assumes rel: "reliable E" and g: "go_config g" and n: "in64 (n + 1)"
    and held: "holds_config E (vw (world s)) g0 n" and ix: "l2_indexed K (vw (world s))"
    and apart: "K \<inter> (config_names \<union> adaptive_names) = {}"
  shows "l2_indexed K (vw (world (exec (UpdateConfigStore E c g) s)))"
  using ix apart update_only [OF rel g n held, of c] untouched_gone [OF update_only [OF rel g n held, of c]]
  unfolding l2_indexed_def by (metis (no_types, opaque_lifting) only_touches_def Int_iff Un_iff empty_iff names_distinct(4))

text \<open>The server and the process after the three steps, in order.\<close>

lemma change_effect:
  fixes s :: "('w, 'x) hsys_scheme" and m :: nat and enabled :: bool
  assumes rel: "reliable E" and g: "go_config g" and n: "in64 (n + 1)"
    and held: "holds_config E (vw (world s)) g0 n" and ix: "l2_indexed K (vw (world s))"
    and apart: "K \<inter> (config_names \<union> adaptive_names) = {}"
  defines "s1 \<equiv> exec (UpdateConfigStore E RequestCtx g) s"
  defines "s2 \<equiv> exec (change_config g (n + 1)) s1"
  defines "s3 \<equiv> exec (clearL2 E RequestCtx) s2"
  defines "s4 \<equiv> exec (Reset m E RequestCtx enabled) s3"
  shows "result (UpdateConfigStore E RequestCtx g) s = Inr (n + 1)" and "result (clearL2 E RequestCtx) s2 = None"
    and "holds_config E (vw (world s4)) g (n + 1)" and "k \<in> K \<Longrightarrow> lookup_at (vw (world s4)) k = None"
    and "zsets (vw (world s4)) l2LRUKey = Map.empty"
proof -
  note up = update_effect [OF rel g n held, of RequestCtx, folded s1_def]
  have w2: "world s2 = world s1" by (simp add: s2_def change_config_def run)
  have "l2_indexed K (vw (world s1))" unfolding s1_def by (rule indexed_update [OF rel g n held ix apart])
  then have ix2: "l2_indexed K (vw (world s2))" by (simp add: w2)
  note cl = clear_only [OF rel ix2, where c = RequestCtx, folded s3_def]
  have t4: "only_touches adaptive_names (vw (world s3)) (vw (world s4))"
    unfolding s4_def by (rule touchesD [OF touches_reset [OF rel]])
  show "result (UpdateConfigStore E RequestCtx g) s = Inr (n + 1)" "result (clearL2 E RequestCtx) s2 = None"
    by (fact up(1) cl(1))+
  have "gatewayConfigKey \<notin> insert l2LRUKey K" "gatewayConfigVersionKey \<notin> insert l2LRUKey K"
    using apart by (auto simp: l2LRUKey_def gatewayConfigKey_def gatewayConfigVersionKey_def)
  then have "holds_config E (vw (world s3)) g (n + 1)"
    using untouched_config [OF cl(2)] up(2) by (simp add: w2)
  then show "holds_config E (vw (world s4)) g (n + 1)" by (rule untouched_config [OF t4 names_distinct(1,2)])
  show "lookup_at (vw (world s4)) k = None" if "k \<in> K"
    using that apart by (intro untouched_gone [OF t4 _ cl(3)]) auto
  show "zsets (vw (world s4)) l2LRUKey = Map.empty"
    using t4 cl(4) names_distinct(3) by (simp add: only_touches_def)
qed

end

context redis_gateway
begin

text \<open>With the controller lock free, one round of \<open>Reset\<close> is enough.\<close>

lemma reset_returns:
  assumes "lookup_at (vw (world s)) adaptiveTTLControllerLockRedisKey = None"
  shows "\<exists>r. result (Reset (Suc n) E c enabled) s = Some r"
proof -
  let ?r = "result (tryAcquireControllerLock E c) s"
  obtain t where t: "server_time (vw (world s)) \<le> t" and at: "lock_attempt E adaptiveTTLControllerLockRedisKey
      adaptiveTTLControllerLockTTL ((vw (world s))\<lparr>server_time := t\<rparr>) ?r (vw (world (exec (tryAcquireControllerLock E c) s)))"
    using controller_attempt by blast
  have free: "lookup_at ((vw (world s))\<lparr>server_time := t\<rparr>) adaptiveTTLControllerLockRedisKey = None"
    using untouched_gone [OF only_touches_time [OF t, of "{}"] _ assms] by simp
  from at have "(\<exists>e. ?r = Inl e) \<or> (\<exists>tok. ?r = Inr (tok, True))"
    by cases (use free in auto)
  then show ?thesis by (auto simp: run)
qed

lemma reached_reset_free:
  assumes "reliable E" and "go_config g" and "in64 (n + 1)"
    and "holds_config E (vw (world s)) g0 n" and "l2_indexed K (vw (world s))"
    and "K \<inter> (config_names \<union> adaptive_names) = {}"
    and "lookup_at (vw (world s)) adaptiveTTLControllerLockRedisKey = None"
  shows "lookup_at (vw (world (exec (clearL2 E c) (exec (change_config g (n + 1)) (exec (UpdateConfigStore E c' g) s)))))
    adaptiveTTLControllerLockRedisKey = None"
proof -
  let ?s1 = "exec (UpdateConfigStore E c' g) s"
  have t1: "only_touches config_names (vw (world s)) (vw (world ?s1))" by (rule update_only [OF assms(1-4)])
  have apart: "adaptiveTTLControllerLockRedisKey \<notin> config_names" "adaptiveTTLControllerLockRedisKey \<notin> insert l2LRUKey K"
    using assms(6) by (auto simp: gatewayConfigKey_def gatewayConfigVersionKey_def l2LRUKey_def
        adaptiveTTLControllerLockRedisKey_def)
  have "l2_indexed K (vw (world ?s1))" by (rule indexed_update [OF assms(1-6)])
  then have ix: "l2_indexed K (vw (world (exec (change_config g (n + 1)) ?s1)))" by (simp add: change_config_def run)
  show ?thesis
    using untouched_gone [OF clear_only(2) [OF assms(1) ix, of c] apart(2)] untouched_gone [OF t1 apart(1) assms(7)]
    by (simp add: change_config_def run)
qed

lemma update_returns:
  assumes "reliable E" and valid: "validateConfig g = None" and "go_config g" and "in64 (v + 1)"
    and "holds_config E (vw (world s)) g0 v" and "l2_indexed K (vw (world s))"
    and "K \<inter> (config_names \<union> adaptive_names) = {}"
    and free: "lookup_at (vw (world s)) adaptiveTTLControllerLockRedisKey = None"
  shows "\<exists>x. result (updateCacheConfig (Suc n) E encode (Some g)) s = Some x"
proof -
  let ?s3 = "exec (clearL2 E RequestCtx) (exec (change_config g (v + 1)) (exec (UpdateConfigStore E RequestCtx g) s))"
  note h = assms(1,3-7)
  note eff = change_effect(1,2) [OF h]
  obtain r where "result (Reset (Suc n) E RequestCtx (AdaptiveTTLEnabled g)) ?s3 = Some r"
    using reset_returns [OF reached_reset_free [OF h free]] by blast
  then show ?thesis using eff valid
    by (cases r) (auto simp: updateCacheConfig_def apply_update_def run split: go.split)
qed

end

text \<open>What the last two steps leave of the process.\<close>

lemma frame_clearL2: "keeps (frame z) (clearL2 E c)"
  unfolding clearL2_def by (intro wp)

lemma process_redis: "keeps (\<lambda>s. csys.more s = z) (redis E c cmd)"
  by (simp add: keeps_def run redis_def)

lemma process_world: "keeps (\<lambda>s. csys.more s = z) (on_world u)"
  by (simp add: keeps_def run)

lemma process_controller: "keeps (\<lambda>s. csys.more s = z) (on_controller f)"
  by (simp add: keeps_def run)

lemma process_reset: "keeps (\<lambda>s. csys.more s = z) (Reset n E c enabled)"
proof (induction n)
  case (Suc n)
  then show ?case
    unfolding Reset.simps tryAcquireControllerLock_def newDistributedLockToken_def reset_as_owner_def
      releaseControllerLock_def saveSharedSnapshot_def waitForAdaptiveTTLInterval_def with_timeout_def
    by (intro wp process_redis process_world process_controller)
qed (simp add: wp)

lemma reset_frame: "csys.more (exec (Reset n E c enabled) s) = csys.more s"
  by (rule keepsD [where I = "\<lambda>t. csys.more t = csys.more s", OF process_reset refl])

lemma process_fields: "csys.more s = csys.more (t :: ('w, 'x) hsys_scheme) \<Longrightarrow>
    l1_cache s = l1_cache t \<and> gatewayConfig s = gatewayConfig t \<and> configVersion s = configVersion t \<and> writer s = writer t"
  by (cases s, cases t) simp

lemma frame_UpdateConfigStore: "keeps (frame z) (UpdateConfigStore E c g)"
  unfolding UpdateConfigStore_def by (intro wp)

lemma process_kept:
  fixes s :: "('w, 'x) hsys_scheme" and E :: "('w, 'v) env" and g :: GatewayConfig and v :: int
  defines "s1 \<equiv> exec (UpdateConfigStore E RequestCtx g) s"
  defines "s3 \<equiv> exec (clearL2 E RequestCtx) (exec (change_config g v) s1)"
  shows "gatewayConfig (exec (Reset n E RequestCtx en) s3) = g" "configVersion (exec (Reset n E RequestCtx en) s3) = v"
    "cache (l1_cache (exec (Reset n E RequestCtx en) s3)) = fmempty"
    "writer (exec (Reset n E RequestCtx en) s3) = writer s" "controller s3 = controller s"
proof -
  have 1: "writer s1 = writer s" "controller s1 = controller s"
    unfolding s1_def using frame_fields [OF frameD [OF frame_UpdateConfigStore]] by blast+
  let ?s2 = "exec (change_config g v) s1"
  have 3: "sys.more s3 = sys.more ?s2" unfolding s3_def by (rule frameD [OF frame_clearL2])
  have 4: "csys.more (exec (Reset n E RequestCtx en) s3) = csys.more s3" by (rule reset_frame)
  show "gatewayConfig (exec (Reset n E RequestCtx en) s3) = g" "configVersion (exec (Reset n E RequestCtx en) s3) = v"
    "cache (l1_cache (exec (Reset n E RequestCtx en) s3)) = fmempty"
    "writer (exec (Reset n E RequestCtx en) s3) = writer s" "controller s3 = controller s"
    using process_fields [OF 4] frame_fields [OF 3] 1 by (simp_all add: change_config_def run clearL1_def)
qed

text \<open>The response after them.\<close>

lemma apply_update_run:
  assumes "result (UpdateConfigStore E RequestCtx g) s = Inr v"
  defines "s2 \<equiv> exec (change_config g v) (exec (UpdateConfigStore E RequestCtx g) s)"
  assumes "result (clearL2 E RequestCtx) s2 = None"
  defines "s3 \<equiv> exec (clearL2 E RequestCtx) s2"
  assumes "result (Reset n E RequestCtx (AdaptiveTTLEnabled g)) s3 = Some r"
    and "\<not> wroteHeader (writer (exec (Reset n E RequestCtx (AdaptiveTTLEnabled g)) s3))"
  shows "\<exists>rw. exec (apply_update n E encode g) s = (exec (Reset n E RequestCtx (AdaptiveTTLEnabled g)) s3)\<lparr>writer := rw\<rparr> \<and>
    statusCode rw = (if r = None then 200 else 500)"
  using assms
  by (auto simp: apply_update_def run rwError_def rwWriteHeader_def rwWrite_def Let_def config_statuses valid_status_def
      split: option.split)

lemma mini_waits:
  "mini_view (exec (sleep_or_done mini_env c d) w) = served mini_view (sleep_or_done mini_env c d) w"
  "time_passes mini_view (sleep_or_done mini_env c d) w"
  "mini_view (exec (ctx_err mini_env c) w) = served mini_view (ctx_err mini_env c) w"
  "time_passes mini_view (ctx_err mini_env c) w"
  "\<not> result (sleep_or_done mini_env c d) w \<Longrightarrow> result (ctx_err mini_env c) (exec (sleep_or_done mini_env c d) w) \<noteq> None"
  by (simp_all add: mini_laws advance_def)

interpretation mini_gateway: redis_gateway mini_env mini_view
  by unfold_locales (fact mini_waits)+

section \<open>Configurations at the edge\<close>

definition tiny_factor :: GatewayConfig where
  "tiny_factor = defaultConfig\<lparr>AdaptiveTTLEnabled := True, AdaptiveTTLMinFactor := 1 / 2 ^ 40\<rparr>"

definition long_ttl :: GatewayConfig where
  "long_ttl = defaultConfig\<lparr>L2TTLSeconds := 10 ^ 10\<rparr>"

lemma rnd_tenth: "rnd (1 / 10) \<le> 1"
  using rnd_mono [of "1 / 10" 1] rnd_of_int [of 1] by simp

lemma edge_accepted: "validateConfig tiny_factor = None" "validateConfig long_ttl = None"
  using rnd_tenth
  by (simp_all add: validateConfig_def tiny_factor_def long_ttl_def defaultConfig_def adaptive_defaults
      adaptiveTTLInitialFactor_def not_less [symmetric])

lemma tiny_scaled: "0 \<le> n \<Longrightarrow> n \<le> 2 ^ 36 \<Longrightarrow> f64_to_i64 oor (fmul (f64_of_int n) (1 / 1099511627776)) = 0"
proof -
  assume n: "0 \<le> n" "n \<le> 2 ^ 36"
  have scaled: "fmul (f64_of_int n) (1 / 1099511627776) = of_int n / 1099511627776"
    using n rnd_dyadic [of n 40] by (cases "n = 0") (simp_all add: fmul_def f64_of_int_exact)
  have "(of_int n :: rat) \<le> 2 ^ 36" using n(2) by (metis of_int_le_iff of_int_numeral of_int_power)
  then have "ftrunc (of_int n / 1099511627776) = 0" using n(1) by (simp add: ftrunc_def floor_eq_iff)
  then show ?thesis unfolding f64_to_i64_def scaled by (simp add: in64_def)
qed

lemma long_scaled: "f64_to_i64 oor (fmul (f64_of_int (dur_mul (10 ^ 10) second)) 1) = - 8446744073709551616"
proof -
  have d: "dur_mul (10 ^ 10) second = - 8446744073709551616" by (simp add: dur_mul_def wrap64_def)
  have "rnd_pos 8446744073709551616 = 8446744073709551616"
    by (rule rnd_pos_exact [of _ 16110885760707 19]) (simp_all add: emin_def power_int_def)
  then have "f64_of_int (- 8446744073709551616) = - 8446744073709551616" by (simp add: f64_of_int_def rnd_def)
  then have "fmul (f64_of_int (- 8446744073709551616)) 1 = of_int (- 8446744073709551616)"
    using rnd_idem [of "of_int (- 8446744073709551616)"] by (simp add: fmul_def f64_of_int_def)
  then show ?thesis unfolding d f64_to_i64_def by (simp only: ftrunc_of_int) (simp add: in64_def)
qed

section \<open>Properties\<close>


text \<open>
  A body that does not decode or does not pass the checks is answered with status 400 and
  changes nothing but the response.
\<close>

theorem rejected_config_changes_nothing:
  assumes "\<And>g. body = Some g \<Longrightarrow> validateConfig g \<noteq> None" and "\<not> wroteHeader (writer s)"
  shows "\<exists>rw. exec (updateCacheConfig n E encode body) s = s\<lparr>writer := rw\<rparr> \<and> statusCode rw = 400 \<and>
    result (updateCacheConfig n E encode body) s = Some (Ret ())"
  using assms
  by (auto simp: updateCacheConfig_def run rwError_def rwWriteHeader_def rwWrite_def Let_def config_statuses valid_status_def
      split: option.split)

text \<open>
  C10. An accepted change takes effect: over a Redis that delivers, once the handler returns the
  server holds the new configuration as the next version, this process runs under it with an
  empty first-level cache, and no value of the second-level cache is left. With status 200 the
  adaptive controller has been reset too.
\<close>

theorem accepted_config_takes_effect:
  assumes "redis_gateway E vw" and "reliable E" and "validateConfig g = None" and "go_config g" and "in64 (v + 1)"
    and "holds_config E (vw (world s)) g0 v" and "l2_indexed K (vw (world s))"
    and "K \<inter> {gatewayConfigKey, gatewayConfigVersionKey, adaptiveTTLControllerLockRedisKey, adaptiveTTLSnapshotRedisKey} = {}"
    and "\<not> wroteHeader (writer s)" and "result (updateCacheConfig n E encode (Some g)) s = Some x"
  shows "let s' = exec (updateCacheConfig n E encode (Some g)) s in
    holds_config E (vw (world s')) g (v + 1) \<and> gatewayConfig s' = g \<and> configVersion s' = v + 1 \<and>
    (\<forall>k t. fst (getL1 k t (l1_cache s')) = None) \<and>
    (\<forall>k \<in> K. lookup_at (vw (world s')) k = None) \<and> zsets (vw (world s')) l2LRUKey = Map.empty \<and>
    (statusCode (writer s') = 200 \<longrightarrow>
       controller s' = applySnapshot (resetSnapshot (AdaptiveTTLEnabled g)) (controller s))"
proof -
  let ?s1 = "exec (UpdateConfigStore E RequestCtx g) s"
  let ?s2 = "exec (change_config g (v + 1)) ?s1"
  let ?s3 = "exec (clearL2 E RequestCtx) ?s2" and ?en = "AdaptiveTTLEnabled g"
  let ?s4 = "exec (Reset n E RequestCtx ?en) ?s3"
  have apart: "K \<inter> (config_names \<union> adaptive_names) = {}" using assms(8) by auto
  note eff = redis_gateway.change_effect(1,2) [OF assms(1,2,4-7) apart]
    redis_gateway.change_effect(3-5) [OF assms(1,2,4-7) apart, where m = n and enabled = ?en]
  note kept = process_kept(1-4) [where s = s and g = g and v = "v + 1" and n = n and en = ?en and E = E]
    process_kept(5) [where s = s and g = g and v = "v + 1" and E = E]
  have run_eq: "updateCacheConfig n E encode (Some g) = apply_update n E encode g"
    using assms(3) by (simp add: updateCacheConfig_def)
  obtain r where r: "result (Reset n E RequestCtx ?en) ?s3 = Some r"
    using assms(10) eff(1,2) unfolding run_eq by (auto simp: apply_update_def run split: option.splits)
  obtain rw where rw: "exec (apply_update n E encode g) s = ?s4\<lparr>writer := rw\<rparr>" "statusCode rw = (if r = None then 200 else 500)"
    using apply_update_run [OF eff(1,2) r] kept(4) assms(9) by auto
  have "r = None \<Longrightarrow> controller ?s4 = applySnapshot (resetSnapshot ?en) (controller s)"
    using r kept(5) by (simp add: redis_gateway.reset_done [OF assms(1,2)])
  then show ?thesis
    unfolding run_eq rw(1) Let_def using eff(3-5) kept(1-3) rw(2) by (auto simp: getL1_def)
qed

text \<open>
  The handler returns: when no gateway holds the controller lock, one round of the retry
  loop is enough.
\<close>

theorem accepted_config_returns:
  assumes "redis_gateway E vw" and "reliable E" and "validateConfig g = None" and "go_config g" and "in64 (v + 1)"
    and "holds_config E (vw (world s)) g0 v" and "l2_indexed K (vw (world s))"
    and "K \<inter> {gatewayConfigKey, gatewayConfigVersionKey, adaptiveTTLControllerLockRedisKey, adaptiveTTLSnapshotRedisKey} = {}"
    and "lookup_at (vw (world s)) adaptiveTTLControllerLockRedisKey = None" and "0 < n"
  shows "\<exists>x. result (updateCacheConfig n E encode (Some g)) s = Some x"
proof -
  have "K \<inter> (config_names \<union> adaptive_names) = {}" using assms(8) by auto
  from redis_gateway.update_returns [OF assms(1-7) this assms(9), of "n - 1"] assms(10) show ?thesis by simp
qed

text \<open>
  The checks do not keep the times to live in range. With a small lower factor bound the
  controller scales them to 0, which Redis takes as no expiry at all; and a large one overflows
  to a negative duration.
\<close>

theorem accepted_ttls_out_of_range:
  "validateConfig tiny_factor = None \<and>
   effectiveCacheTTLs E tiny_factor (ctl\<lparr>currentFactor := AdaptiveTTLMinFactor tiny_factor\<rparr>) = (0, 0, 1 / 2 ^ 40) \<and>
   validateConfig long_ttl = None \<and>
   effectiveCacheTTLs E long_ttl ctl = (15 * second, - 8446744073709551616, 1)"
proof -
  have off: "\<not> AdaptiveTTLEnabled long_ttl" "L1TTLSeconds long_ttl = 15" "L2TTLSeconds long_ttl = 10 ^ 10"
    by (simp_all add: long_ttl_def defaultConfig_def)
  have tiny: "AdaptiveTTLEnabled tiny_factor" "L1TTLSeconds tiny_factor = 15" "L2TTLSeconds tiny_factor = 30"
      "AdaptiveTTLMinFactor tiny_factor = 1 / 2 ^ 40" "AdaptiveTTLMaxFactor tiny_factor = 4"
    by (simp_all add: tiny_factor_def defaultConfig_def adaptive_defaults)
  have d: "dur_mul 15 second = 15 * second" "dur_mul 30 second = 30 * second" by (simp_all add: dur_mul_def wrap64_def)
  have "effectiveCacheTTLs E tiny_factor (ctl\<lparr>currentFactor := 1 / 2 ^ 40\<rparr>) = (0, 0, 1 / 2 ^ 40)"
    by (simp add: effective_run clampAdaptiveTTLFactor_def tiny d Let_def tiny_scaled)
  moreover have "effectiveCacheTTLs E long_ttl ctl = (15 * second, - 8446744073709551616, 1)"
    unfolding effective_run off d Let_def by (simp only: if_False off long_scaled) (simp add: scaled_by_one)
  ultimately show ?thesis unfolding tiny using edge_accepted by blast
qed

section \<open>Witnesses\<close>

lemma sample_accepted: "validateConfig sample_config = None"
  using rnd_tenth
  by (simp add: validateConfig_def sample_config_def adaptiveTTLInitialFactor_def not_less [symmetric])


theorem rejected_config_changes_nothing_witness:
  "\<exists>rw. exec (updateCacheConfig 0 mini_env (\<lambda>_. ''{}'') (Some (sample_config\<lparr>L2MaxEntries := 0\<rparr>))) (gateway configured) =
     (gateway configured)\<lparr>writer := rw\<rparr> \<and> statusCode rw = 400"
  using rejected_config_changes_nothing [of "Some (sample_config\<lparr>L2MaxEntries := 0\<rparr>)" "gateway configured" 0 mini_env "\<lambda>_. ''{}''"]
  by (auto simp: validateConfig_def sample_config_def gateway_def newResponseWriter_def)

text \<open>The configured server of before, with one value in the cache.\<close>

definition busy_server :: mini where
  "busy_server = configured\<lparr>m_keys := (m_keys configured)(''/a'' \<mapsto> (ML2 (to_l2 (sample_value ''v'')), None)),
     m_zsets := (m_zsets configured)(l2LRUKey := [(''/a'', 0)])\<rparr>"

lemma busy_holds: "holds_config mini_env (mini_view (world (gateway busy_server))) sample_config 3"
    "l2_indexed {''/a''} (mini_view (world (gateway busy_server)))"
    "lookup_at (mini_view (world (gateway busy_server))) adaptiveTTLControllerLockRedisKey = None"
    "{''/a''} \<inter> {gatewayConfigKey, gatewayConfigVersionKey, adaptiveTTLControllerLockRedisKey, adaptiveTTLSnapshotRedisKey} = {}"
    "\<not> wroteHeader (writer (gateway busy_server))"
  by (simp_all add: holds_config_def l2_indexed_def busy_server_def configured_def gateway_def mini_view_def empty_mini_def
      lookup_at_def newResponseWriter_def gatewayConfigKey_def gatewayConfigVersionKey_def l2LRUKey_def
      adaptiveTTLControllerLockRedisKey_def adaptiveTTLSnapshotRedisKey_def)

theorem accepted_config_returns_witness:
  "\<exists>x. result (updateCacheConfig 1 mini_env (\<lambda>_. ''{}'') (Some sample_config)) (gateway busy_server) = Some x"
  by (rule accepted_config_returns [OF mini_gateway.redis_gateway_axioms mini_reliable sample_accepted sample_config_go(1) _
        busy_holds(1,2,4,3)]) (simp_all add: in64_def)

lemma busy_returns: "\<exists>x. result (updateCacheConfig 1 mini_env (\<lambda>_. ''{}'') (Some sample_config)) (gateway busy_server) = Some x"
proof -
  have apart: "{''/a''} \<inter> (config_names \<union> adaptive_names) = {}" using busy_holds(4) by auto
  have n: "in64 (3 + 1)" by (simp add: in64_def)
  show ?thesis
    using mini_gateway.update_returns [OF mini_reliable sample_accepted sample_config_go(1) n busy_holds(1,2) apart
        busy_holds(3), of 0] by simp
qed

theorem accepted_config_takes_effect_witness:
  "let s' = exec (updateCacheConfig 1 mini_env (\<lambda>_. ''{}'') (Some sample_config)) (gateway busy_server) in
   configVersion s' = 4 \<and> lookup_at (mini_view (world s')) ''/a'' = None"
proof -
  obtain x where "result (updateCacheConfig 1 mini_env (\<lambda>_. ''{}'') (Some sample_config)) (gateway busy_server) = Some x"
    using busy_returns by blast
  from accepted_config_takes_effect [OF mini_gateway.redis_gateway_axioms mini_reliable sample_accepted sample_config_go(1) _
      busy_holds(1,2,4,5) this]
  show ?thesis by (simp add: in64_def Let_def)
qed

end
