(* ===== verification/Middleware.thy ===== *)
theory Middleware
  imports Handler
begin

text \<open>
  What wraps the request handler: \<open>gateway/middleware.go\<close>, in the order in which
  \<open>gateway/main.go\<close> installs it. The metrics middleware puts the response wrapper around the
  server's writer and counts a user request when its handler has returned.
\<close>

definition HasPrefix :: "string \<Rightarrow> string \<Rightarrow> bool" where
  "HasPrefix s prefix \<longleftrightarrow> take (length prefix) s = prefix"

definition isUserRequest :: "request \<Rightarrow> bool" where
  "isUserRequest req \<longleftrightarrow> HasPrefix (Path req) ''/api/backend/''"

text \<open>A new wrapper around what the server has already been told.\<close>

definition wrap_writer :: "ResponseWriter \<Rightarrow> ResponseWriter" where
  "wrap_writer rw = \<lparr>statusCode = StatusOK, wroteHeader = False, sent = sent rw\<rparr>"

definition metricsMiddleware :: "(request \<Rightarrow> (('w, 'x) hsys_scheme, unit go option) state) \<Rightarrow> request \<Rightarrow>
    (('w, 'x) hsys_scheme, unit go option) state" where
  "metricsMiddleware next_handler req =
     (if Path req = ''/metrics'' then next_handler req
      else do {
        _ \<leftarrow> on_writer (\<lambda>rw. ((), wrap_writer rw));
        x \<leftarrow> next_handler req;
        if x = Some (Ret ()) \<and> isUserRequest req then do {
          _ \<leftarrow> emit IncUserRequests;
          code \<leftarrow> on_writer (\<lambda>rw. (statusCode rw, rw));
          _ \<leftarrow> (if code \<ge> 500 then emit IncFailedRequests else ret ());
          ret x }
        else ret x })"

definition gatewayInstanceMiddleware :: "string \<Rightarrow> (request \<Rightarrow> (('w, 'x) hsys_scheme, unit go option) state) \<Rightarrow>
    request \<Rightarrow> (('w, 'x) hsys_scheme, unit go option) state" where
  "gatewayInstanceMiddleware instanceName next_handler req = do {
     _ \<leftarrow> on_writer (\<lambda>rw. ((), rw_step (CallSet ''X-Gateway-Instance'' instanceName) rw));
     next_handler req }"

text \<open>What the router calls for a path below \<open>/api/backend\<close>.\<close>

definition user_request :: "nat \<Rightarrow> ('w, 'v) env \<Rightarrow> string \<Rightarrow> request \<Rightarrow>
    (('w, 'x) hsys_scheme, unit go option) state" where
  "user_request n E instanceName =
     metricsMiddleware (gatewayInstanceMiddleware instanceName (ServeHTTP n E))"

section \<open>Facts\<close>

lemma user_not_metrics: "isUserRequest r \<Longrightarrow> Path r \<noteq> ''/metrics''"
  by (auto simp: isUserRequest_def HasPrefix_def)

lemma logs_user_free: "logs (ServeHTTP n E r) (\<lambda>_ tr. user_counts tr = 0)"
  unfolding ServeHTTP_def
  by (intro wp logs_conseq [OF logs_currentGatewayConfig] logs_conseq [OF logs_serve_with])
    (auto simp: request_trace_def)

text \<open>The state in which the handler starts: a wrapper whose only content is the instance header.\<close>

definition entered :: "string \<Rightarrow> ('w, 'x) hsys_scheme \<Rightarrow> ('w, 'x) hsys_scheme" where
  "entered name s = s\<lparr>writer := rw_step (CallSet ''X-Gateway-Instance'' name) (wrap_writer (writer s))\<rparr>"

lemma entered_unwritten: "sent (writer s) = [] \<Longrightarrow> unwritten (writer (entered name s))"
  using rw_ok_step [OF rw_ok_new, of "CallSet ''X-Gateway-Instance'' name"]
  by (simp add: entered_def wrap_writer_def newResponseWriter_def unwritten_def)

lemma user_request_run:
  assumes "isUserRequest r"
  shows "result (user_request n E name r) s = result (ServeHTTP n E r) (entered name s)"
    and "exec (user_request n E name r) s =
      (let t = exec (ServeHTTP n E r) (entered name s) in
       if result (ServeHTTP n E r) (entered name s) = Some (Ret ())
       then t\<lparr>metrics := metrics t @ IncUserRequests # (if statusCode (writer t) \<ge> 500 then [IncFailedRequests] else [])\<rparr>
       else t)"
  using assms user_not_metrics [OF assms]
  by (simp_all add: user_request_def metricsMiddleware_def gatewayInstanceMiddleware_def run entered_def Let_def)

section \<open>Properties\<close>

text \<open>
  C39. A user request that returns is counted once, and as failed exactly when the status that
  the client was sent is 500 or more. One whose handler panics is not counted at all.
\<close>

theorem user_request_counted:
  assumes "isUserRequest r" and "sent (writer s) = []"
  shows "\<exists>tr. metrics (exec (user_request n E name r) s) = metrics s @ tr \<and>
    (if result (user_request n E name r) s = Some (Ret ())
     then calls (\<lambda>e. e = IncUserRequests) tr = 1 \<and>
       (\<exists>code. status_sent (writer (exec (user_request n E name r) s)) = Some code \<and>
         calls (\<lambda>e. e = IncFailedRequests) tr = (if 500 \<le> code then 1 else 0))
     else user_counts tr = 0)"
proof -
  let ?s = "entered name s" and ?t = "exec (ServeHTTP n E r) (entered name s)"
  have s0: "metrics ?s = metrics s" by (simp add: entered_def)
  obtain tr where tr: "metrics ?t = metrics s @ tr" "user_counts tr = 0"
    using logsD [OF logs_user_free, of n E r ?s] unfolding s0 by blast
  have none: "calls (\<lambda>e. e = IncUserRequests) tr = 0" "calls (\<lambda>e. e = IncFailedRequests) tr = 0"
    using tr(2) by (simp_all add: calls_def filter_empty_conv)
  show ?thesis
  proof (cases "result (ServeHTTP n E r) ?s = Some (Ret ())")
    case True
    have "answered (writer ?t)"
      using tripleD [where s = ?s, OF respond_ServeHTTP] entered_unwritten [OF assms(2)] True by blast
    then have code: "status_sent (writer ?t) = Some (statusCode (writer ?t))"
      using status_sent_ok by (auto simp: answered_def)
    let ?tr = "tr @ IncUserRequests # (if statusCode (writer ?t) \<ge> 500 then [IncFailedRequests] else [])"
    show ?thesis
      by (rule exI [of _ ?tr]) (simp add: user_request_run [OF assms(1)] True tr(1) code none Let_def)
  next
    case False
    then show ?thesis using tr by (auto simp: user_request_run [OF assms(1)] Let_def)
  qed
qed

section \<open>Witnesses\<close>

lemma sample_user: "isUserRequest sample_request"
  by (simp add: isUserRequest_def HasPrefix_def sample_request_def)

lemma lost_config: "result (ServeHTTP 0 mini_env sample_request) (entered ''g1'' (gateway empty_mini)) = Some (Ret ())"
    "status_sent (writer (exec (ServeHTTP 0 mini_env sample_request) (entered ''g1'' (gateway empty_mini)))) = Some 503"
proof -
  let ?s = "entered ''g1'' (gateway empty_mini)"
  obtain e where e: "result (GetConfigStore mini_env RequestCtx) ?s = Inl e"
    by (simp add: GetConfigStore_def run entered_def gateway_def empty_mini_def m_lookup_def)
  have "writer (exec (GetConfigStore mini_env RequestCtx) ?s) = writer ?s"
    using frame_fields [OF frameD [OF frame_GetConfigStore]] by blast
  also have "\<dots> = \<lparr>statusCode = StatusOK, wroteHeader = False, sent = [SetHeader ''X-Gateway-Instance'' ''g1'']\<rparr>"
    by (simp add: entered_def wrap_writer_def gateway_def newResponseWriter_def)
  finally show "result (ServeHTTP 0 mini_env sample_request) ?s = Some (Ret ())"
      "status_sent (writer (exec (ServeHTTP 0 mini_env sample_request) ?s)) = Some 503"
    using e by (simp_all add: ServeHTTP_def run run_currentGatewayConfig rwError_def rwWriteHeader_def rwWrite_def
        statuses valid_status_def status_sent_def Let_def)
qed

text \<open>A gateway that has lost its configuration answers with 503: one request, failed.\<close>

theorem user_request_counted_witness:
  "\<exists>tr. metrics (exec (user_request 0 mini_env ''g1'' sample_request) (gateway empty_mini)) = tr \<and>
     calls (\<lambda>e. e = IncUserRequests) tr = 1 \<and> calls (\<lambda>e. e = IncFailedRequests) tr = 1"
proof -
  have e: "sent (writer (gateway empty_mini)) = []" "metrics (gateway empty_mini) = []"
    by (simp_all add: gateway_def newResponseWriter_def)
  have "status_sent (writer (exec (user_request 0 mini_env ''g1'' sample_request) (gateway empty_mini))) = Some 503"
    using lost_config by (simp add: user_request_run [OF sample_user] Let_def)
  then show ?thesis
    using user_request_counted [OF sample_user e(1), of 0 mini_env "''g1''"] lost_config(1) e(2)
    by (simp add: user_request_run(1) [OF sample_user])
qed

end
