(* ===== verification/Metrics.thy ===== *)
theory Metrics
  imports Environment
begin

text \<open>
  The collectors of the gateway, \<open>gateway/metrics.go\<close>, and of the backend: what is registered at start-up, and on
  which collector each reported event lands. The registry is Prometheus's and a parameter.
\<close>

datatype collector_kind = Counter | Gauge | Histogram "rat list"

record collector =
  fqName :: string
  help_text :: string
  kind :: collector_kind
  variableLabels :: "string list"

definition durationBuckets :: "rat list" where
  "durationBuckets = [1 / 1000, 1 / 200, 1 / 100, 1 / 40, 1 / 20, 1 / 10, 1 / 4, 1 / 2, 3 / 4, 1, 5 / 4, 3 / 2, 7 / 4, 2, 3, 5]"

definition totalUserRequests :: collector where
  "totalUserRequests = \<lparr>fqName = ''gateway_http_requests_total'',
     help_text = ''Total number of HTTP requests gateway received.'',
     kind = Counter, variableLabels = []\<rparr>"

definition totalFailedRequests :: collector where
  "totalFailedRequests = \<lparr>fqName = ''gateway_failed_requests_total'',
     help_text = ''Total number of failed gateway requests'',
     kind = Counter, variableLabels = []\<rparr>"

definition totalL1Hits :: collector where
  "totalL1Hits = \<lparr>fqName = ''gateway_l1_hits_total'',
     help_text = ''Total number of L1 hits.'',
     kind = Counter, variableLabels = []\<rparr>"

definition totalL2Hits :: collector where
  "totalL2Hits = \<lparr>fqName = ''gateway_l2_hits_total'',
     help_text = ''Total number of L2 hits.'',
     kind = Counter, variableLabels = []\<rparr>"

definition totalCacheMisses :: collector where
  "totalCacheMisses = \<lparr>fqName = ''gateway_cache_miss_total'',
     help_text = ''Total number of cache misses.'',
     kind = Counter, variableLabels = []\<rparr>"

definition singleFlightWaitingRequests :: collector where
  "singleFlightWaitingRequests = \<lparr>fqName = ''gateway_singleflight_waiting_requests'',
     help_text = ''Current number of requests waiting for a SingleFlight result.'',
     kind = Gauge, variableLabels = []\<rparr>"

definition distributedLockAttempts :: collector where
  "distributedLockAttempts = \<lparr>fqName = ''gateway_distributed_lock_attempts_total'',
     help_text = ''Total number of distributed lock attempts by result.'',
     kind = Counter, variableLabels = [''result'']\<rparr>"

definition backendCallsByKey :: collector where
  "backendCallsByKey = \<lparr>fqName = ''gateway_backend_calls_total'',
     help_text = ''Total number of backend calls by cache key.'',
     kind = Counter, variableLabels = [''key'']\<rparr>"

definition logicalRefreshesByKey :: collector where
  "logicalRefreshesByKey = \<lparr>fqName = ''gateway_logical_refreshes_total'',
     help_text = ''Total number of logical cache refreshes by cache key.'',
     kind = Counter, variableLabels = [''key'']\<rparr>"

definition requestDuration :: collector where
  "requestDuration = \<lparr>fqName = ''gateway_request_duration_seconds'',
     help_text = ''Total duration of processing a user request (in seconds).'',
     kind = Histogram durationBuckets, variableLabels = []\<rparr>"

definition backendDuration :: collector where
  "backendDuration = \<lparr>fqName = ''gateway_backend_duration_seconds'',
     help_text = ''Total duration of backend processing a user request (in seconds).'',
     kind = Histogram durationBuckets, variableLabels = []\<rparr>"

definition adaptiveTTLFactor :: collector where
  "adaptiveTTLFactor = \<lparr>fqName = ''gateway_adaptive_ttl_factor'',
     help_text = ''Current global adaptive TTL scaling factor.'',
     kind = Gauge, variableLabels = []\<rparr>"

definition adaptiveTTLEffectiveSeconds :: collector where
  "adaptiveTTLEffectiveSeconds = \<lparr>fqName = ''gateway_adaptive_ttl_effective_seconds'',
     help_text = ''Current effective cache TTL in seconds by cache level.'',
     kind = Gauge, variableLabels = [''level'']\<rparr>"

definition adaptiveTTLState :: collector where
  "adaptiveTTLState = \<lparr>fqName = ''gateway_adaptive_ttl_state'',
     help_text = ''Current adaptive TTL controller state: 0=disabled, 1=stable, 2=warning, 3=congested.'',
     kind = Gauge, variableLabels = []\<rparr>"

definition adaptiveTTLBackendP99Milliseconds :: collector where
  "adaptiveTTLBackendP99Milliseconds = \<lparr>fqName = ''gateway_adaptive_ttl_backend_p99_milliseconds'',
     help_text = ''Latest backend P99 latency observed by the adaptive TTL controller in milliseconds.'',
     kind = Gauge, variableLabels = []\<rparr>"

definition collectors :: "collector list" where
  "collectors = [totalUserRequests, totalFailedRequests, totalL1Hits, totalL2Hits,
     totalCacheMisses, requestDuration, backendDuration, singleFlightWaitingRequests,
     distributedLockAttempts, backendCallsByKey, logicalRefreshesByKey, adaptiveTTLFactor,
     adaptiveTTLEffectiveSeconds, adaptiveTTLState, adaptiveTTLBackendP99Milliseconds]"

text \<open>\<open>MustRegister\<close> for each collector in turn; it panics when the registry refuses one.\<close>

fun register_all :: "(collector \<Rightarrow> 'r \<Rightarrow> 'r go) \<Rightarrow> collector list \<Rightarrow> 'r \<Rightarrow> 'r go" where
  "register_all mustRegister [] r = Ret r"
| "register_all mustRegister (c # cs) r =
     (case mustRegister c r of Panic \<Rightarrow> Panic | Ret r' \<Rightarrow> register_all mustRegister cs r')"

definition registerMetrics :: "(collector \<Rightarrow> 'r \<Rightarrow> 'r go) \<Rightarrow> 'r \<Rightarrow> 'r go" where
  "registerMetrics mustRegister r = register_all mustRegister collectors r"

text \<open>The buckets of a histogram must increase.\<close>

fun well_formed :: "collector_kind \<Rightarrow> bool" where
  "well_formed (Histogram buckets) = (sorted_wrt (<) buckets)"
| "well_formed _ = True"

section \<open>Registration\<close>

text \<open>What is documented of a registry: it accepts a well-formed collector of a new name.\<close>

locale registry =
  fixes mustRegister :: "collector \<Rightarrow> 'r \<Rightarrow> 'r go"
    and registered :: "'r \<Rightarrow> string set"
  assumes accepts: "well_formed (kind c) \<Longrightarrow> fqName c \<notin> registered r \<Longrightarrow>
    \<exists>r'. mustRegister c r = Ret r' \<and> registered r' = insert (fqName c) (registered r)"
begin

lemma register_distinct:
  "list_all (\<lambda>c. well_formed (kind c)) cs \<Longrightarrow> distinct (map fqName cs) \<Longrightarrow> fqName ` set cs \<inter> registered r = {} \<Longrightarrow>
   \<exists>r'. register_all mustRegister cs r = Ret r' \<and> registered r' = fqName ` set cs \<union> registered r"
proof (induction cs arbitrary: r)
  case (Cons c cs)
  obtain r1 where r1: "mustRegister c r = Ret r1" "registered r1 = insert (fqName c) (registered r)"
    using accepts [of c r] Cons.prems by auto
  moreover have "fqName ` set cs \<inter> registered r1 = {}" using Cons.prems(2,3) r1(2) by auto
  ultimately show ?case using Cons.IH [of r1] Cons.prems by auto
qed simp

end

text \<open>A registry that keeps the collectors it has, and panics on a name it knows.\<close>

definition list_register :: "collector \<Rightarrow> collector list \<Rightarrow> collector list go" where
  "list_register c cs = (if well_formed (kind c) \<and> fqName c \<notin> fqName ` set cs then Ret (cs @ [c]) else Panic)"

interpretation list_registry: registry list_register "\<lambda>cs. fqName ` set cs"
  by unfold_locales (simp add: list_register_def)

text \<open>The collectors of the backend, \<open>backend/handler/metrics.go\<close>.\<close>

definition backend_collectors :: "collector list" where
  "backend_collectors =
     [\<lparr>fqName = ''backend_requests_total'',
       help_text = ''Total number of requests received by the backend, including requests canceled while waiting for the semaphore.'',
       kind = Counter, variableLabels = []\<rparr>,
      \<lparr>fqName = ''backend_active_requests'',
       help_text = ''Current number of backend requests being processed or waiting for the semaphore.'',
       kind = Gauge, variableLabels = []\<rparr>]"

definition RegisterMetrics :: "(collector \<Rightarrow> 'r \<Rightarrow> 'r go) \<Rightarrow> 'r \<Rightarrow> 'r go" where
  "RegisterMetrics mustRegister r = register_all mustRegister backend_collectors r"

lemma backend_registers: "\<exists>r. RegisterMetrics list_register [] = Ret r \<and> fqName ` set r = fqName ` set backend_collectors"
  using list_registry.register_distinct [of backend_collectors "[]"]
  by (simp add: RegisterMetrics_def backend_collectors_def)

section \<open>Where the events land\<close>

datatype collector_op = IncOp | DecOp | SetOp f64 | ObserveOp duration

fun landing :: "metric \<Rightarrow> collector \<times> string list \<times> collector_op" where
  "landing IncUserRequests = (totalUserRequests, [], IncOp)"
| "landing IncFailedRequests = (totalFailedRequests, [], IncOp)"
| "landing IncL1Hits = (totalL1Hits, [], IncOp)"
| "landing IncL2Hits = (totalL2Hits, [], IncOp)"
| "landing IncCacheMisses = (totalCacheMisses, [], IncOp)"
| "landing (ObserveRequestDuration d) = (requestDuration, [], ObserveOp d)"
| "landing (ObserveBackendDuration d) = (backendDuration, [], ObserveOp d)"
| "landing IncWaiting = (singleFlightWaitingRequests, [], IncOp)"
| "landing DecWaiting = (singleFlightWaitingRequests, [], DecOp)"
| "landing (IncLockAttempts outcome) = (distributedLockAttempts, [outcome], IncOp)"
| "landing (IncBackendCalls key) = (backendCallsByKey, [key], IncOp)"
| "landing (IncLogicalRefreshes key) = (logicalRefreshesByKey, [key], IncOp)"
| "landing (SetAdaptiveFactor x) = (adaptiveTTLFactor, [], SetOp x)"
| "landing (SetEffectiveSeconds level x) = (adaptiveTTLEffectiveSeconds, [level], SetOp x)"
| "landing (SetAdaptiveState x) = (adaptiveTTLState, [], SetOp x)"
| "landing (SetBackendP99 x) = (adaptiveTTLBackendP99Milliseconds, [], SetOp x)"

fun supports :: "collector_kind \<Rightarrow> collector_op \<Rightarrow> bool" where
  "supports Counter IncOp = True"
| "supports Gauge IncOp = True"
| "supports Gauge DecOp = True"
| "supports Gauge (SetOp x) = True"
| "supports (Histogram buckets) (ObserveOp d) = True"
| "supports _ _ = False"

lemmas collector_defs = totalUserRequests_def totalFailedRequests_def totalL1Hits_def totalL2Hits_def
  totalCacheMisses_def requestDuration_def backendDuration_def singleFlightWaitingRequests_def
  distributedLockAttempts_def backendCallsByKey_def logicalRefreshesByKey_def adaptiveTTLFactor_def
  adaptiveTTLEffectiveSeconds_def adaptiveTTLState_def adaptiveTTLBackendP99Milliseconds_def

text \<open>
  Start-up registers every collector without a panic, in any registry that has none of their
  names; and every event that the gateway reports is typed: it lands on a registered collector,
  with one value for each of its labels, and is an operation that the collector supports.
\<close>

theorem metrics_typed:
  fixes mustRegister :: "collector \<Rightarrow> 'r \<Rightarrow> 'r go"
  assumes "registry mustRegister registered" and "fqName ` set collectors \<inter> registered r = {}"
  shows "(\<exists>r'. registerMetrics mustRegister r = Ret r' \<and> registered r' = fqName ` set collectors \<union> registered r) \<and>
    (case landing e of (c, labels, oper) \<Rightarrow>
       c \<in> set collectors \<and> length labels = length (variableLabels c) \<and> supports (kind c) oper)"
proof
  have "list_all (\<lambda>c. well_formed (kind c)) collectors" "distinct (map fqName collectors)"
    by (simp_all add: collectors_def collector_defs durationBuckets_def)
  then show "\<exists>r'. registerMetrics mustRegister r = Ret r' \<and> registered r' = fqName ` set collectors \<union> registered r"
    using registry.register_distinct [OF assms(1)] assms(2) unfolding registerMetrics_def by blast
  show "case landing e of (c, labels, oper) \<Rightarrow>
      c \<in> set collectors \<and> length labels = length (variableLabels c) \<and> supports (kind c) oper"
    by (cases e) (simp_all add: collectors_def collector_defs)
qed

theorem metrics_typed_witness:
  "\<exists>r. registerMetrics list_register [] = Ret r \<and> fqName ` set r = fqName ` set collectors"
  using metrics_typed [OF list_registry.registry_axioms, of "[]" IncWaiting] by simp

end
