(* ===== verification/Load_Signals.thy ===== *)
theory Load_Signals
  imports Adaptive_TTL
begin

text \<open>
  How the backend measures its load, \<open>backend/handler/load_signals.go\<close>: the window of the last
  request durations, trimmed with the binary search of Go's \<open>sort\<close> package, and the 99th
  percentile that the gateways read. Each operation on the samples is atomic under
  \<open>loadSignalsMu\<close>; the clock is read before the lock is taken.
\<close>

section \<open>The window\<close>

definition loadSignalWindowDuration :: duration where
  "loadSignalWindowDuration = 15 * second"

record latencySample =
  RecordedAt :: time
  Duration :: duration

text \<open>\<open>sort.Search\<close>, on the indices from \<open>i\<close> up to \<open>j\<close>.\<close>

function sort_search :: "(nat \<Rightarrow> bool) \<Rightarrow> nat \<Rightarrow> nat \<Rightarrow> nat" where
  "sort_search f i j =
     (if i < j then
        let h = (i + j) div 2 in
        if \<not> f h then sort_search f (h + 1) j else sort_search f i h
      else i)"
  by pat_completeness auto
termination
  by (relation "measure (\<lambda>(f, i, j). j - i)") auto

declare sort_search.simps [simp del]

definition removeExpiredLatencySamples :: "time \<Rightarrow> latencySample list \<Rightarrow> latencySample list" where
  "removeExpiredLatencySamples instant samples =
     (let cutoff = instant - loadSignalWindowDuration;
          firstRecentIndex = sort_search (\<lambda>index. \<not> RecordedAt (samples ! index) < cutoff) 0 (length samples)
      in if firstRecentIndex = 0 then samples
         else if firstRecentIndex \<ge> length samples then []
         else drop firstRecentIndex samples)"

definition recordRequestDuration :: "time \<Rightarrow> duration \<Rightarrow> latencySample list \<Rightarrow> latencySample list" where
  "recordRequestDuration instant d samples =
     removeExpiredLatencySamples instant (samples @ [\<lparr>RecordedAt = instant, Duration = d\<rparr>])"

definition recentRequestDurations :: "time \<Rightarrow> latencySample list \<Rightarrow> duration list \<times> latencySample list" where
  "recentRequestDurations instant samples =
     (let samples = removeExpiredLatencySamples instant samples in (map Duration samples, samples))"

section \<open>The percentile\<close>

definition p99_index :: "nat \<Rightarrow> int" where
  "p99_index n =
     (let index = \<lceil>fmul (rnd (99 / 100)) (f64_of_int (int n))\<rceil> - 1
      in if index < 0 then 0 else index)"

definition calculateP99LatencyMs :: "duration list \<Rightarrow> f64" where
  "calculateP99LatencyMs durations =
     (if durations = [] then 0
      else let sortedDurations = sort durations
        in fdiv (f64_of_int (sortedDurations ! nat (p99_index (length sortedDurations)))) (f64_of_int millisecond))"

text \<open>What the endpoint reports; the gateway decodes it into fields of the same names.\<close>

record LoadSignals =
  P99LatencyMs_reported :: f64
  ActiveRequests_reported :: int
  MaxConcurrentRequests_reported :: int
  SampleCount_reported :: int

definition load_signals :: "time \<Rightarrow> int \<Rightarrow> int \<Rightarrow> latencySample list \<Rightarrow> LoadSignals \<times> latencySample list" where
  "load_signals instant maxConcurrentRequests activeRequests samples =
     (let (durations, samples) = recentRequestDurations instant samples in
      (\<lparr>P99LatencyMs_reported = calculateP99LatencyMs durations,
        ActiveRequests_reported = activeRequests,
        MaxConcurrentRequests_reported = maxConcurrentRequests,
        SampleCount_reported = int (length durations)\<rparr>, samples))"

definition as_decoded :: "LoadSignals \<Rightarrow> BackendLoadSignals" where
  "as_decoded x = \<lparr>P99LatencyMs = P99LatencyMs_reported x, ActiveRequests = ActiveRequests_reported x,
     MaxConcurrentRequests = MaxConcurrentRequests_reported x, SampleCount = SampleCount_reported x\<rparr>"

section \<open>Binary search\<close>

text \<open>On a predicate that stays true once it is, the search finds the first index at which it is.\<close>

lemma sort_search_correct:
  assumes "i \<le> j" and "\<And>k l. k \<le> l \<Longrightarrow> l < j \<Longrightarrow> f k \<Longrightarrow> f l"
  shows "i \<le> sort_search f i j \<and> sort_search f i j \<le> j \<and>
    (\<forall>k. i \<le> k \<and> k < j \<longrightarrow> (f k \<longleftrightarrow> sort_search f i j \<le> k))"
  using assms
proof (induction f i j rule: sort_search.induct)
  case (1 f i j)
  show ?case
  proof (cases "i < j")
    case True
    let ?h = "(i + j) div 2"
    have h: "i \<le> ?h" "?h < j" using True by auto
    show ?thesis
    proof (cases "f ?h")
      case low: True
      have eq: "sort_search f i j = sort_search f i ?h" using True low by (simp add: sort_search.simps [of f i j] Let_def)
      have mono: "f k \<Longrightarrow> f l" if "k \<le> l" "l < ?h" for k l using "1.prems"(2) [of k l] that h by simp
      have ih: "i \<le> sort_search f i ?h \<and> sort_search f i ?h \<le> ?h \<and>
          (\<forall>k. i \<le> k \<and> k < ?h \<longrightarrow> (f k \<longleftrightarrow> sort_search f i ?h \<le> k))"
        using "1.IH"(2) [OF True refl] low h mono by simp
      have "f k" if "?h \<le> k" "k < j" for k using "1.prems"(2) [of ?h k] that low by simp
      then have "f k \<longleftrightarrow> sort_search f i ?h \<le> k" if "i \<le> k" "k < j" for k
        using ih that by (cases "k < ?h") auto
      then show ?thesis unfolding eq using ih h by auto
    next
      case high: False
      have eq: "sort_search f i j = sort_search f (?h + 1) j" using True high by (simp add: sort_search.simps [of f i j] Let_def)
      have ih: "?h + 1 \<le> sort_search f (?h + 1) j \<and> sort_search f (?h + 1) j \<le> j \<and>
          (\<forall>k. ?h + 1 \<le> k \<and> k < j \<longrightarrow> (f k \<longleftrightarrow> sort_search f (?h + 1) j \<le> k))"
        using "1.IH"(1) [OF True refl] high h "1.prems"(2) by simp
      have "\<not> f k" if "k \<le> ?h" for k using "1.prems"(2) [of k ?h] that h high by blast
      then have "f k \<longleftrightarrow> sort_search f (?h + 1) j \<le> k" if "k < j" for k
        using ih that by (cases "k \<le> ?h") auto
      then show ?thesis unfolding eq using ih h by auto
    qed
  next
    case False
    have "sort_search f i j = i" using False by (simp add: sort_search.simps [of f i j])
    then show ?thesis using "1.prems"(1) False by auto
  qed
qed

section \<open>The window holds exactly what is recent\<close>

definition in_order :: "latencySample list \<Rightarrow> bool" where
  "in_order samples \<longleftrightarrow> sorted (map RecordedAt samples)"

definition recent :: "time \<Rightarrow> latencySample \<Rightarrow> bool" where
  "recent instant x \<longleftrightarrow> instant - loadSignalWindowDuration \<le> RecordedAt x"

lemma drop_is_filter:
  assumes "n \<le> length xs" and "\<And>k. k < length xs \<Longrightarrow> P (xs ! k) \<longleftrightarrow> n \<le> k"
  shows "drop n xs = filter P xs"
proof -
  have "filter P (take n xs) = []" using assms by (auto simp: filter_empty_conv in_set_conv_nth)
  moreover have "filter P (drop n xs) = drop n xs" using assms by (auto simp: filter_id_conv in_set_conv_nth)
  ultimately show ?thesis by (metis append_Nil append_take_drop_id filter_append)
qed

lemma removeExpired_filter:
  assumes "in_order samples"
  shows "removeExpiredLatencySamples instant samples = filter (recent instant) samples"
proof -
  let ?f = "\<lambda>index. \<not> RecordedAt (samples ! index) < instant - loadSignalWindowDuration"
  let ?n = "sort_search ?f 0 (length samples)"
  have mono: "?f k \<Longrightarrow> ?f l" if "k \<le> l" "l < length samples" for k l
    using assms that sorted_nth_mono [of "map RecordedAt samples" k l] by (simp add: in_order_def)
  have n: "?n \<le> length samples" "\<And>k. k < length samples \<Longrightarrow> ?f k \<longleftrightarrow> ?n \<le> k"
    using sort_search_correct [of 0 "length samples" ?f] mono by auto
  have "drop ?n samples = filter (recent instant) samples"
    by (rule drop_is_filter) (use n in \<open>auto simp: recent_def not_less\<close>)
  then show ?thesis unfolding removeExpiredLatencySamples_def Let_def by auto
qed

lemma in_order_filter: "in_order samples \<Longrightarrow> in_order (filter P samples)"
  by (simp add: in_order_def sorted_filter)

text \<open>A history of recordings, each with the clock it read, oldest first.\<close>

definition as_samples :: "(time \<times> duration) list \<Rightarrow> latencySample list" where
  "as_samples hist = map (\<lambda>(t, d). \<lparr>RecordedAt = t, Duration = d\<rparr>) hist"

lemma as_samples_order: "in_order (as_samples hist) \<longleftrightarrow> sorted (map fst hist)"
  by (simp add: in_order_def as_samples_def comp_def case_prod_beta)

lemma record_in_order:
  assumes "in_order (samples @ [\<lparr>RecordedAt = t, Duration = d\<rparr>])"
  shows "recordRequestDuration t d samples = filter (recent t) (samples @ [\<lparr>RecordedAt = t, Duration = d\<rparr>])"
  using removeExpired_filter [OF assms] by (simp add: recordRequestDuration_def)

lemma recent_later: "t \<le> u \<Longrightarrow> filter (recent u) (filter (recent t) xs) = filter (recent u) xs"
  by (auto simp: recent_def filter_filter intro!: filter_cong)

lemma recorded_window:
  "sorted (map fst hist) \<Longrightarrow>
   fold (\<lambda>(t, d). recordRequestDuration t d) hist [] =
     (if hist = [] then [] else filter (recent (fst (last hist))) (as_samples hist))"
proof (induction hist rule: rev_induct)
  case (snoc x hist)
  obtain t d where x: "x = (t, d)" by (cases x)
  let ?old = "fold (\<lambda>(t, d). recordRequestDuration t d) hist []" and ?new = "\<lparr>RecordedAt = t, Duration = d\<rparr>"
  have srt: "sorted (map fst hist)" and le: "\<And>y. y \<in> set hist \<Longrightarrow> fst y \<le> t"
    using snoc.prems by (auto simp: x sorted_append)
  have old: "?old = (if hist = [] then [] else filter (recent (fst (last hist))) (as_samples hist))"
    by (rule snoc.IH [OF srt])
  have sub: "set ?old \<subseteq> set (as_samples hist)" unfolding old by auto
  have "in_order ?old" unfolding old using srt by (auto simp: as_samples_order in_order_filter) (simp add: in_order_def)
  moreover have "RecordedAt y \<le> t" if "y \<in> set ?old" for y
    using sub that le by (fastforce simp: as_samples_def)
  ultimately have "in_order (?old @ [?new])" by (auto simp: in_order_def sorted_append)
  then have "recordRequestDuration t d ?old = filter (recent t) (?old @ [?new])" by (rule record_in_order)
  also have "\<dots> = filter (recent t) (as_samples hist @ [?new])"
    using le [OF last_in_set] recent_later [of "fst (last hist)" t "as_samples hist"]
    by (cases "hist = []") (simp_all add: old as_samples_def del: filter_filter)
  finally show ?case by (simp add: x as_samples_def)
qed simp

section \<open>The percentile is the nearest rank\<close>

lemma rnd_99: "rnd (99 / 100) = 8917127262193582 / 2 ^ 53"
proof -
  have "rnd (99 / 100) = of_int 8917127262193582 * 2 powi (- 1 - 52)"
    by (rule rnd_eqI) (simp_all add: emin_def power_int_def field_simps)
  then show ?thesis by (simp add: power_int_def power_one_over)
qed

text \<open>
  The constant 0.99 is rounded down and its product with the number of samples is rounded too;
  up to \<open>2 ^ 40\<close> samples neither moves the index.
\<close>

lemma p99_ceiling:
  assumes n: "0 < n" "n \<le> 2 ^ 40"
  shows "\<lceil>fmul (rnd (99 / 100)) (f64_of_int (int n))\<rceil> = \<lceil>99 * of_nat n / (100 :: rat)\<rceil>"
proof -
  let ?N = "of_nat n :: rat" and ?c = "\<lceil>99 * of_nat n / (100 :: rat)\<rceil>"
  define x :: rat where "x = 8917127262193582 / 2 ^ 53 * ?N"
  have "of_nat 1 \<le> ?N" and "?N \<le> of_nat (2 ^ 40)" using n by (simp_all only: of_nat_le_iff)
  then have N: "1 \<le> ?N" "?N \<le> 2 ^ 40" by simp_all
  have "f64_of_int (int n) = ?N" using n f64_of_int_exact [of "int n"] by simp
  then have v: "fmul (rnd (99 / 100)) (f64_of_int (int n)) = rnd x" by (simp add: fmul_def rnd_99 x_def)
  have up: "x \<le> 99 * ?N / 100" and lo: "99 * ?N / 100 - ?N / 2 ^ 53 \<le> x" using N(1) by (simp_all add: x_def)
  have x1: "1 / 2 \<le> x" using N(1) by (simp add: x_def)
  have "99 * ?N / 100 \<le> of_int ?c" by (rule le_of_int_ceiling)
  then have "x \<le> of_int ?c" using up by linarith
  moreover have "\<bar>?c\<bar> \<le> 2 ^ 53"
  proof -
    have "0 \<le> 99 * ?N / 100" "99 * ?N / 100 \<le> of_int (2 ^ 53)" using N by simp_all
    then have "0 \<le> ?c" "?c \<le> 2 ^ 53" unfolding ceiling_le_iff [symmetric] by (simp_all add: ceiling_le_iff zero_le_ceiling)
    then show ?thesis by simp
  qed
  ultimately have hi: "rnd x \<le> of_int ?c" using rnd_mono [of x "of_int ?c"] rnd_of_int [of ?c] by simp
  have "(2 :: rat) powi (emin + 52) \<le> 1 / 2"
    using powi2_strict_mono [of "emin + 52" "- 1"] by (simp add: emin_def power_int_def)
  then have "\<bar>rnd x - x\<bar> \<le> \<bar>x\<bar> * 2 powi (- 53)" using x1 by (intro rnd_rel_err) linarith
  then have "\<bar>rnd x - x\<bar> \<le> x / 2 ^ 53" using x1 by (simp add: power_int_def power_one_over)
  then have "x - x / 2 ^ 53 \<le> rnd x" by linarith
  moreover have "x \<le> ?N" using up N(1) by linarith
  moreover have "?N / 2 ^ 53 \<le> 1 / 2 ^ 13" using N(2) by simp
  ultimately have near: "99 * ?N / 100 - 1 / 100 < rnd x" using lo by simp
  have "of_int ?c - 1 < 99 * ?N / 100" using ceiling_correct [of "99 * ?N / 100"] by simp
  then have "of_int (100 * (?c - 1)) < (of_int (99 * int n) :: rat)" by simp
  then have "100 * (?c - 1) + 1 \<le> 99 * int n" by linarith
  then have "(of_int (100 * (?c - 1) + 1) :: rat) \<le> of_int (99 * int n)" by (simp only: of_int_le_iff)
  then have "of_int ?c - 1 < rnd x" using near by simp
  then show ?thesis unfolding v using hi by (intro ceiling_unique) simp_all
qed


lemma p99_index_eq:
  assumes n: "0 < n" "n \<le> 2 ^ 40"
  shows "p99_index n = int n - int (n div 100) - 1"
proof -
  have "\<lceil>99 * of_nat n / (100 :: rat)\<rceil> = \<lceil>of_int (99 * int n) / (of_int 100 :: rat)\<rceil>" by simp
  also have "\<dots> = - (- (99 * int n) div 100)" by (simp only: ceiling_divide_eq_div)
  also have "- (99 * int n) = int n + (- int n) * 100" by simp
  also have "- ((int n + (- int n) * 100) div 100) = int n - int n div 100" by (simp only: div_mult_self1)
  finally have c: "\<lceil>99 * of_nat n / (100 :: rat)\<rceil> = int n - int (n div 100)" by (simp add: zdiv_int)
  have "n div 100 < n" using n(1) by simp
  then show ?thesis by (simp add: p99_index_def p99_ceiling [OF n] c Let_def)
qed

lemma p99_index_bounds:
  assumes "0 < n" and "n \<le> 2 ^ 40"
  shows "nat (p99_index n) < n" and "n - nat (p99_index n) = n div 100 + 1"
proof -
  have "n div 100 < n" using assms(1) by simp
  then have "nat (p99_index n) = n - (n div 100 + 1)" using p99_index_eq [OF assms] by linarith
  then show "nat (p99_index n) < n" and "n - nat (p99_index n) = n div 100 + 1"
    using \<open>n div 100 < n\<close> by simp_all
qed

text \<open>In a sorted list, an element reaches a limit if enough elements do.\<close>

lemma sorted_count_ge:
  fixes L :: "'a :: linorder"
  assumes srt: "sorted xs" and i: "i < length xs"
  shows "L \<le> xs ! i \<longleftrightarrow> length xs - i \<le> length (filter (\<lambda>x. L \<le> x) xs)"
proof (cases "L \<le> xs ! i")
  case True
  have "xs ! i \<le> x" if "x \<in> set (drop i xs)" for x
    using that sorted_nth_mono [OF srt] by (auto simp: in_set_conv_nth)
  then have "L \<le> x" if "x \<in> set (drop i xs)" for x using that True by (blast intro: order_trans)
  then have "filter (\<lambda>x. L \<le> x) (drop i xs) = drop i xs" by (simp add: filter_id_conv)
  then have "length xs - i \<le> length (filter (\<lambda>x. L \<le> x) (take i xs @ drop i xs))" by (simp del: append_take_drop_id)
  then show ?thesis using True by simp
next
  case False
  have "x \<le> xs ! i" if "x \<in> set (take (Suc i) xs)" for x
    using that i sorted_nth_mono [OF srt, of _ i] by (auto simp: in_set_conv_nth)
  then have "\<not> L \<le> x" if "x \<in> set (take (Suc i) xs)" for x using that False by (blast intro: order_trans)
  then have "filter (\<lambda>x. L \<le> x) (take (Suc i) xs @ drop (Suc i) xs) = filter (\<lambda>x. L \<le> x) (drop (Suc i) xs)"
    by (simp add: filter_empty_conv del: append_take_drop_id)
  then have "length (filter (\<lambda>x. L \<le> x) xs) \<le> length xs - Suc i"
    using length_filter_le [of "\<lambda>x. L \<le> x" "drop (Suc i) xs"] by simp
  then show ?thesis using False i by simp
qed

text \<open>The duration whose milliseconds are reported.\<close>

definition p99_duration :: "duration list \<Rightarrow> duration" where
  "p99_duration ds = sort ds ! nat (p99_index (length ds))"

lemma p99_reported:
  "ds \<noteq> [] \<Longrightarrow> calculateP99LatencyMs ds = fdiv (f64_of_int (p99_duration ds)) (f64_of_int millisecond)"
  by (simp add: calculateP99LatencyMs_def p99_duration_def Let_def)

lemma p99_reaches:
  assumes ds: "ds \<noteq> []" "length ds \<le> 2 ^ 40"
  shows "L \<le> p99_duration ds \<longleftrightarrow> length ds < 100 * length (filter (\<lambda>d. L \<le> d) ds)"
proof -
  let ?i = "nat (p99_index (length ds))"
  have i: "?i < length (sort ds)" "length (sort ds) - ?i = length ds div 100 + 1"
    using p99_index_bounds [of "length ds"] ds by simp_all
  have "length (filter (\<lambda>d. L \<le> d) (sort ds)) = length (filter (\<lambda>d. L \<le> d) ds)"
    by (metis filter_sort length_sort)
  then have "L \<le> p99_duration ds \<longleftrightarrow> length ds div 100 + 1 \<le> length (filter (\<lambda>d. L \<le> d) ds)"
    using sorted_count_ge [of "sort ds" ?i L] i by (simp add: p99_duration_def)
  then show ?thesis by linarith
qed

lemma p99_duration_in: "ds \<noteq> [] \<Longrightarrow> length ds \<le> 2 ^ 40 \<Longrightarrow> p99_duration ds \<in> set ds"
  using p99_index_bounds(1) [of "length ds"] nth_mem [of "nat (p99_index (length ds))" "sort ds"]
  by (simp add: p99_duration_def)


section \<open>From the window to the controller\<close>

text \<open>Dividing by a million does not round a duration across a whole number of milliseconds.\<close>

lemma ms_reaches:
  assumes T: "0 \<le> T" "T \<le> 2 ^ 31" and d: "0 \<le> d" "d \<le> 2 ^ 53"
  shows "f64_of_int T \<le> fdiv (f64_of_int d) (f64_of_int millisecond) \<longleftrightarrow> T * millisecond \<le> d"
proof -
  let ?x = "of_int d / 1000000 :: rat"
  have t: "f64_of_int T = of_int T" using T by (intro f64_of_int_exact) simp
  have "f64_of_int d = of_int d" using d by (intro f64_of_int_exact) simp
  moreover have "f64_of_int millisecond = of_int millisecond" by (rule f64_of_int_exact) simp
  ultimately have v: "fdiv (f64_of_int d) (f64_of_int millisecond) = rnd ?x" by (simp only: fdiv_def of_int_numeral)
  show ?thesis
  proof (cases "T * millisecond \<le> d")
    case True
    then have "of_int (T * 1000000) \<le> (of_int d :: rat)" by (simp only: of_int_le_iff)
    then have "of_int T * 1000000 \<le> (of_int d :: rat)" by (simp only: of_int_mult of_int_numeral)
    then have "of_int T \<le> ?x" by linarith
    then have "rnd (of_int T) \<le> rnd ?x" by (rule rnd_mono)
    moreover have "rnd (of_int T) = of_int T" using T by (intro rnd_of_int) simp
    ultimately show ?thesis using True by (simp only: v t)
  next
    case False
    then have "d \<le> T * 1000000 - 1" by simp
    then have "(of_int d :: rat) \<le> of_int (T * 1000000 - 1)" by (simp only: of_int_le_iff)
    then have "(of_int d :: rat) \<le> of_int T * 1000000 - 1"
      by (simp only: of_int_mult of_int_numeral of_int_diff of_int_1)
    then have "?x \<le> of_int T - 1 / 1000000" by linarith
    then have "rnd ?x \<le> rnd (of_int T - 1 / 1000000)" by (rule rnd_mono)
    also have "\<dots> < of_int T"
    proof -
      let ?y = "of_int T - 1 / 1000000 :: rat"
      have "1 \<le> T" using False d by (cases "T = 0") auto
      then have "(of_int 1 :: rat) \<le> of_int T" and "(of_int T :: rat) \<le> of_int (2 ^ 31)"
        using T by (simp_all only: of_int_le_iff)
      then have y: "1 / 2 \<le> ?y" "?y \<le> 2 ^ 31" by simp_all
      have "(2 :: rat) powi (emin + 52) \<le> 1 / 2"
        using powi2_strict_mono [of "emin + 52" "- 1"] by (simp add: emin_def power_int_def)
      then have "\<bar>rnd ?y - ?y\<bar> \<le> \<bar>?y\<bar> * 2 powi (- 53)" using y(1) by (intro rnd_rel_err) linarith
      then have "\<bar>rnd ?y - ?y\<bar> \<le> ?y / 2 ^ 53" using y(1) by (simp add: power_int_def power_one_over)
      moreover have "?y / 2 ^ 53 \<le> 1 / 2 ^ 22" using y(2) by simp
      ultimately have "rnd ?y \<le> ?y + 1 / 2 ^ 22" by linarith
      then show ?thesis by simp
    qed
    finally show ?thesis unfolding v t using False by (meson leD)
  qed
qed

lemma reading_count:
  assumes "in_order samples"
  shows "SampleCount (as_decoded (fst (load_signals instant cap active samples))) =
    int (length (filter (recent instant) samples))"
  by (simp add: load_signals_def as_decoded_def case_prod_beta recentRequestDurations_def removeExpired_filter [OF assms] Let_def)

text \<open>The reading reaches a threshold if more than one request in a hundred does.\<close>

lemma reading_share:
  assumes order: "in_order samples"
    and size: "20 \<le> length window" "length window \<le> 2 ^ 40"
    and range: "\<forall>d \<in> set window. 0 \<le> d \<and> d \<le> 2 ^ 53"
    and T: "0 \<le> T" "T \<le> 2 ^ 31"
    and window: "window = map Duration (filter (recent instant) samples)"
  shows "f64_of_int T \<le> P99LatencyMs (as_decoded (fst (load_signals instant cap active samples))) \<longleftrightarrow>
    length window < 100 * length (filter (\<lambda>d. T * millisecond \<le> d) window)"
proof -
  have ne: "window \<noteq> []" using size(1) by auto
  have "P99LatencyMs (as_decoded (fst (load_signals instant cap active samples))) = calculateP99LatencyMs window"
    by (simp add: load_signals_def as_decoded_def case_prod_beta recentRequestDurations_def
        removeExpired_filter [OF order] window Let_def)
  moreover have "f64_of_int T \<le> calculateP99LatencyMs window \<longleftrightarrow> T * millisecond \<le> p99_duration window"
    using ms_reaches [OF T] p99_duration_in [OF ne size(2)] range by (simp add: p99_reported [OF ne])
  moreover have "\<dots> \<longleftrightarrow> length window < 100 * length (filter (\<lambda>d. T * millisecond \<le> d) window)"
    by (rule p99_reaches [OF ne size(2)])
  ultimately show ?thesis by simp
qed

text \<open>A window in which more than one request in a hundred took the threshold or longer.\<close>

definition slow_window :: "GatewayConfig \<Rightarrow> time \<Rightarrow> latencySample list \<Rightarrow> bool" where
  "slow_window config instant samples \<longleftrightarrow>
     (let window = map Duration (filter (recent instant) samples) in
      in_order samples \<and> 20 \<le> length window \<and> length window \<le> 2 ^ 40 \<and> list_all (\<lambda>d. 0 \<le> d \<and> d \<le> 2 ^ 53) window \<and>
      length window < 100 * length (filter (\<lambda>d. AdaptiveTTLLatencyThresholdMs config * millisecond \<le> d) window))"

lemma slow_window_congested:
  assumes "slow_window config instant samples"
    and "0 \<le> AdaptiveTTLLatencyThresholdMs config" "AdaptiveTTLLatencyThresholdMs config \<le> 2 ^ 31"
  shows "congested config (as_decoded (fst (load_signals instant cap active samples)))"
  using reading_share [OF _ _ _ _ assms(2,3) refl, of samples instant] reading_count [of samples instant] assms(1)
  by (simp add: slow_window_def congested_def adaptiveTTLMinimumSampleCount_def list_all_iff Let_def)

text \<open>
  C12. The end-to-end meaning of the latency signal: when at least twenty requests ended in the
  window, a gateway that reads \<open>/load\<close> finds the latency congested exactly if more than one
  request in a hundred of the window took the threshold or longer.
\<close>

theorem latency_congestion_share:
  fixes config :: GatewayConfig
  assumes order: "in_order samples"
    and window: "window = map Duration (filter (recent instant) samples)"
    and size: "20 \<le> length window" "length window \<le> 2 ^ 40"
    and range: "\<forall>d \<in> set window. 0 \<le> d \<and> d \<le> 2 ^ 53"
    and T: "0 \<le> AdaptiveTTLLatencyThresholdMs config" "AdaptiveTTLLatencyThresholdMs config \<le> 2 ^ 31"
  shows "fst (snd (classifyBackendLoad config (as_decoded (fst (load_signals instant cap active samples))))) \<longleftrightarrow>
    length window < 100 * length (filter (\<lambda>d. AdaptiveTTLLatencyThresholdMs config * millisecond \<le> d) window)"
  using size reading_share [OF order size range T window, of cap active] reading_count [OF order, of instant cap active]
  by (simp add: classifyBackendLoad_def adaptiveTTLMinimumSampleCount_def Let_def window)

text \<open>
  C32. However many requests end, the samples kept are exactly those of the last fifteen seconds,
  provided every request reads its clock in the order in which it gets the lock: trimming with a
  binary search at each recording is the same as filtering the whole history once.
\<close>

theorem window_is_recent_history:
  assumes "sorted (map fst hist)" and "\<forall>x \<in> set hist. fst x \<le> instant"
  shows "fst (recentRequestDurations instant (fold (\<lambda>(t, d). recordRequestDuration t d) hist [])) =
    map snd (filter (\<lambda>x. instant - loadSignalWindowDuration \<le> fst x) hist)"
proof -
  let ?old = "fold (\<lambda>(t, d). recordRequestDuration t d) hist []"
  have old: "?old = (if hist = [] then [] else filter (recent (fst (last hist))) (as_samples hist))"
    by (rule recorded_window [OF assms(1)])
  have "in_order ?old" unfolding old
    using assms(1) by (cases "hist = []") (auto simp: as_samples_order in_order_filter, simp add: in_order_def)
  then have "removeExpiredLatencySamples instant ?old = filter (recent instant) ?old" by (rule removeExpired_filter)
  also have "\<dots> = filter (recent instant) (as_samples hist)"
    using assms(2) recent_later [of "fst (last hist)" instant "as_samples hist"]
    by (cases "hist = []") (simp_all add: old as_samples_def del: filter_filter)
  finally show ?thesis
    by (simp add: recentRequestDurations_def Let_def as_samples_def filter_map comp_def case_prod_beta recent_def)
qed

text \<open>
  Recordings that race: the clock is read before the lock is taken, so a sample read earlier
  can be stored behind a later one. A binary search over such a window can drop a sample of the
  last fifteen seconds with the ones that expired.
\<close>

theorem racing_recordings_lose_samples:
  "recentRequestDurations (36 * second)
     (recordRequestDuration (21 * second - 1) 7 (recordRequestDuration (21 * second + 1) 5 [])) = ([], [])"
  "recent (36 * second) \<lparr>RecordedAt = 21 * second + 1, Duration = 5\<rparr>"
  by (simp_all add: recentRequestDurations_def recordRequestDuration_def removeExpiredLatencySamples_def
      loadSignalWindowDuration_def sort_search.simps recent_def)

definition slow_samples :: "latencySample list" where
  "slow_samples = replicate 99 \<lparr>RecordedAt = 0, Duration = 5 * millisecond\<rparr> @
     replicate 2 \<lparr>RecordedAt = second, Duration = 2000 * millisecond\<rparr>"

lemma slow_samples_ok: "in_order slow_samples" "filter (recent second) slow_samples = slow_samples"
  "map Duration slow_samples = replicate 99 (5 * millisecond) @ replicate 2 (2000 * millisecond)"
  by (simp_all add: slow_samples_def in_order_def sorted_append filter_replicate recent_def loadSignalWindowDuration_def)

theorem latency_congestion_share_witness:
  "fst (snd (classifyBackendLoad sample_config (as_decoded (fst (load_signals second 15 1 slow_samples)))))"
  using latency_congestion_share [OF slow_samples_ok(1) refl, of second sample_config 15 1]
  by (simp add: slow_samples_ok filter_replicate sample_config_def)

theorem window_is_recent_history_witness:
  "fst (recentRequestDurations (20 * second) (fold (\<lambda>(t, d). recordRequestDuration t d)
     [(0, 3), (6 * second, 4), (9 * second, 2)] [])) = [4, 2]"
  using window_is_recent_history [of "[(0, 3), (6 * second, 4), (9 * second, 2)]" "20 * second"]
  by (simp add: loadSignalWindowDuration_def)

end
