(* ===== verification/Backend_Handler.thy ===== *)
theory Backend_Handler
  imports Load_Signals
begin

text \<open>
  The backend: \<open>backend/handler/handler.go\<close>, \<open>fault.go\<close>, \<open>backend_config.go\<close> and the service it
  calls. A request runs through \<open>Get\<close> in atomic steps, one per access to shared state or blocking
  \<open>select\<close>; requests interleave with each other, with configuration changes, injected faults and
  the reading of the load. Channels are objects of a heap, since a configuration change replaces
  the channel while requests still hold a reference to the old one.
\<close>

section \<open>Data\<close>

record Entity =
  ID :: string
  Name :: string

record BackendConfig =
  semaphoreSize :: int
  concurrentDelayMs :: int
  baseLatencyMs :: int

datatype breply = Silent | ErrorText int string | StatusOnly int | EntityJSON Entity | ConfigJSON BackendConfig

text \<open>A buffered channel of empty structs is its capacity and its length.\<close>

record semaphore =
  chan_cap :: int
  chan_len :: int

text \<open>
  Where a request is in \<open>Get\<close>. The local variables are arguments: the semaphore read under the
  lock, the delays in milliseconds, the time at which a timer fires, the reply already written
  when the deferred calls run.
\<close>

datatype pc =
    Arrived
  | Admitted
  | Counted
  | Entered
  | Queued nat int int
  | Holding nat int int
  | Delayed nat time int
  | Fetching nat time
  | Releasing nat breply
  | Leaving breply
  | Uncounted breply
  | Recording breply
  | Storing time duration breply
  | Replied breply

record backend_request =
  ident :: string
  requestStartedAt :: time
  cancelled :: bool
  pc :: pc

record backend =
  clock :: time
  semaphores :: "semaphore list"
  Semaphore :: nat
  ConcurrentDelayMs :: int
  BaseLatencyMs :: int
  Active :: "64 word"
  Unavailable :: bool
  requestDurations :: "latencySample list"
  totalBackendRequests :: nat
  backendActiveRequests :: int
  requests :: "backend_request list"
  faults :: "time list"

section \<open>Requests\<close>

text \<open>\<open>FindEntity\<close>, given whether its \<open>select\<close> takes the branch of the cancelled context.\<close>

definition FindEntity :: "string \<Rightarrow> bool \<Rightarrow> string + Entity" where
  "FindEntity eid gives_up =
     (if eid = '''' then Inl ''Invalid id''
      else if gives_up then Inl ''context canceled''
      else Inr \<lparr>ID = eid, Name = ''Test Entity''\<rparr>)"

definition answer :: "bool \<Rightarrow> string + Entity \<Rightarrow> breply" where
  "answer is_cancelled found =
     (case found of
        Inl err \<Rightarrow> if is_cancelled then Silent else StatusOnly 404
      | Inr entity \<Rightarrow> EntityJSON entity)"

definition add_len :: "int \<Rightarrow> nat \<Rightarrow> backend \<Rightarrow> backend" where
  "add_len n s b = b\<lparr>semaphores := (semaphores b)[s := (semaphores b ! s)\<lparr>chan_len := chan_len (semaphores b ! s) + n\<rparr>]\<rparr>"

text \<open>
  One step of \<open>Get\<close>; \<open>None\<close> if it is blocked. \<open>gives_up\<close> says which branch a \<open>select\<close> takes: the
  cancelled context can be chosen once the context is done, the other one once it is ready, and
  either if both are.
\<close>

definition Get_step :: "bool \<Rightarrow> backend_request \<Rightarrow> backend \<Rightarrow> (backend_request \<times> backend) option" where
  "Get_step gives_up r b = (case pc r of
     Arrived \<Rightarrow>
       if Unavailable b then Some (r\<lparr>pc := Replied (ErrorText 503 ''Backend temporarily unavailable'')\<rparr>, b)
       else Some (r\<lparr>pc := Admitted\<rparr>, b)
   | Admitted \<Rightarrow> Some (r\<lparr>pc := Counted\<rparr>, b\<lparr>Active := Active b + 1\<rparr>)
   | Counted \<Rightarrow> Some (r\<lparr>pc := Entered\<rparr>, b\<lparr>backendActiveRequests := backendActiveRequests b + 1\<rparr>)
   | Entered \<Rightarrow> Some (r\<lparr>pc := Queued (Semaphore b) (ConcurrentDelayMs b) (BaseLatencyMs b)\<rparr>, b)
   | Queued s delayMs latencyMs \<Rightarrow>
       if gives_up then if cancelled r then Some (r\<lparr>pc := Leaving Silent\<rparr>, b) else None
       else if chan_len (semaphores b ! s) < chan_cap (semaphores b ! s)
       then Some (r\<lparr>pc := Holding s delayMs latencyMs\<rparr>, add_len 1 s b)
       else None
   | Holding s delayMs latencyMs \<Rightarrow>
       let concurrentDelay = dur_mul (dur_mul (chan_len (semaphores b ! s)) delayMs) millisecond
       in Some (r\<lparr>pc := Delayed s (clock b + concurrentDelay) latencyMs\<rparr>, b)
   | Delayed s fires latencyMs \<Rightarrow>
       if gives_up then if cancelled r then Some (r\<lparr>pc := Releasing s Silent\<rparr>, b) else None
       else if fires \<le> clock b
       then if ident r = '''' then Some (r\<lparr>pc := Releasing s (answer (cancelled r) (FindEntity (ident r) False))\<rparr>, b)
            else Some (r\<lparr>pc := Fetching s (clock b + dur_mul latencyMs millisecond)\<rparr>, b)
       else None
   | Fetching s fires \<Rightarrow>
       if (if gives_up then cancelled r else fires \<le> clock b)
       then Some (r\<lparr>pc := Releasing s (answer (cancelled r) (FindEntity (ident r) gives_up))\<rparr>, b)
       else None
   | Releasing s reply \<Rightarrow>
       if 0 < chan_len (semaphores b ! s) then Some (r\<lparr>pc := Leaving reply\<rparr>, add_len (- 1) s b) else None
   | Leaving reply \<Rightarrow> Some (r\<lparr>pc := Uncounted reply\<rparr>, b\<lparr>Active := Active b - 1\<rparr>)
   | Uncounted reply \<Rightarrow> Some (r\<lparr>pc := Recording reply\<rparr>, b\<lparr>backendActiveRequests := backendActiveRequests b - 1\<rparr>)
   | Recording reply \<Rightarrow> Some (r\<lparr>pc := Storing (clock b) (sub_time (clock b) (requestStartedAt r)) reply\<rparr>, b)
   | Storing instant d reply \<Rightarrow>
       Some (r\<lparr>pc := Replied reply\<rparr>, b\<lparr>requestDurations := recordRequestDuration instant d (requestDurations b)\<rparr>)
   | Replied reply \<Rightarrow> None)"

section \<open>Configuration, faults and load\<close>

definition BadRequest :: int where "BadRequest = 400"

definition UpdateConfig :: "BackendConfig option \<Rightarrow> backend \<Rightarrow> breply \<times> backend" where
  "UpdateConfig body b = (case body of
     None \<Rightarrow> (ErrorText BadRequest ''Invalid request body'', b)
   | Some config \<Rightarrow>
       if semaphoreSize config \<le> 0 then (ErrorText BadRequest ''Semaphore size must be greater than zero'', b)
       else if concurrentDelayMs config < 0 then (ErrorText BadRequest ''Concurrent delay must not be negative'', b)
       else if baseLatencyMs config < 0 then (ErrorText BadRequest ''Base latency must not be negative'', b)
       else (ConfigJSON config,
         b\<lparr>semaphores := semaphores b @ [\<lparr>chan_cap = semaphoreSize config, chan_len = 0\<rparr>],
           Semaphore := length (semaphores b),
           ConcurrentDelayMs := concurrentDelayMs config,
           BaseLatencyMs := baseLatencyMs config\<rparr>))"

definition GetConfig :: "backend \<Rightarrow> breply" where
  "GetConfig b = ConfigJSON \<lparr>semaphoreSize = chan_cap (semaphores b ! Semaphore b),
     concurrentDelayMs = ConcurrentDelayMs b, baseLatencyMs = BaseLatencyMs b\<rparr>"

text \<open>The goroutine of a fault sleeps until the time kept in \<open>faults\<close>.\<close>

definition ActivateFault :: "int option \<Rightarrow> backend \<Rightarrow> breply \<times> backend" where
  "ActivateFault body b = (case body of
     None \<Rightarrow> (ErrorText BadRequest ''Invalid request body'', b)
   | Some durationMs \<Rightarrow>
       if durationMs \<le> 0 then (ErrorText BadRequest ''Duration must be greater than zero'', b)
       else (StatusOnly 204,
         b\<lparr>Unavailable := True, faults := faults b @ [clock b + dur_mul durationMs millisecond]\<rparr>))"

definition fault_ends :: "time \<Rightarrow> backend \<Rightarrow> backend option" where
  "fault_ends t b =
     (if t \<in> set (faults b) \<and> t \<le> clock b then Some (b\<lparr>Unavailable := False, faults := remove1 t (faults b)\<rparr>) else None)"

definition GetLoadSignals :: "backend \<Rightarrow> LoadSignals \<times> backend" where
  "GetLoadSignals b =
     (let maxConcurrentRequests = chan_cap (semaphores b ! Semaphore b);
          activeRequests = sint (Active b);
          (signals, samples) = load_signals (clock b) maxConcurrentRequests activeRequests (requestDurations b)
      in (signals, b\<lparr>requestDurations := samples\<rparr>))"

text \<open>\<open>corsMiddleware\<close> of \<open>main.go\<close> around an endpoint: the headers it sets and the reply.\<close>

definition corsMiddleware :: "(backend \<Rightarrow> breply \<times> backend) \<Rightarrow> string \<Rightarrow> backend \<Rightarrow> (string \<times> string) list \<times> breply \<times> backend" where
  "corsMiddleware endpoint method_name b =
     (let headers = [(''Access-Control-Allow-Origin'', ''http://localhost:4200''),
            (''Access-Control-Allow-Methods'', ''GET, PUT, OPTIONS''),
            (''Access-Control-Allow-Headers'', ''Content-Type'')]
      in if method_name = ''OPTIONS'' then (headers, StatusOnly 204, b)
         else let (reply, b') = endpoint b in (headers, reply, b'))"

lemma preflight_only_asks: "snd (corsMiddleware endpoint ''OPTIONS'' b) = (StatusOnly 204, b)"
  by (simp add: corsMiddleware_def)

section \<open>Steps of the whole backend\<close>

datatype event =
    Arrive string
  | Cancel nat
  | Proceed nat
  | GiveUp nat
  | Configure "BackendConfig option"
  | Inject "int option"
  | Recover time
  | ReadLoad
  | Tick duration

definition Get_at :: "bool \<Rightarrow> nat \<Rightarrow> backend \<Rightarrow> backend option" where
  "Get_at gives_up i b =
     (if i < length (requests b)
      then map_option (\<lambda>(r, b). b\<lparr>requests := (requests b)[i := r]\<rparr>) (Get_step gives_up (requests b ! i) b)
      else None)"

definition arrive :: "string \<Rightarrow> backend \<Rightarrow> backend" where
  "arrive eid b = b\<lparr>requests := requests b @ [\<lparr>ident = eid, requestStartedAt = clock b, cancelled = False, pc = Arrived\<rparr>],
     totalBackendRequests := totalBackendRequests b + 1\<rparr>"

fun perform :: "event \<Rightarrow> backend \<Rightarrow> backend option" where
  "perform (Arrive eid) b = Some (arrive eid b)"
| "perform (Cancel i) b =
     (if i < length (requests b) then Some (b\<lparr>requests := (requests b)[i := (requests b ! i)\<lparr>cancelled := True\<rparr>]\<rparr>) else None)"
| "perform (Proceed i) b = Get_at False i b"
| "perform (GiveUp i) b = Get_at True i b"
| "perform (Configure body) b = Some (snd (UpdateConfig body b))"
| "perform (Inject body) b = Some (snd (ActivateFault body b))"
| "perform (Recover t) b = fault_ends t b"
| "perform ReadLoad b = Some (snd (GetLoadSignals b))"
| "perform (Tick d) b = (if 0 \<le> d then Some (b\<lparr>clock := clock b + d\<rparr>) else None)"

fun performs :: "event list \<Rightarrow> backend \<Rightarrow> backend option" where
  "performs [] b = Some b"
| "performs (e # es) b = (case perform e b of None \<Rightarrow> None | Some b' \<Rightarrow> performs es b')"

text \<open>The handler that \<open>main\<close> starts with, at any time of day.\<close>

definition start_backend :: "time \<Rightarrow> backend" where
  "start_backend t = \<lparr>clock = t, semaphores = [\<lparr>chan_cap = 15, chan_len = 0\<rparr>], Semaphore = 0, ConcurrentDelayMs = 5,
     BaseLatencyMs = 200, Active = 0, Unavailable = False, requestDurations = [], totalBackendRequests = 0,
     backendActiveRequests = 0, requests = [], faults = []\<rparr>"

definition backend_start :: "backend \<Rightarrow> bool" where
  "backend_start b \<longleftrightarrow> (\<exists>t. b = start_backend t)"

inductive backend_step :: "backend \<Rightarrow> backend \<Rightarrow> bool" where
  performed: "perform e b = Some b' \<Longrightarrow> backend_step b b'"

inductive_cases backend_stepE [elim]: "backend_step b b'"


section \<open>Counting requests\<close>

abbreviation count_of :: "('a \<Rightarrow> bool) \<Rightarrow> 'a list \<Rightarrow> nat" where
  "count_of P xs \<equiv> length (filter P xs)"

lemma count_update:
  "i < length xs \<Longrightarrow> int (count_of P (xs[i := y])) = int (count_of P xs) + of_bool (P y) - of_bool (P (xs ! i))"
proof (induction xs arbitrary: i)
  case (Cons x xs)
  show ?case
  proof (cases i)
    case (Suc k)
    then show ?thesis using Cons.IH [of k] Cons.prems by simp
  qed simp
qed simp

lemma nth_update_at: "j < length xs \<Longrightarrow> xs[i := y] ! j = (if i = j then y else xs ! j)"
  by simp

lemma count_unchanged: "i < length xs \<Longrightarrow> P y = P (xs ! i) \<Longrightarrow> count_of P (xs[i := y]) = count_of P xs"
  using count_update [of i xs P y] by simp

lemma count_pos: "x \<in> set xs \<Longrightarrow> P x \<Longrightarrow> 0 < count_of P xs"
  by (auto simp: filter_empty_conv)

text \<open>The semaphore a request refers to, the one it holds a slot of, and whether
  \<open>Active\<close> and the gauge of the metrics count it.\<close>

fun slot :: "pc \<Rightarrow> nat option" where
  "slot (Holding s _ _) = Some s"
| "slot (Delayed s _ _) = Some s"
| "slot (Fetching s _) = Some s"
| "slot (Releasing s _) = Some s"
| "slot _ = None"

fun refers :: "pc \<Rightarrow> nat option" where
  "refers (Queued s _ _) = Some s"
| "refers x = slot x"

fun active :: "pc \<Rightarrow> bool" where
  "active Counted = True"
| "active Entered = True"
| "active (Leaving _) = True"
| "active x = (refers x \<noteq> None)"

fun gauged :: "pc \<Rightarrow> bool" where
  "gauged Entered = True"
| "gauged (Leaving _) = True"
| "gauged (Uncounted _) = True"
| "gauged x = (refers x \<noteq> None)"

abbreviation processing :: "nat \<Rightarrow> backend \<Rightarrow> nat" where
  "processing s b \<equiv> count_of (\<lambda>r. slot (pc r) = Some s) (requests b)"

text \<open>What one step does to the counters, in terms of where the request was and where it goes.\<close>

lemma Get_step_frame:
  assumes "Get_step g r b = Some (r', b')"
  shows "requests b' = requests b" "Semaphore b' = Semaphore b" "totalBackendRequests b' = totalBackendRequests b"
    "length (semaphores b') = length (semaphores b)" "ident r' = ident r" "cancelled r' = cancelled r"
    "faults b' = faults b" "Unavailable b' = Unavailable b" "clock b' = clock b" "requestStartedAt r' = requestStartedAt r"
  using assms by (auto simp: Get_step_def add_len_def Let_def split: pc.splits if_splits)

lemma Get_atE:
  assumes "Get_at g i b = Some b'"
  obtains r b1 where "i < length (requests b)" "Get_step g (requests b ! i) b = Some (r, b1)"
    "b' = b1\<lparr>requests := (requests b1)[i := r]\<rparr>"
  using assms by (auto simp: Get_at_def split: if_splits)

lemma Get_step_active:
  "Get_step g r b = Some (r', b') \<Longrightarrow>
    Active b' = Active b + of_bool (active (pc r')) - of_bool (active (pc r))"
  by (auto simp: Get_step_def add_len_def Let_def split: pc.splits if_splits)

lemma Get_step_gauged:
  "Get_step g r b = Some (r', b') \<Longrightarrow>
    backendActiveRequests b' = backendActiveRequests b + of_bool (gauged (pc r')) - of_bool (gauged (pc r))"
  by (auto simp: Get_step_def add_len_def Let_def split: pc.splits if_splits)

lemma Get_step_slots:
  assumes "Get_step g r b = Some (r', b')" and "s < length (semaphores b)"
  shows "chan_len (semaphores b' ! s) =
      chan_len (semaphores b ! s) + of_bool (slot (pc r') = Some s) - of_bool (slot (pc r) = Some s)"
    and "chan_cap (semaphores b' ! s) = chan_cap (semaphores b ! s)"
    and "chan_len (semaphores b ! s) \<le> chan_cap (semaphores b ! s) \<Longrightarrow>
      chan_len (semaphores b' ! s) \<le> chan_cap (semaphores b' ! s)"
  using assms by (auto simp: Get_step_def add_len_def Let_def nth_update_at split: pc.splits if_splits)

lemma Get_step_refers:
  "Get_step g r b = Some (r', b') \<Longrightarrow> refers (pc r') = Some s \<Longrightarrow> refers (pc r) = Some s \<or> s = Semaphore b"
  by (auto simp: Get_step_def add_len_def Let_def split: pc.splits if_splits)

section \<open>The invariant\<close>

text \<open>
  Every slot of every semaphore, old or current, is held by exactly one request, no semaphore
  is over its capacity, and \<open>Active\<close> counts the requests inside \<open>Get\<close>.
\<close>

definition accounted :: "backend \<Rightarrow> bool" where
  "accounted b \<longleftrightarrow>
     Semaphore b < length (semaphores b) \<and>
     (\<forall>r \<in> set (requests b). \<forall>s. refers (pc r) = Some s \<longrightarrow> s < length (semaphores b)) \<and>
     (\<forall>s < length (semaphores b). chan_len (semaphores b ! s) = int (processing s b) \<and>
        int (processing s b) \<le> chan_cap (semaphores b ! s) \<and> 0 < chan_cap (semaphores b ! s)) \<and>
     Active b = of_nat (count_of (\<lambda>r. active (pc r)) (requests b)) \<and>
     totalBackendRequests b = length (requests b) \<and>
     backendActiveRequests b = int (count_of (\<lambda>r. gauged (pc r)) (requests b))"

lemma accountedD:
  assumes "accounted b"
  shows "Semaphore b < length (semaphores b)"
    "r \<in> set (requests b) \<Longrightarrow> refers (pc r) = Some s \<Longrightarrow> s < length (semaphores b)"
    "s < length (semaphores b) \<Longrightarrow> chan_len (semaphores b ! s) = int (processing s b)"
    "s < length (semaphores b) \<Longrightarrow> int (processing s b) \<le> chan_cap (semaphores b ! s)"
    "s < length (semaphores b) \<Longrightarrow> 0 < chan_cap (semaphores b ! s)"
    "Active b = of_nat (count_of (\<lambda>r. active (pc r)) (requests b))"
    "totalBackendRequests b = length (requests b)"
    "backendActiveRequests b = int (count_of (\<lambda>r. gauged (pc r)) (requests b))"
  using assms unfolding accounted_def by metis+

lemma accounted_Get:
  assumes acc: "accounted b" and i: "i < length (requests b)" and step: "Get_step g (requests b ! i) b = Some (r, b')"
  shows "accounted (b'\<lparr>requests := (requests b)[i := r]\<rparr>)"
proof -
  note d = accountedD [OF acc] and f = Get_step_frame [OF step] and sl = Get_step_slots [OF step]
  have ref: "s < length (semaphores b)" if "x \<in> set ((requests b)[i := r])" "refers (pc x) = Some s" for x s
    using that d(1,2) Get_step_refers [OF step, of s] nth_mem [OF i] set_update_subset_insert [of "requests b" i r]
    by blast
  have slots: "chan_len (semaphores b' ! s) = int (count_of (\<lambda>r. slot (pc r) = Some s) ((requests b)[i := r]))"
    if "s < length (semaphores b)" for s
    using sl(1) [OF that] d(3) [OF that] count_update [OF i, of "\<lambda>r. slot (pc r) = Some s" r] by simp
  have act: "Active b' = of_nat (count_of (\<lambda>r. active (pc r)) ((requests b)[i := r]))"
  proof -
    have "(of_int (int (count_of (\<lambda>r. active (pc r)) ((requests b)[i := r]))) :: 64 word) =
        of_int (int (count_of (\<lambda>r. active (pc r)) (requests b)) + of_bool (active (pc r)) - of_bool (active (pc (requests b ! i))))"
      by (subst count_update [OF i]) (rule refl)
    then show ?thesis using Get_step_active [OF step] d(6) by simp
  qed
  have le: "int (count_of (\<lambda>r. slot (pc r) = Some s) ((requests b)[i := r])) \<le> chan_cap (semaphores b' ! s)" and pos: "0 < chan_cap (semaphores b' ! s)"
    if "s < length (semaphores b)" for s
    using sl(2,3) [OF that] d(3,4,5) [OF that] slots [OF that] by simp_all
  have gauge: "backendActiveRequests b' = int (count_of (\<lambda>r. gauged (pc r)) ((requests b)[i := r]))"
    using Get_step_gauged [OF step] d(8) count_update [OF i, of "\<lambda>r. gauged (pc r)" r] by simp
  show ?thesis unfolding accounted_def
    using f d(1,7) ref slots act le pos gauge by simp
qed


lemma accounted_frame:
  assumes "accounted b" and "semaphores b' = semaphores b" "Semaphore b' = Semaphore b" "Active b' = Active b"
    "totalBackendRequests b' = totalBackendRequests b" "backendActiveRequests b' = backendActiveRequests b" "requests b' = requests b"
  shows "accounted b'"
  using assms by (simp add: accounted_def)

lemma accounted_cancel:
  assumes "accounted b" and i: "i < length (requests b)"
  shows "accounted (b\<lparr>requests := (requests b)[i := (requests b ! i)\<lparr>cancelled := c\<rparr>]\<rparr>)"
proof -
  have "\<forall>r \<in> set ((requests b)[i := (requests b ! i)\<lparr>cancelled := c\<rparr>]). \<forall>s. refers (pc r) = Some s \<longrightarrow> s < length (semaphores b)"
    using accountedD(2) [OF assms(1)] nth_mem [OF i] by (auto dest!: subsetD [OF set_update_subset_insert])
  then show ?thesis using assms(1) by (simp add: accounted_def count_unchanged [OF i])
qed

lemma accounted_arrive: "accounted b \<Longrightarrow> accounted (arrive eid b)"
  by (auto simp: accounted_def arrive_def)

lemma accounted_configure: "accounted b \<Longrightarrow> accounted (snd (UpdateConfig body b))"
proof -
  assume acc: "accounted b"
  have "processing (length (semaphores b)) b = 0"
    using accountedD(2) [OF acc, of _ "length (semaphores b)"]
    by (fastforce simp: filter_empty_conv elim: slot.elims)
  with acc show ?thesis
    by (auto simp: UpdateConfig_def accounted_def nth_append less_Suc_eq split: option.splits)
qed

lemma accounted_step:
  assumes acc: "accounted b" and step: "backend_step b b'"
  shows "accounted b'"
proof -
  obtain e where e: "perform e b = Some b'" using step by blast
  have get: "accounted b'" if "Get_at g i b = Some b'" for g i
    using that accounted_Get [OF acc, of i g] Get_step_frame(1) [of g "requests b ! i" b]
    by (auto simp: Get_at_def split: if_splits)
  show ?thesis
  proof (cases e)
    case (Cancel i)
    then show ?thesis using e accounted_cancel [OF acc] by (auto split: if_splits)
  next
    case (Inject body)
    then show ?thesis using e
      by (auto simp: ActivateFault_def split: option.splits if_splits intro: accounted_frame [OF acc])
  qed (use e get acc in \<open>auto simp: accounted_arrive accounted_configure fault_ends_def GetLoadSignals_def case_prod_beta Let_def
      split: if_splits intro: accounted_frame [OF acc]\<close>)
qed

lemma accounted_start: "accounted (start_backend t)"
  by (simp add: accounted_def start_backend_def)

interpretation backend: inductive_invariant backend_start backend_step accounted
proof
  show "accounted b" if "backend_start b" for b
    using that accounted_start by (auto simp: backend_start_def)
qed (rule accounted_step)


lemma holders_total:
  fixes f :: "'a \<Rightarrow> nat option"
  assumes "\<forall>x \<in> set xs. \<forall>s. f x = Some s \<longrightarrow> s < n"
  shows "(\<Sum>s<n. count_of (\<lambda>x. f x = Some s) xs) = count_of (\<lambda>x. f x \<noteq> None) xs"
  using assms
proof (induction xs)
  case (Cons x xs)
  have "(\<Sum>s<n. count_of (\<lambda>x. f x = Some s) (x # xs)) =
      (\<Sum>s<n. (if f x = Some s then 1 else 0) + count_of (\<lambda>x. f x = Some s) xs)"
    by (intro sum.cong) auto
  also have "\<dots> = (\<Sum>s<n. if f x = Some s then 1 else 0) + count_of (\<lambda>x. f x \<noteq> None) xs"
    using Cons by (simp add: sum.distrib)
  also have "(\<Sum>s<n. if f x = Some s then 1 else 0) = (if f x \<noteq> None then 1 else 0 :: nat)"
    using Cons.prems by (cases "f x") simp_all
  finally show ?case by simp
qed simp

lemma slot_refers: "slot x = Some s \<Longrightarrow> refers x = Some s"
  by (cases x) simp_all

lemma all_holders:
  assumes acc: "accounted b"
  shows "count_of (\<lambda>r. slot (pc r) \<noteq> None) (requests b) = (\<Sum>s<length (semaphores b). processing s b)"
  using holders_total [of "requests b" "\<lambda>r. slot (pc r)" "length (semaphores b)"] accountedD(2) [OF acc] slot_refers
  by fastforce

section \<open>Every request ends\<close>

fun stage :: "pc \<Rightarrow> nat" where
  "stage Arrived = 13"
| "stage Admitted = 12"
| "stage Counted = 11"
| "stage Entered = 10"
| "stage (Queued _ _ _) = 9"
| "stage (Holding _ _ _) = 8"
| "stage (Delayed _ _ _) = 7"
| "stage (Fetching _ _) = 6"
| "stage (Releasing _ _) = 5"
| "stage (Leaving _) = 4"
| "stage (Uncounted _) = 3"
| "stage (Recording _) = 2"
| "stage (Storing _ _ _) = 1"
| "stage (Replied _) = 0"

definition work :: "backend \<Rightarrow> nat" where
  "work b = sum_list (map (\<lambda>r. stage (pc r)) (requests b))"

lemma Get_step_stage: "Get_step g r b = Some (r', b') \<Longrightarrow> stage (pc r') < stage (pc r)"
  by (auto simp: Get_step_def Let_def split: pc.splits if_splits)

lemma sum_list_less:
  "i < length xs \<Longrightarrow> f y < f (xs ! i) \<Longrightarrow> sum_list (map f (xs[i := y])) < (sum_list (map f xs) :: nat)"
  by (induction xs arbitrary: i) (auto simp: nth_Cons' split: nat.split)

lemma Get_at_work: "Get_at g i b = Some b' \<Longrightarrow> work b' < work b"
  using Get_step_frame(1) [of g "requests b ! i" b] Get_step_stage [of g "requests b ! i" b]
  by (auto simp: Get_at_def work_def split: if_splits intro!: sum_list_less)

lemma Get_step_ready:
  assumes acc: "accounted b" and r: "r \<in> set (requests b)" and "stage (pc r) \<notin> {0, 9}"
  obtains d where "0 \<le> d" "Get_step False r (b\<lparr>clock := clock b + d\<rparr>) \<noteq> None"
proof -
  have held: "0 < chan_len (semaphores b ! s)" if "slot (pc r) = Some s" for s
    using accountedD(2,3) [OF acc] r that slot_refers count_pos [of r "requests b" "\<lambda>r. slot (pc r) = Some s"] by fastforce
  define d where "d = (case pc r of Delayed _ fires _ \<Rightarrow> max 0 (fires - clock b) | Fetching _ fires \<Rightarrow> max 0 (fires - clock b) | _ \<Rightarrow> 0)"
  have "0 \<le> d" by (simp add: d_def split: pc.split)
  moreover have "Get_step False r (b\<lparr>clock := clock b + d\<rparr>) \<noteq> None"
    using assms(3) held by (auto simp: Get_step_def d_def Let_def split: pc.splits)
  ultimately show ?thesis by (rule that)
qed

text \<open>A request waiting for a slot can take one, or some request that holds a slot can move.\<close>

lemma backend_progress:
  assumes acc: "accounted b" and r: "r \<in> set (requests b)" and busy: "0 < stage (pc r)"
  obtains d i b' where "0 \<le> d" "performs [Tick d, Proceed i] b = Some b'" "work b' < work b"
proof -
  have "\<exists>d \<ge> 0. \<exists>x \<in> set (requests b). Get_step False x (b\<lparr>clock := clock b + d\<rparr>) \<noteq> None"
  proof (cases "stage (pc r) = 9")
    case False
    then show ?thesis using Get_step_ready [OF acc r] busy r by (metis empty_iff insert_iff less_irrefl)
  next
    case True
    then obtain s c l where q: "pc r = Queued s c l" by (cases "pc r") auto
    have s: "s < length (semaphores b)" using accountedD(2) [OF acc r] q by simp
    show ?thesis
    proof (cases "chan_len (semaphores b ! s) < chan_cap (semaphores b ! s)")
      case True
      then have "Get_step False r (b\<lparr>clock := clock b + 0\<rparr>) \<noteq> None" by (simp add: Get_step_def q)
      then show ?thesis using r by (intro exI [of _ 0]) auto
    next
      case False
      then have "0 < processing s b" using accountedD(3,5) [OF acc s] by linarith
      then obtain h where h: "h \<in> set (requests b)" "slot (pc h) = Some s"
        by (metis (mono_tags, lifting) filter_empty_conv length_greater_0_conv)
      then have "stage (pc h) \<notin> {0, 9}" by (cases "pc h") simp_all
      then show ?thesis using Get_step_ready [OF acc h(1)] h(1) by metis
    qed
  qed
  then obtain d x where d: "0 \<le> d" and x: "x \<in> set (requests b)" "Get_step False x (b\<lparr>clock := clock b + d\<rparr>) \<noteq> None"
    by blast
  obtain i where i: "i < length (requests b)" "requests b ! i = x" using x(1) by (auto simp: in_set_conv_nth)
  then obtain b' where b': "Get_at False i (b\<lparr>clock := clock b + d\<rparr>) = Some b'"
    using x(2) by (auto simp: Get_at_def)
  have "work (b\<lparr>clock := clock b + d\<rparr>) = work b" by (simp add: work_def)
  then show ?thesis using that [of d i b'] d b' Get_at_work [OF b'] by simp
qed


lemma performs_append: "performs (es @ fs) b = (case performs es b of None \<Rightarrow> None | Some b' \<Rightarrow> performs fs b')"
  by (induction es arbitrary: b) (auto split: option.split)

lemma performs_steps: "performs es b = Some b' \<Longrightarrow> backend_step\<^sup>*\<^sup>* b b'"
  by (induction es arbitrary: b) (auto split: option.splits intro: converse_rtranclp_into_rtranclp performed)

abbreviation just_run :: "event \<Rightarrow> bool" where
  "just_run e \<equiv> (\<exists>d. e = Tick d) \<or> (\<exists>i. e = Proceed i)"

lemma runs_out:
  assumes "accounted b"
  shows "\<exists>es b'. performs es b = Some b' \<and> list_all just_run es \<and> work b' = 0 \<and> accounted b'"
  using assms
proof (induction "work b" arbitrary: b rule: less_induct)
  case less
  show ?case
  proof (cases "\<exists>r \<in> set (requests b). 0 < stage (pc r)")
    case True
    then obtain d i b1 where b1: "performs [Tick d, Proceed i] b = Some b1" "work b1 < work b"
      using backend_progress [OF less.prems] by metis
    have "accounted b1" using backend.steps_good [OF performs_steps [OF b1(1)] less.prems] .
    then obtain es b' where "performs es b1 = Some b'" "list_all just_run es" "work b' = 0" "accounted b'"
      using less.hyps [OF b1(2)] by blast
    moreover from this b1 have "performs ([Tick d, Proceed i] @ es) b = Some b'" by (simp only: performs_append) simp
    ultimately show ?thesis by (intro exI [of _ "[Tick d, Proceed i] @ es"] exI [of _ b']) simp
  next
    case False
    then have "work b = 0" by (auto simp: work_def)
    then show ?thesis using less.prems by (intro exI [of _ "[]"] exI [of _ b]) simp
  qed
qed

lemma just_run_requests: "performs es b = Some b' \<Longrightarrow> list_all just_run es \<Longrightarrow> length (requests b') = length (requests b)"
proof (induction es arbitrary: b)
  case (Cons e es)
  obtain b1 where b1: "perform e b = Some b1" "performs es b1 = Some b'"
    using Cons.prems(1) by (auto split: option.splits)
  have "length (requests b1) = length (requests b)"
    using b1(1) Cons.prems(2) Get_step_frame(1) [of False _ b]
    by (auto simp: Get_at_def split: if_splits)
  then show ?case using Cons.IH [OF b1(2)] Cons.prems(2) by simp
qed simp

lemma stage_0: "stage x = 0 \<longleftrightarrow> (\<exists>reply. x = Replied reply)"
  by (cases x) simp_all

section \<open>Properties\<close>

text \<open>
  C11. However requests, cancellations, configuration changes, faults and clock ticks interleave,
  every slot of every semaphore is held by exactly one request and no semaphore is over its
  capacity, so the number of requests being processed at once is at most the sum of the
  capacities configured so far; and the endpoint reports exactly the number of requests in \<open>Get\<close>,
  as does the gauge of the metrics, up to those between the two counters.
\<close>

theorem backend_concurrency_bound:
  assumes "reaches backend_start backend_step b" and n: "int (length (requests b)) < 2 ^ 63"
  shows "(\<forall>s < length (semaphores b). chan_len (semaphores b ! s) = int (processing s b) \<and>
      int (processing s b) \<le> chan_cap (semaphores b ! s)) \<and>
    int (count_of (\<lambda>r. slot (pc r) \<noteq> None) (requests b)) \<le> (\<Sum>s<length (semaphores b). chan_cap (semaphores b ! s)) \<and>
    ActiveRequests_reported (fst (GetLoadSignals b)) = int (count_of (\<lambda>r. active (pc r)) (requests b)) \<and>
    backendActiveRequests b = int (count_of (\<lambda>r. gauged (pc r)) (requests b))"
proof (intro conjI)
  have acc: "accounted b" by (rule backend.reaches_good [OF assms(1)])
  note d = accountedD [OF acc]
  show "\<forall>s < length (semaphores b). chan_len (semaphores b ! s) = int (processing s b) \<and>
      int (processing s b) \<le> chan_cap (semaphores b ! s)" using d(3,4) by blast
  show "int (count_of (\<lambda>r. slot (pc r) \<noteq> None) (requests b)) \<le> (\<Sum>s<length (semaphores b). chan_cap (semaphores b ! s))"
    unfolding all_holders [OF acc] of_nat_sum using d(4) by (intro sum_mono) simp
  have "int (count_of (\<lambda>r. active (pc r)) (requests b)) < 2 ^ 63"
    using n length_filter_le [of "\<lambda>r. active (pc r)" "requests b"] by linarith
  then show "ActiveRequests_reported (fst (GetLoadSignals b)) = int (count_of (\<lambda>r. active (pc r)) (requests b))"
    by (simp add: GetLoadSignals_def load_signals_def case_prod_beta d(6) Let_def signed_of_nat signed_take_bit_int_eq_self)
qed (rule accountedD(8) [OF backend.reaches_good [OF assms(1)]])

text \<open>
  C31. The backend never deadlocks and leaks no slot: from every state it can reach, letting time
  pass and the requests run, without any cancellation, brings all of them to a reply; then
  \<open>Active\<close> and the gauge are 0 and every semaphore, also those that were replaced, is empty.
\<close>

theorem backend_drains:
  assumes "reaches backend_start backend_step b"
  shows "\<exists>es b'. performs es b = Some b' \<and> list_all (\<lambda>e. (\<exists>d. e = Tick d) \<or> (\<exists>i. e = Proceed i)) es \<and>
    length (requests b') = length (requests b) \<and> (\<forall>r \<in> set (requests b'). \<exists>reply. pc r = Replied reply) \<and>
    Active b' = 0 \<and> backendActiveRequests b' = 0 \<and> (\<forall>s < length (semaphores b'). chan_len (semaphores b' ! s) = 0)"
proof -
  have acc: "accounted b" by (rule backend.reaches_good [OF assms])
  obtain es b' where run: "performs es b = Some b'" "list_all just_run es" and w: "work b' = 0" and acc': "accounted b'"
    using runs_out [OF acc] by blast
  have rep: "\<exists>reply. pc r = Replied reply" if "r \<in> set (requests b')" for r
    using w that by (auto simp: work_def stage_0)
  have none: "processing s b' = 0" "count_of (\<lambda>r. active (pc r)) (requests b') = 0"
      "count_of (\<lambda>r. gauged (pc r)) (requests b') = 0" for s
    using rep by (fastforce simp: filter_empty_conv)+
  show ?thesis
    using run just_run_requests [OF run] rep none accountedD(3,6,8) [OF acc'] by (intro exI [of _ es] exI [of _ b']) auto
qed

text \<open>A reply that fits the request it is for.\<close>

fun fits :: "backend_request \<Rightarrow> breply \<Rightarrow> bool" where
  "fits r Silent = cancelled r"
| "fits r (ErrorText code msg) = False"
| "fits r (StatusOnly code) = (code = 404 \<and> ident r = '''')"
| "fits r (EntityJSON entity) = (ident r \<noteq> '''' \<and> entity = \<lparr>ID = ident r, Name = ''Test Entity''\<rparr>)"
| "fits r (ConfigJSON config) = False"





lemma fits_pc [simp]: "fits (r\<lparr>pc := x\<rparr>) reply = fits r reply"
  by (cases reply) simp_all








section \<open>Configuration and faults\<close>

text \<open>
  A configuration is accepted exactly if its semaphore has room for a request and no delay is
  negative; then \<open>GET /config\<close> returns it, and a refused one leaves the backend as it was.
\<close>

theorem backend_config_roundtrip:
  "(let (reply, b') = UpdateConfig (Some config) b in
     if 0 < semaphoreSize config \<and> 0 \<le> concurrentDelayMs config \<and> 0 \<le> baseLatencyMs config
     then reply = ConfigJSON config \<and> GetConfig b' = ConfigJSON config
     else (\<exists>msg. reply = ErrorText 400 msg) \<and> b' = b) \<and>
   (\<exists>msg. UpdateConfig None b = (ErrorText 400 msg, b))"
  by (simp add: UpdateConfig_def GetConfig_def BadRequest_def)

text \<open>While the backend refuses requests, a timer that ends the outage is running.\<close>

definition outage_ends :: "backend \<Rightarrow> bool" where
  "outage_ends b \<longleftrightarrow> (Unavailable b \<longrightarrow> faults b \<noteq> [])"

lemma outage_step: "outage_ends b \<Longrightarrow> backend_step b b' \<Longrightarrow> outage_ends b'"
proof -
  assume ok: "outage_ends b" and "backend_step b b'"
  then obtain e where e: "perform e b = Some b'" by blast
  have "outage_ends b'" if "Get_at g i b = Some b'" for g i
    using that ok Get_step_frame(7,8) [of g "requests b ! i" b] by (auto simp: Get_at_def outage_ends_def split: if_splits)
  with e ok show ?thesis
    by (cases e) (auto simp: outage_ends_def arrive_def UpdateConfig_def ActivateFault_def fault_ends_def GetLoadSignals_def
        case_prod_beta Let_def split: if_splits option.splits)
qed

interpretation outage: inductive_invariant backend_start backend_step outage_ends
proof
  show "outage_ends b" if "backend_start b" for b
    using that by (auto simp: backend_start_def start_backend_def outage_ends_def)
qed (rule outage_step)

text \<open>
  An outage is never permanent: from every reachable state, waiting for one of the running
  timers makes the backend available again.
\<close>

theorem backend_recovers:
  assumes "reaches backend_start backend_step b"
  shows "\<exists>es b'. performs es b = Some b' \<and> list_all (\<lambda>e. (\<exists>d. e = Tick d) \<or> (\<exists>t. e = Recover t)) es \<and> \<not> Unavailable b'"
proof (cases "Unavailable b")
  case True
  then obtain t ts where t: "faults b = t # ts"
    using outage.reaches_good [OF assms] by (cases "faults b") (auto simp: outage_ends_def)
  show ?thesis
    by (rule exI [of _ "[Tick (max 0 (t - clock b)), Recover t]"]) (simp add: fault_ends_def t)
next
  case False
  then show ?thesis by (intro exI [of _ "[]"]) simp
qed

text \<open>A single fault, followed through a run in which no other fault is injected.\<close>

definition fault_until :: "time \<Rightarrow> backend \<Rightarrow> bool" where
  "fault_until t b \<longleftrightarrow> (Unavailable b \<and> faults b = [t]) \<or> (faults b = [] \<and> t \<le> clock b)"

lemma fault_until_same:
  "fault_until t b \<Longrightarrow> Unavailable b' = Unavailable b \<Longrightarrow> faults b' = faults b \<Longrightarrow> clock b \<le> clock b' \<Longrightarrow> fault_until t b'"
  by (auto simp: fault_until_def)

lemma fault_until_perform:
  assumes ok: "fault_until t b" and e: "perform e b = Some b'" and no: "\<forall>body. e \<noteq> Inject body"
  shows "fault_until t b'"
proof -
  have get: "fault_until t b'" if "Get_at g i b = Some b'" for g i
  proof -
    from that obtain r b1 where s: "Get_step g (requests b ! i) b = Some (r, b1)" and b': "b' = b1\<lparr>requests := (requests b1)[i := r]\<rparr>"
      by (rule Get_atE)
    from Get_step_frame(7,8,9) [OF s] show ?thesis by (intro fault_until_same [OF ok]) (simp_all add: b')
  qed
  show ?thesis
  proof (cases e)
    case (Recover u)
    then show ?thesis using e ok by (auto simp: fault_until_def fault_ends_def split: if_splits)
  next
    case (Configure body)
    then have "b' = snd (UpdateConfig body b)" using e by simp
    then show ?thesis by (intro fault_until_same [OF ok]) (auto simp: UpdateConfig_def split: option.split)
  next
    case (Inject body)
    then show ?thesis using no by blast
  qed (use e get in \<open>auto simp: arrive_def GetLoadSignals_def case_prod_beta Let_def
      split: if_splits intro!: fault_until_same [OF ok]\<close>)
qed

lemma fault_until_performs:
  "fault_until t b \<Longrightarrow> performs es b = Some b' \<Longrightarrow> list_all (\<lambda>e. \<forall>body. e \<noteq> Inject body) es \<Longrightarrow> fault_until t b'"
  by (induction es arbitrary: b) (auto split: option.splits dest: fault_until_perform)

text \<open>
  A fault that is injected alone lasts as long as it was asked to: until its time is over, a
  request that arrives is refused with 503, whatever else happens.
\<close>

theorem single_fault_lasts:
  assumes "faults b = []" and "0 < durationMs"
    and "performs es (snd (ActivateFault (Some durationMs) b)) = Some b'"
    and "list_all (\<lambda>e. \<forall>body. e \<noteq> Inject body) es"
    and "clock b' < clock b + dur_mul durationMs millisecond"
    and "pc r = Arrived"
  shows "Get_step g r b' = Some (r\<lparr>pc := Replied (ErrorText 503 ''Backend temporarily unavailable'')\<rparr>, b')"
proof -
  have "fault_until (clock b + dur_mul durationMs millisecond) (snd (ActivateFault (Some durationMs) b))"
    using assms(1,2) by (simp add: fault_until_def ActivateFault_def)
  from fault_until_performs [OF this assms(3,4)] have "Unavailable b'"
    using assms(5) by (auto simp: fault_until_def)
  then show ?thesis using assms(6) by (simp add: Get_step_def)
qed

section \<open>Two runs to be aware of\<close>

lemmas running = UpdateConfig_def ActivateFault_def fault_ends_def arrive_def Get_at_def Get_step_def add_len_def start_backend_def
  dur_mul_def wrap64_def sub_time_def Let_def numeral_eq_Suc

text \<open>
  Faults that overlap: the timer of a fault of one second, injected half a second before a
  fault of ten seconds, ends both; half a second into the second fault the backend serves again.
\<close>

theorem overlapping_faults_end_early:
  "\<exists>b. performs [Inject (Some 1000), Tick (500 * millisecond), Inject (Some 10000), Tick (500 * millisecond),
       Recover second] (start_backend 0) = Some b \<and> \<not> Unavailable b \<and> clock b = second \<and>
     faults b = [10500 * millisecond]"
  by (simp add: running)

definition one_slot :: BackendConfig where
  "one_slot = \<lparr>semaphoreSize = 1, concurrentDelayMs = 0, baseLatencyMs = 200\<rparr>"

text \<open>
  A configuration change replaces the semaphore while requests hold slots of the old one: with
  a capacity of one before and after, two requests are processed at once, and \<open>/load\<close> reports
  two active requests of at most one.
\<close>

theorem reconfiguration_adds_slots:
  "\<exists>b. performs ([Configure (Some one_slot), Arrive ''a''] @ replicate 5 (Proceed 0) @
       [Configure (Some one_slot), Arrive ''b''] @ replicate 5 (Proceed 1)) (start_backend 0) = Some b \<and>
     count_of (\<lambda>r. slot (pc r) \<noteq> None) (requests b) = 2 \<and>
     GetConfig b = ConfigJSON one_slot \<and>
     ActiveRequests_reported (fst (GetLoadSignals b)) = 2 \<and>
     MaxConcurrentRequests_reported (fst (GetLoadSignals b)) = 1"
  by (simp add: running one_slot_def GetConfig_def GetLoadSignals_def load_signals_def recentRequestDurations_def removeExpiredLatencySamples_def
      sort_search.simps)

section \<open>Concrete runs\<close>


definition one_faulty :: "event list" where
  "one_faulty = [Arrive ''a'', Proceed 0, Proceed 0, Proceed 0, Proceed 0, Proceed 0, Inject (Some 1000)]"

lemma performs_reaches: "performs es (start_backend t) = Some b \<Longrightarrow> reaches backend_start backend_step b"
  by (rule reaches_steps [OF reach_start performs_steps]) (auto simp: backend_start_def)


lemma one_faulty_run: "\<exists>b. performs one_faulty (start_backend 0) = Some b \<and> length (requests b) = 1 \<and>
    slot (pc (requests b ! 0)) = Some 0 \<and> Unavailable b"
  by (simp add: running one_faulty_def)

theorem backend_concurrency_bound_witness:
  "\<exists>b. performs one_faulty (start_backend 0) = Some b \<and> slot (pc (requests b ! 0)) = Some 0 \<and>
     ActiveRequests_reported (fst (GetLoadSignals b)) = int (count_of (\<lambda>r. active (pc r)) (requests b))"
  using one_faulty_run backend_concurrency_bound [OF performs_reaches] by fastforce

theorem backend_drains_witness:
  "\<exists>b. performs one_faulty (start_backend 0) = Some b \<and> slot (pc (requests b ! 0)) = Some 0 \<and>
     (\<exists>es b'. performs es b = Some b' \<and> length (requests b') = length (requests b) \<and> Active b' = 0)"
  using one_faulty_run backend_drains [OF performs_reaches] by metis


theorem backend_recovers_witness:
  "\<exists>b. performs one_faulty (start_backend 0) = Some b \<and> Unavailable b \<and>
     (\<exists>es b'. performs es b = Some b' \<and> \<not> Unavailable b')"
  using one_faulty_run backend_recovers [OF performs_reaches] by metis

theorem single_fault_lasts_witness:
  "\<exists>b'. performs [Tick (500 * millisecond), Arrive ''a''] (snd (ActivateFault (Some 1000) (start_backend 0))) = Some b' \<and>
     (\<exists>r. Get_step False (requests b' ! 0) b' = Some (r, b') \<and>
       pc r = Replied (ErrorText 503 ''Backend temporarily unavailable''))"
proof -
  obtain b' where b': "performs [Tick (500 * millisecond), Arrive ''a''] (snd (ActivateFault (Some 1000) (start_backend 0))) = Some b'"
    "pc (requests b' ! 0) = Arrived" "clock b' = 500 * millisecond"
    by (simp add: running)
  have "faults (start_backend 0) = []" "clock b' < clock (start_backend 0) + dur_mul 1000 millisecond"
    by (simp_all add: b'(3) start_backend_def dur_mul_def wrap64_def)
  from single_fault_lasts [OF this(1) _ b'(1) _ this(2) b'(2)] b'(1) show ?thesis by simp
qed

end
