(* ===== verification/Backend_Latency.thy ===== *)
theory Backend_Latency
  imports Backend_Handler
begin

text \<open>
  The latency the backend simulates, followed through concurrent requests: \<open>Get\<close> of
  \<open>backend/handler/handler.go\<close> and \<open>FindEntity\<close> wait on timers, \<open>load_signals.go\<close> measures how
  long a request took, and the gateway's controller compares the percentile of the measurements
  with its threshold. The theory bounds what every interleaving can measure from below, by the
  least base latency that was configured during the run.
\<close>

section \<open>Runs under a range of latencies\<close>

text \<open>
  A run is paced if every configuration that is sent while it lasts keeps the base latency, in
  milliseconds, between \<open>L\<close> and \<open>U\<close>. It is patient if, moreover, no client gives up and no
  request is for the empty identifier.
\<close>

definition paced :: "int \<Rightarrow> int \<Rightarrow> event \<Rightarrow> bool" where
  "paced L U e \<longleftrightarrow> (case e of Configure (Some config) \<Rightarrow> L \<le> baseLatencyMs config \<and> baseLatencyMs config \<le> U | _ \<Rightarrow> True)"

definition patient :: "event \<Rightarrow> bool" where
  "patient e \<longleftrightarrow> (case e of Cancel _ \<Rightarrow> False | Arrive eid \<Rightarrow> eid \<noteq> '''' | _ \<Rightarrow> True)"

text \<open>The largest base latency whose milliseconds are a duration.\<close>

definition max_latency :: int where
  "max_latency = 9223372036854"

lemma latency_exact: "0 \<le> L \<Longrightarrow> L \<le> l \<Longrightarrow> l \<le> U \<Longrightarrow> U \<le> max_latency \<Longrightarrow> dur_mul l millisecond = l * millisecond"
  by (intro dur_mul_exact) (simp add: in64_def max_latency_def)

section \<open>What a request has waited for\<close>

fun is_entity :: "breply \<Rightarrow> bool" where
  "is_entity (EntityJSON _) = True"
| "is_entity _ = False"

text \<open>
  The state of one request at time \<open>t\<close>: the latency it read is in the range, its second timer
  fires late enough, and an entity is only ever the reply once that timer has fired.
\<close>

definition waited :: "int \<Rightarrow> int \<Rightarrow> time \<Rightarrow> backend_request \<Rightarrow> bool" where
  "waited L U t r \<longleftrightarrow> requestStartedAt r \<le> t \<and> (case pc r of
     Queued s delayMs l \<Rightarrow> L \<le> l \<and> l \<le> U
   | Holding s delayMs l \<Rightarrow> L \<le> l \<and> l \<le> U
   | Delayed s fires l \<Rightarrow> L \<le> l \<and> l \<le> U
   | Fetching s fires \<Rightarrow> requestStartedAt r + L * millisecond \<le> fires
   | Releasing s reply \<Rightarrow> is_entity reply \<longrightarrow> requestStartedAt r + L * millisecond \<le> t
   | Leaving reply \<Rightarrow> is_entity reply \<longrightarrow> requestStartedAt r + L * millisecond \<le> t
   | Uncounted reply \<Rightarrow> is_entity reply \<longrightarrow> requestStartedAt r + L * millisecond \<le> t
   | Recording reply \<Rightarrow> is_entity reply \<longrightarrow> requestStartedAt r + L * millisecond \<le> t
   | Storing instant d reply \<Rightarrow> is_entity reply \<longrightarrow> requestStartedAt r + L * millisecond \<le> t \<and> L * millisecond \<le> d
   | Replied reply \<Rightarrow> is_entity reply \<longrightarrow> requestStartedAt r + L * millisecond \<le> t
   | _ \<Rightarrow> True)"

text \<open>A request of a patient run gets an entity if it gets past the check for a fault.\<close>

definition undisturbed :: "backend_request \<Rightarrow> bool" where
  "undisturbed r \<longleftrightarrow> \<not> cancelled r \<and> ident r \<noteq> '''' \<and> (case pc r of
     Releasing s reply \<Rightarrow> is_entity reply
   | Leaving reply \<Rightarrow> is_entity reply
   | Uncounted reply \<Rightarrow> is_entity reply
   | Recording reply \<Rightarrow> is_entity reply
   | Storing instant d reply \<Rightarrow> is_entity reply
   | _ \<Rightarrow> True)"

definition latency_kept :: "int \<Rightarrow> int \<Rightarrow> backend \<Rightarrow> bool" where
  "latency_kept L U b \<longleftrightarrow> L \<le> BaseLatencyMs b \<and> BaseLatencyMs b \<le> U \<and> (\<forall>r \<in> set (requests b). waited L U (clock b) r)"

definition durations_kept :: "int \<Rightarrow> backend \<Rightarrow> bool" where
  "durations_kept L b \<longleftrightarrow> (\<forall>r \<in> set (requests b). undisturbed r) \<and> (\<forall>x \<in> set (requestDurations b). L * millisecond \<le> Duration x)"

lemma waited_later: "waited L U t r \<Longrightarrow> t \<le> t' \<Longrightarrow> waited L U t' r"
  by (auto simp: waited_def split: pc.splits)

lemma waited_cancel [simp]: "waited L U t (r\<lparr>cancelled := True\<rparr>) = waited L U t r"
  by (cases "pc r") (simp_all add: waited_def)

lemma waited_arrived [simp]: "waited L U t \<lparr>ident = eid, requestStartedAt = t, cancelled = c, pc = Arrived\<rparr>"
  by (simp add: waited_def)

lemma measured_enough: "0 \<le> L \<Longrightarrow> L \<le> max_latency \<Longrightarrow> s + L * millisecond \<le> t \<Longrightarrow> L * millisecond \<le> sub_time t s"
  by (auto simp: sub_time_def max_latency_def)

lemma Get_step_waited:
  assumes "Get_step g r b = Some (r', b')" and "waited L U (clock b) r"
    and "L \<le> BaseLatencyMs b" "BaseLatencyMs b \<le> U" "0 \<le> L" "U \<le> max_latency"
  shows "waited L U (clock b') r'"
proof -
  have "L \<le> max_latency" using assms(3,4,6) by linarith
  note enough = measured_enough [OF assms(5) this] and exact = latency_exact [OF assms(5) _ _ assms(6)]
  show ?thesis
    using assms(1-4)
    by (cases "pc r") (auto simp: Get_step_def waited_def add_len_def Let_def answer_def FindEntity_def exact enough split: if_splits)
qed

lemma Get_step_undisturbed:
  assumes "Get_step g r b = Some (r', b')" and "undisturbed r"
  shows "undisturbed r'"
  using assms by (cases "pc r") (auto simp: Get_step_def undisturbed_def answer_def FindEntity_def Let_def split: if_splits)

lemma removeExpired_subset: "set (removeExpiredLatencySamples t samples) \<subseteq> set samples"
  by (auto simp: removeExpiredLatencySamples_def Let_def dest: in_set_dropD split: if_splits)

lemma record_subset: "set (recordRequestDuration t d samples) \<subseteq> insert \<lparr>RecordedAt = t, Duration = d\<rparr> (set samples)"
  using removeExpired_subset [of t "samples @ [\<lparr>RecordedAt = t, Duration = d\<rparr>]"] by (simp add: recordRequestDuration_def)

lemma Get_step_frame_latency: "Get_step g r b = Some (r', b') \<Longrightarrow> BaseLatencyMs b' = BaseLatencyMs b"
  by (auto simp: Get_step_def add_len_def Let_def split: pc.splits if_splits)

lemma Get_step_samples:
  assumes "Get_step g r b = Some (r', b')" and "undisturbed r" and "waited L U (clock b) r"
    and "x \<in> set (requestDurations b')"
  shows "x \<in> set (requestDurations b) \<or> L * millisecond \<le> Duration x"
  using assms record_subset
  by (cases "pc r") (fastforce simp: Get_step_def undisturbed_def waited_def add_len_def Let_def split: if_splits)+

section \<open>Every event keeps the bounds\<close>

lemma UpdateConfig_frame:
  "requests (snd (UpdateConfig body b)) = requests b" "clock (snd (UpdateConfig body b)) = clock b"
  "requestDurations (snd (UpdateConfig body b)) = requestDurations b"
  "BaseLatencyMs (snd (UpdateConfig body b)) \<in> insert (BaseLatencyMs b) (baseLatencyMs ` set_option body)"
  by (auto simp: UpdateConfig_def split: option.split)

lemma GetLoadSignals_frame:
  "requests (snd (GetLoadSignals b)) = requests b" "clock (snd (GetLoadSignals b)) = clock b"
  "BaseLatencyMs (snd (GetLoadSignals b)) = BaseLatencyMs b"
  "set (requestDurations (snd (GetLoadSignals b))) \<subseteq> set (requestDurations b)"
  using removeExpired_subset [of "clock b" "requestDurations b"]
  by (simp_all add: GetLoadSignals_def load_signals_def recentRequestDurations_def case_prod_beta Let_def)

lemma ActivateFault_frame:
  "requests (snd (ActivateFault body b)) = requests b" "clock (snd (ActivateFault body b)) = clock b"
  "BaseLatencyMs (snd (ActivateFault body b)) = BaseLatencyMs b"
  "requestDurations (snd (ActivateFault body b)) = requestDurations b"
  by (simp_all add: ActivateFault_def split: option.split)

lemmas event_frames = UpdateConfig_frame(1-3) GetLoadSignals_frame ActivateFault_frame

lemma Get_at_latency:
  assumes kept: "latency_kept L U b" and step: "Get_at g i b = Some b'" and range: "0 \<le> L" "U \<le> max_latency"
  shows "latency_kept L U b'"
proof -
  from step obtain r b1 where i: "i < length (requests b)" and s: "Get_step g (requests b ! i) b = Some (r, b1)"
    and b': "b' = b1\<lparr>requests := (requests b1)[i := r]\<rparr>"
    by (rule Get_atE)
  have "waited L U (clock b1) r"
    by (rule Get_step_waited [OF s]) (use kept nth_mem [OF i] range in \<open>simp_all add: latency_kept_def\<close>)
  then show ?thesis
    using kept Get_step_frame(1,9) [OF s] Get_step_frame_latency [OF s] b'
    by (auto simp: latency_kept_def dest!: subsetD [OF set_update_subset_insert])
qed

lemma latency_kept_same:
  "latency_kept L U b \<Longrightarrow> requests b' = requests b \<Longrightarrow> BaseLatencyMs b' = BaseLatencyMs b \<Longrightarrow> clock b \<le> clock b' \<Longrightarrow>
   latency_kept L U b'"
  by (auto simp: latency_kept_def intro: waited_later)

lemma perform_latency:
  assumes kept: "latency_kept L U b" and e: "perform e b = Some b'" and pace: "paced L U e"
    and range: "0 \<le> L" "U \<le> max_latency"
  shows "latency_kept L U b'"
proof (cases e)
  case (Arrive eid)
  then show ?thesis using e kept by (auto simp: arrive_def latency_kept_def)
next
  case (Cancel i)
  then show ?thesis
    using e kept nth_mem [of i "requests b"]
    by (auto simp: latency_kept_def split: if_splits dest!: subsetD [OF set_update_subset_insert])
next
  case (Configure body)
  then have "L \<le> BaseLatencyMs b' \<and> BaseLatencyMs b' \<le> U"
    using e kept pace UpdateConfig_frame(4) [of body b] by (auto simp: latency_kept_def paced_def)
  then show ?thesis using e kept Configure by (auto simp: latency_kept_def UpdateConfig_frame)
qed (use e kept range in \<open>auto simp: fault_ends_def event_frames split: if_splits
    intro: latency_kept_same [OF kept] Get_at_latency [OF kept _ range]\<close>)

lemma performs_latency:
  "latency_kept L U b \<Longrightarrow> performs es b = Some b' \<Longrightarrow> list_all (paced L U) es \<Longrightarrow> 0 \<le> L \<Longrightarrow> U \<le> max_latency \<Longrightarrow>
   latency_kept L U b'"
  by (induction es arbitrary: b) (auto split: option.splits dest: perform_latency)

lemma Get_at_durations:
  assumes kept: "latency_kept L U b" "durations_kept L b" and step: "Get_at g i b = Some b'"
  shows "durations_kept L b'"
proof -
  from step obtain r b1 where i: "i < length (requests b)" and s: "Get_step g (requests b ! i) b = Some (r, b1)"
    and b': "b' = b1\<lparr>requests := (requests b1)[i := r]\<rparr>"
    by (rule Get_atE)
  have now: "undisturbed (requests b ! i)" "waited L U (clock b) (requests b ! i)"
    using kept nth_mem [OF i] by (simp_all add: durations_kept_def latency_kept_def)
  from Get_step_samples [OF s now] Get_step_undisturbed [OF s now(1)] show ?thesis
    using kept(2) Get_step_frame(1) [OF s] b'
    by (auto simp: durations_kept_def dest!: subsetD [OF set_update_subset_insert])
qed

lemma durations_kept_same:
  "durations_kept L b \<Longrightarrow> requests b' = requests b \<Longrightarrow> set (requestDurations b') \<subseteq> set (requestDurations b) \<Longrightarrow> durations_kept L b'"
  by (auto simp: durations_kept_def)

lemma perform_durations:
  assumes kept: "latency_kept L U b" "durations_kept L b" and e: "perform e b = Some b'" and pat: "patient e"
  shows "durations_kept L b'"
proof (cases e)
  case (Arrive eid)
  then show ?thesis using e kept pat by (auto simp: arrive_def durations_kept_def undisturbed_def patient_def)
qed (use e pat GetLoadSignals_frame(4) [of b] in \<open>auto simp: fault_ends_def patient_def event_frames split: if_splits
    intro: durations_kept_same [OF kept(2)] Get_at_durations [OF kept]\<close>)

lemma performs_durations:
  "latency_kept L U b \<Longrightarrow> durations_kept L b \<Longrightarrow> performs es b = Some b' \<Longrightarrow> list_all (\<lambda>e. paced L U e \<and> patient e) es \<Longrightarrow>
   0 \<le> L \<Longrightarrow> U \<le> max_latency \<Longrightarrow> durations_kept L b'"
  by (induction es arbitrary: b) (auto split: option.splits dest: perform_latency perform_durations)

section \<open>The bounds\<close>

text \<open>
  No interleaving answers an entity early: however requests, cancellations, faults and
  configuration changes overlap, an entity is sent at the earliest \<open>L\<close> milliseconds after its
  request came in, if every base latency during the run was at least \<open>L\<close>.
\<close>

theorem entity_takes_latency:
  assumes "requests b = []" and "L \<le> BaseLatencyMs b" "BaseLatencyMs b \<le> U" and "0 \<le> L" "U \<le> max_latency"
    and "performs es b = Some b'" and "list_all (paced L U) es"
    and "r \<in> set (requests b')" and "pc r = Replied (EntityJSON entity)"
  shows "requestStartedAt r + L * millisecond \<le> clock b'"
proof -
  have "latency_kept L U b" using assms(1-3) by (simp add: latency_kept_def)
  then have "latency_kept L U b'" by (rule performs_latency [OF _ assms(6,7,4,5)])
  then show ?thesis using assms(8,9) by (auto simp: latency_kept_def waited_def)
qed

text \<open>
  C13. A base latency that reaches the threshold of the gateways shows in every reading: after any
  run in which no client gave up, a window of twenty requests is found congested, whatever the
  number of clients.
\<close>

theorem slow_latency_congests:
  assumes idle: "requests b = []" "requestDurations b = []"
    and base: "L \<le> BaseLatencyMs b" "BaseLatencyMs b \<le> U" "0 \<le> L" "U \<le> max_latency"
    and run: "performs es b = Some b'" "list_all (\<lambda>e. paced L U e \<and> patient e) es"
    and window: "window = fst (recentRequestDurations (clock b') (requestDurations b'))"
    and size: "20 \<le> length window" "length window \<le> 2 ^ 40" and small: "list_all (\<lambda>d. d \<le> 2 ^ 53) window"
    and T: "0 \<le> AdaptiveTTLLatencyThresholdMs config" "AdaptiveTTLLatencyThresholdMs config \<le> 2 ^ 31"
      "AdaptiveTTLLatencyThresholdMs config \<le> L"
  shows "fst (snd (classifyBackendLoad config (as_decoded (fst (GetLoadSignals b')))))"
proof -
  have "latency_kept L U b" "durations_kept L b" using idle base by (simp_all add: latency_kept_def durations_kept_def)
  then have "durations_kept L b'" by (rule performs_durations [OF _ _ run base(3,4)])
  then have "\<forall>x \<in> set (removeExpiredLatencySamples (clock b') (requestDurations b')). L * millisecond \<le> Duration x"
    using removeExpired_subset [of "clock b'" "requestDurations b'"] by (auto simp: durations_kept_def)
  then have ge: "L * millisecond \<le> d" if "d \<in> set window" for d
    using that by (auto simp: window recentRequestDurations_def Let_def)
  have ne: "window \<noteq> []" using size(1) by auto
  have p: "p99_duration window \<in> set window" by (rule p99_duration_in [OF ne size(2)])
  have low: "L * millisecond \<le> p99_duration window" and up: "p99_duration window \<le> 2 ^ 53"
    using ge [OF p] small p by (auto simp: list_all_iff)
  have "AdaptiveTTLLatencyThresholdMs config * millisecond \<le> p99_duration window" using low T(3) by simp
  then have "f64_of_int (AdaptiveTTLLatencyThresholdMs config) \<le> calculateP99LatencyMs window"
    using ms_reaches [OF T(1,2), of "p99_duration window"] up low base(3) by (simp add: p99_reported [OF ne])
  moreover have "fst (GetLoadSignals b') = fst (load_signals (clock b') (chan_cap (semaphores b' ! Semaphore b')) (sint (Active b')) (requestDurations b'))"
    by (simp add: GetLoadSignals_def case_prod_beta Let_def)
  ultimately show ?thesis
    using size(1) by (simp add: classifyBackendLoad_def load_signals_def as_decoded_def case_prod_beta
        adaptiveTTLMinimumSampleCount_def window Let_def)
qed

section \<open>A concrete run\<close>

text \<open>Twenty requests at once, on a backend that takes half a second for each of them.\<close>

definition half_second_backend :: BackendConfig where
  "half_second_backend = \<lparr>semaphoreSize = 20, concurrentDelayMs = 0, baseLatencyMs = 500\<rparr>"

definition slow_start :: backend where
  "slow_start = snd (UpdateConfig (Some half_second_backend) (start_backend 0))"

definition burst :: "event list" where
  "burst = replicate 20 (Arrive ''a'') @ concat (map (\<lambda>i. replicate 7 (Proceed i)) [0..<20]) @
     Tick (500 * millisecond) # concat (map (\<lambda>i. replicate 6 (Proceed i)) [0..<20])"

lemma burst_run: "map_option (\<lambda>b. (clock b, requestDurations b, pc (requests b ! 0), requests b ! 0 \<in> set (requests b), requestStartedAt (requests b ! 0)))
    (performs burst slow_start) =
  Some (500 * millisecond, replicate 20 \<lparr>RecordedAt = 500 * millisecond, Duration = 500 * millisecond\<rparr>,
    Replied (EntityJSON \<lparr>ID = ''a'', Name = ''Test Entity''\<rparr>), True, 0)"
  by code_simp

lemma burst_paced: "list_all (\<lambda>e. paced 500 500 e \<and> patient e) burst"
  by code_simp

lemma slow_start_at: "requests slow_start = []" "requestDurations slow_start = []" "BaseLatencyMs slow_start = 500"
  by (simp_all add: slow_start_def UpdateConfig_def half_second_backend_def start_backend_def)

theorem entity_takes_latency_witness:
  "\<exists>b. performs burst slow_start = Some b \<and> pc (requests b ! 0) = Replied (EntityJSON \<lparr>ID = ''a'', Name = ''Test Entity''\<rparr>) \<and>
     requestStartedAt (requests b ! 0) + 500 * millisecond \<le> clock b"
proof -
  obtain b where b: "performs burst slow_start = Some b" "requests b ! 0 \<in> set (requests b)"
    "pc (requests b ! 0) = Replied (EntityJSON \<lparr>ID = ''a'', Name = ''Test Entity''\<rparr>)"
    using burst_run by auto
  have "list_all (paced 500 500) burst" using burst_paced by (simp add: list_all_iff)
  from entity_takes_latency [OF slow_start_at(1) _ _ _ _ b(1) this b(2,3)] b(1,3) slow_start_at(3) show ?thesis
    by (simp add: max_latency_def)
qed

theorem slow_latency_congests_witness:
  "\<exists>b. performs burst slow_start = Some b \<and>
     fst (snd (classifyBackendLoad sample_config (as_decoded (fst (GetLoadSignals b)))))"
proof -
  obtain b where b: "performs burst slow_start = Some b" "clock b = 500 * millisecond"
    "requestDurations b = replicate 20 \<lparr>RecordedAt = 500 * millisecond, Duration = 500 * millisecond\<rparr>"
    using burst_run by auto
  have "in_order (requestDurations b)" by (simp add: b(3) in_order_def)
  then have w: "fst (recentRequestDurations (clock b) (requestDurations b)) = replicate 20 (500 * millisecond)"
    by (simp add: recentRequestDurations_def removeExpired_filter b(2,3) recent_def loadSignalWindowDuration_def filter_replicate Let_def)
  show ?thesis
    using slow_latency_congests [OF slow_start_at(1,2) _ _ _ _ b(1) burst_paced refl, of sample_config] b(1) slow_start_at(3)
    by (simp add: w max_latency_def sample_config_def list_all_iff)
qed

end
