(* ===== verification/Routing.thy ===== *)
theory Routing
  imports Config_Handler Middleware Metrics Backend_Handler
begin

text \<open>
  How the two programs are put together: \<open>gateway/main.go\<close> and \<open>backend/main.go\<close>. The router
  (\<open>gorilla/mux\<close>), the page of the metrics library and the CORS library are parameters; the route
  tables, the middlewares around them and the start are the code's. What the router documents is
  the locale \<open>mux\<close>: the routes are tried in the order in which they were added.
\<close>

section \<open>Routes\<close>

datatype route_path = Exactly string | Below string | OneSegment

fun path_fits :: "route_path \<Rightarrow> string \<Rightarrow> bool" where
  "path_fits (Exactly p) path = (path = p)"
| "path_fits (Below p) path = HasPrefix path p"
| "path_fits OneSegment path = (take 1 path = ''/'' \<and> drop 1 path \<noteq> [] \<and> CHR ''/'' \<notin> set (drop 1 path))"

text \<open>A route without methods takes all of them.\<close>

record 'h route =
  route_path :: route_path
  route_methods :: "string list"
  route_handler :: 'h

definition fits :: "'h route \<Rightarrow> string \<Rightarrow> string \<Rightarrow> bool" where
  "fits r method_name path \<longleftrightarrow> path_fits (route_path r) path \<and> (route_methods r = [] \<or> method_name \<in> set (route_methods r))"

datatype 'h routed = Handled 'h | Unrouted

text \<open>
  The router gives a path that is in canonical form to the first route that fits; other
  paths it may redirect.
\<close>

locale mux =
  fixes find_route :: "'h route list \<Rightarrow> string \<Rightarrow> string \<Rightarrow> 'h routed"
    and canonical :: "string \<Rightarrow> bool"
  assumes first_fits: "canonical path \<Longrightarrow> \<forall>q \<in> set before. \<not> fits q method_name path \<Longrightarrow> fits r method_name path \<Longrightarrow>
      find_route (before @ r # after) method_name path = Handled (route_handler r)"
    and none_fits: "canonical path \<Longrightarrow> \<forall>q \<in> set rs. \<not> fits q method_name path \<Longrightarrow> find_route rs method_name path = Unrouted"
begin

lemma skip_route: "canonical path \<Longrightarrow> \<not> fits q method_name path \<Longrightarrow> find_route (q # rs) method_name path = find_route rs method_name path"
proof (cases "\<exists>r \<in> set rs. fits r method_name path")
  case True
  assume c: "canonical path" "\<not> fits q method_name path"
  obtain before r after where s: "rs = before @ r # after" "fits r method_name path" "\<forall>x \<in> set before. \<not> fits x method_name path"
    using split_list_first_prop [OF True] by blast
  then show ?thesis using first_fits [OF c(1) s(3,2)] first_fits [of path "q # before" method_name r] c by simp
next
  case False
  assume c: "canonical path" "\<not> fits q method_name path"
  then show ?thesis using none_fits [OF c(1), of rs] none_fits [OF c(1), of "q # rs"] False by simp
qed

lemma take_route: "canonical path \<Longrightarrow> fits r method_name path \<Longrightarrow> find_route (r # rs) method_name path = Handled (route_handler r)"
  using first_fits [of path "[]" method_name r] by simp

lemma route_Cons: "canonical path \<Longrightarrow> find_route (r # rs) method_name path =
    (if fits r method_name path then Handled (route_handler r) else find_route rs method_name path)"
  by (simp add: take_route skip_route)

lemma route_Nil: "canonical path \<Longrightarrow> find_route [] method_name path = Unrouted"
  by (rule none_fits) simp_all

end

text \<open>A router that does just this, for every path.\<close>

definition first_route :: "'h route list \<Rightarrow> string \<Rightarrow> string \<Rightarrow> 'h routed" where
  "first_route rs method_name path =
     (case find (\<lambda>r. fits r method_name path) rs of Some r \<Rightarrow> Handled (route_handler r) | None \<Rightarrow> Unrouted)"

interpretation first: mux first_route "\<lambda>_. True"
proof
  fix path method_name :: string and before after :: "'h route list" and r :: "'h route"
  assume "\<forall>q \<in> set before. \<not> fits q method_name path" and "fits r method_name path"
  then show "first_route (before @ r # after) method_name path = Handled (route_handler r)"
    by (induction before) (simp_all add: first_route_def)
next
  fix path method_name :: string and rs :: "'h route list"
  assume "\<forall>q \<in> set rs. \<not> fits q method_name path"
  then show "first_route rs method_name path = Unrouted"
    by (induction rs) (simp_all add: first_route_def)
qed

section \<open>The gateway\<close>

datatype gateway_endpoint = MetricsPage | UserRequest | ReadConfig | ChangeConfig

text \<open>The two halves of a path below the subrouter are given as one.\<close>

definition gateway_routes :: "gateway_endpoint route list" where
  "gateway_routes =
     [\<lparr>route_path = Exactly ''/metrics'', route_methods = [], route_handler = MetricsPage\<rparr>,
      \<lparr>route_path = Below (''/api'' @ ''/backend''), route_methods = [], route_handler = UserRequest\<rparr>,
      \<lparr>route_path = Exactly (''/api'' @ ''/cache-config''), route_methods = [''GET''], route_handler = ReadConfig\<rparr>,
      \<lparr>route_path = Exactly (''/api'' @ ''/cache-config''), route_methods = [''PUT''], route_handler = ChangeConfig\<rparr>]"

text \<open>What is third-party: the router, the metrics page, the answer to what has no route, CORS, and JSON.\<close>

type_synonym ('w, 'x) http_handler = "request \<Rightarrow> (('w, 'x) hsys_scheme, unit go option) state"

record cors_options =
  AllowedOrigins :: "string list"
  AllowedMethods :: "string list"
  AllowedHeaders :: "string list"
  ExposedHeaders :: "string list"

record ('w, 'x) web =
  route_of :: "gateway_endpoint route list \<Rightarrow> string \<Rightarrow> string \<Rightarrow> gateway_endpoint routed"
  metrics_page :: "('w, 'x) http_handler"
  unrouted :: "('w, 'x) http_handler"
  cors :: "cors_options \<Rightarrow> ('w, 'x) http_handler \<Rightarrow> ('w, 'x) http_handler"
  encode_config :: "GatewayConfig \<Rightarrow> string"
  decode_config :: "request \<Rightarrow> GatewayConfig option"

definition endpoint :: "nat \<Rightarrow> ('w, 'v) env \<Rightarrow> ('w, 'x) web \<Rightarrow> gateway_endpoint \<Rightarrow> ('w, 'x) http_handler" where
  "endpoint n E L e req = (case e of
       MetricsPage \<Rightarrow> metrics_page L req
     | UserRequest \<Rightarrow> ServeHTTP n E req
     | ReadConfig \<Rightarrow> do { x \<leftarrow> getCacheConfig E (encode_config L); ret (Some x) }
     | ChangeConfig \<Rightarrow> updateCacheConfig n E (encode_config L) (decode_config L req))"

text \<open>The middlewares run only around a route that was found.\<close>

definition gateway_router :: "nat \<Rightarrow> ('w, 'v) env \<Rightarrow> ('w, 'x) web \<Rightarrow> string \<Rightarrow> ('w, 'x) http_handler" where
  "gateway_router n E L instanceName req =
     (case route_of L gateway_routes (Method req) (Path req) of
        Handled e \<Rightarrow> metricsMiddleware (gatewayInstanceMiddleware instanceName (endpoint n E L e)) req
      | Unrouted \<Rightarrow> unrouted L req)"

definition gateway_cors :: cors_options where
  "gateway_cors = \<lparr>AllowedOrigins = [''http://localhost:4200''], AllowedMethods = [''GET'', ''POST'', ''PUT'', ''DELETE'', ''OPTIONS''],
     AllowedHeaders = [''*''], ExposedHeaders = [''X-Gateway-Instance'']\<rparr>"

definition gateway_server :: "nat \<Rightarrow> ('w, 'v) env \<Rightarrow> ('w, 'x) web \<Rightarrow> string \<Rightarrow> ('w, 'x) http_handler" where
  "gateway_server n E L instanceName = cors L gateway_cors (gateway_router n E L instanceName)"

text \<open>The start: it panics or exits, or leaves a name, a process and the loop of its controller.\<close>

definition instance_name :: "string \<Rightarrow> string" where
  "instance_name INSTANCE_NAME = (if INSTANCE_NAME = [] then ''gateway'' else INSTANCE_NAME)"

definition gateway_main :: "(collector \<Rightarrow> 'r \<Rightarrow> 'r go) \<Rightarrow> 'r \<Rightarrow> ('w, 'v) env \<Rightarrow> string \<Rightarrow> 'w sys \<Rightarrow>
    (goerr + string \<times> 'w hsys \<times> (nat \<Rightarrow> ('w hsys, bool) state)) go" where
  "gateway_main mustRegister r E INSTANCE_NAME s =
     (case registerMetrics mustRegister r of
        Panic \<Rightarrow> Panic
      | Ret _ \<Rightarrow> Ret (case NewHandler E s of
            Inl err \<Rightarrow> Inl err
          | Inr h \<Rightarrow> Inr (instance_name INSTANCE_NAME, h, \<lambda>n. Run n E Background (currentGatewayConfig E))))"

section \<open>The backend\<close>

datatype backend_endpoint = LoadPage | BackendMetrics | ReadBackendConfig | ChangeBackendConfig | FaultPage | EntityPage

definition backend_routes :: "backend_endpoint route list" where
  "backend_routes =
     [\<lparr>route_path = Exactly ''/load'', route_methods = [''GET''], route_handler = LoadPage\<rparr>,
      \<lparr>route_path = Exactly ''/metrics'', route_methods = [], route_handler = BackendMetrics\<rparr>,
      \<lparr>route_path = Exactly ''/config'', route_methods = [''GET''], route_handler = ReadBackendConfig\<rparr>,
      \<lparr>route_path = Exactly ''/config'', route_methods = [''PUT''], route_handler = ChangeBackendConfig\<rparr>,
      \<lparr>route_path = Exactly ''/fault'', route_methods = [''POST''], route_handler = FaultPage\<rparr>,
      \<lparr>route_path = OneSegment, route_methods = [''GET''], route_handler = EntityPage\<rparr>]"

text \<open>
  What a request does to the backend, as an event of its step relation; \<open>conf\<close> and \<open>dur\<close> are what
  the decoder makes of its body. A preflight request stops at the CORS middleware.
\<close>

definition backend_event :: "(backend_endpoint route list \<Rightarrow> string \<Rightarrow> string \<Rightarrow> backend_endpoint routed) \<Rightarrow>
    BackendConfig option \<Rightarrow> int option \<Rightarrow> request \<Rightarrow> event option" where
  "backend_event find_route conf dur req =
     (if Method req = ''OPTIONS'' then None
      else case find_route backend_routes (Method req) (Path req) of
        Handled LoadPage \<Rightarrow> Some ReadLoad
      | Handled ChangeBackendConfig \<Rightarrow> Some (Configure conf)
      | Handled FaultPage \<Rightarrow> Some (Inject dur)
      | Handled EntityPage \<Rightarrow> Some (Arrive (drop 1 (Path req)))
      | _ \<Rightarrow> None)"

section \<open>Where requests go\<close>

text \<open>CORS adds headers to a request that is no preflight, and passes it on.\<close>

definition set_headers :: "(string \<times> string) list \<Rightarrow> (('w, 'x) hsys_scheme, unit) state" where
  "set_headers hs = on_writer (\<lambda>rw. ((), rw\<lparr>sent := sent rw @ map (\<lambda>(k, v). SetHeader k v) hs\<rparr>))"

definition cors_passes :: "('w, 'x) web \<Rightarrow> bool" where
  "cors_passes L \<longleftrightarrow> (\<forall>next_handler req. Method req \<noteq> ''OPTIONS'' \<longrightarrow>
     (\<exists>hs. cors L gateway_cors next_handler req = do { _ \<leftarrow> set_headers hs; next_handler req }))"

lemma path_facts [simp]:
  "HasPrefix ''/metrics'' ''/api/backend'' = False" "HasPrefix ''/api/cache-config'' ''/api/backend'' = False"
  by (simp_all add: HasPrefix_def)

lemma user_below: "isUserRequest r \<Longrightarrow> HasPrefix (Path r) ''/api/backend''"
  unfolding isUserRequest_def HasPrefix_def by (drule arg_cong [where f = "take 12"]) simp

lemma below_excludes: "HasPrefix path ''/api/backend'' \<Longrightarrow> path \<noteq> ''/metrics'' \<and> path \<noteq> ''/api/cache-config''"
  by auto

lemma gateway_route:
  assumes "mux find_route canonical" and "canonical path"
  shows "find_route gateway_routes method_name path =
    (if HasPrefix path ''/api/backend'' then Handled UserRequest
     else if path = ''/metrics'' then Handled MetricsPage
     else if path = ''/api/cache-config'' \<and> method_name = ''GET'' then Handled ReadConfig
     else if path = ''/api/cache-config'' \<and> method_name = ''PUT'' then Handled ChangeConfig else Unrouted)"
proof -
  have "find_route gateway_routes method_name path =
    (if path = ''/metrics'' then Handled MetricsPage
     else if HasPrefix path ''/api/backend'' then Handled UserRequest
     else if path = ''/api/cache-config'' \<and> method_name = ''GET'' then Handled ReadConfig
     else if path = ''/api/cache-config'' \<and> method_name = ''PUT'' then Handled ChangeConfig else Unrouted)"
    by (simp only: gateway_routes_def mux.route_Cons [OF assms] mux.route_Nil [OF assms] fits_def path_fits.simps
        route.select_convs) simp
  then show ?thesis using below_excludes [of path] by simp
qed

lemma backend_route:
  assumes "mux find_route canonical" and "canonical path"
  shows "find_route backend_routes method_name path =
    (if path = ''/load'' \<and> method_name = ''GET'' then Handled LoadPage
     else if path = ''/metrics'' then Handled BackendMetrics
     else if path = ''/config'' \<and> method_name = ''GET'' then Handled ReadBackendConfig
     else if path = ''/config'' \<and> method_name = ''PUT'' then Handled ChangeBackendConfig
     else if path = ''/fault'' \<and> method_name = ''POST'' then Handled FaultPage
     else if path_fits OneSegment path \<and> method_name = ''GET'' then Handled EntityPage else Unrouted)"
  by (simp only: backend_routes_def mux.route_Cons [OF assms] mux.route_Nil [OF assms] fits_def path_fits.simps(1)
      route.select_convs) simp

lemma user_routed:
  assumes "mux (route_of L) canonical" and "canonical (Path r)" and "HasPrefix (Path r) ''/api/backend''"
  shows "gateway_router n E L name r = user_request n E name r"
proof -
  have "endpoint n E L UserRequest = ServeHTTP n E" by (simp add: endpoint_def fun_eq_iff)
  then show ?thesis by (simp add: gateway_router_def gateway_route [OF assms(1,2)] assms(3) user_request_def)
qed

text \<open>
  The gateway sends every request to the one endpoint its path and method stand for, behind
  both middlewares; what lies below \<open>/api/backend\<close> is served as a user request whatever its method,
  and the configuration endpoint knows GET and PUT alone.
\<close>

theorem gateway_dispatch:
  assumes "mux (route_of L) canonical" and "canonical (Path r)"
  shows "gateway_router n E L name r =
    (let behind = (\<lambda>h. metricsMiddleware (gatewayInstanceMiddleware name h) r) in
     if HasPrefix (Path r) ''/api/backend'' then user_request n E name r
     else if Path r = ''/metrics'' then behind (metrics_page L)
     else if Path r = ''/api/cache-config'' \<and> Method r = ''GET''
       then behind (\<lambda>_. do { x \<leftarrow> getCacheConfig E (encode_config L); ret (Some x) })
     else if Path r = ''/api/cache-config'' \<and> Method r = ''PUT''
       then behind (\<lambda>r. updateCacheConfig n E (encode_config L) (decode_config L r))
     else unrouted L r)"
proof -
  have e: "endpoint n E L UserRequest = ServeHTTP n E" "endpoint n E L MetricsPage = metrics_page L"
    "endpoint n E L ReadConfig = (\<lambda>_. do { x \<leftarrow> getCacheConfig E (encode_config L); ret (Some x) })"
    "endpoint n E L ChangeConfig = (\<lambda>r. updateCacheConfig n E (encode_config L) (decode_config L r))"
    by (simp_all add: endpoint_def fun_eq_iff)
  show ?thesis by (simp add: gateway_router_def gateway_route [OF assms] e user_request_def Let_def)
qed

lemma server_user_request:
  assumes "mux (route_of L) canonical" and "canonical (Path r)" and "cors_passes L" and "Method r \<noteq> ''OPTIONS''"
    and "isUserRequest r"
  shows "\<exists>hs. gateway_server n E L name r = do { _ \<leftarrow> set_headers hs; user_request n E name r }"
proof -
  have "gateway_router n E L name r = user_request n E name r"
    by (rule user_routed [OF assms(1,2) user_below [OF assms(5)]])
  then show ?thesis using assms(3,4) unfolding gateway_server_def cors_passes_def by metis
qed

text \<open>
  A user request that reaches the backend does there what the rest of its path and its
  method say: the entity of that name is asked for, except for the paths that are endpoints of their own.
\<close>

theorem gateway_to_backend:
  assumes "mux find_route canonical" and "canonical (''/'' @ x)" and "Path r = ''/api/backend/'' @ x"
    and "x \<noteq> []" and "CHR ''/'' \<notin> set x"
  shows "backend_event find_route conf dur (director r) =
    (if Method r = ''GET'' then
       if x = ''load'' then Some ReadLoad else if x = ''metrics'' \<or> x = ''config'' then None else Some (Arrive x)
     else if Method r = ''PUT'' \<and> x = ''config'' then Some (Configure conf)
     else if Method r = ''POST'' \<and> x = ''fault'' then Some (Inject dur) else None)"
proof -
  have d: "Path (director r) = ''/'' @ x" "Method (director r) = Method r"
    using assms(3) by (simp_all add: director_def TrimPrefix_def Let_def)
  have "path_fits OneSegment (''/'' @ x)" using assms(4,5) by simp
  then show ?thesis unfolding backend_event_def d backend_route [OF assms(1,2)] by auto
qed

text \<open>
  C19. The key of the caches is the URI alone, whatever the method. So a PUT of the backend's
  configuration, which at the backend would install it, is answered from the first-level cache when an earlier
  request for the URI was cached: the client sees success, and the backend is not called.
\<close>

theorem cached_write_is_lost:
  assumes "mux (route_of L) canonical" and "mux find_route canonical" and "canonical ''/api/backend/config''" and "canonical ''/config''"
    and "Path r = ''/api/backend/config''" and "Method r = ''PUT''"
    and "result (currentGatewayConfig E RequestCtx) (entered name s) = Inr config"
  defines "s1 \<equiv> exec (time_now E) (exec (currentGatewayConfig E RequestCtx) (entered name s))"
  assumes "fst (getL1 (RequestURI E r) (result (time_now E) s1) (l1_cache s1)) = Some v"
  shows "backend_event find_route conf dur (director r) = Some (Configure conf) \<and>
    result (gateway_router n E L name r) s = Some (Ret ()) \<and>
    writer (exec (gateway_router n E L name r) s) = rwWrite (Value v) (writer s1) \<and>
    world (exec (gateway_router n E L name r) s) = exec (now E) (exec (now E) (world s1))"
proof -
  have u: "isUserRequest r" by (simp add: isUserRequest_def HasPrefix_def assms(5))
  have "gateway_router n E L name r = user_request n E name r"
    using user_routed [OF assms(1) _ user_below [OF u]] assms(3,5) by simp
  moreover note l1_hit_is_local [OF assms(7), folded s1_def, OF assms(9), of n]
  moreover have "backend_event find_route conf dur (director r) = Some (Configure conf)"
    using backend_route [OF assms(2,4), of "''PUT''"] assms(5,6)
    by (simp add: backend_event_def director_def TrimPrefix_def Let_def)
  ultimately show ?thesis by (simp add: user_request_run [OF u] Let_def)
qed

text \<open>
  The router takes the prefix \<open>/api/backend\<close> without a slash, the counters of the middleware
  do not: such a request is served and cached like any other, and counted by neither.
\<close>

theorem prefix_without_slash:
  assumes "mux (route_of L) canonical" and "canonical (Path r)" and "HasPrefix (Path r) ''/api/backend''"
    and "\<not> isUserRequest r"
  shows "\<exists>tr. metrics (exec (gateway_router n E L name r) s) = metrics s @ tr \<and> user_counts tr = 0 \<and>
    result (gateway_router n E L name r) s = result (ServeHTTP n E r) (entered name s)"
proof -
  have "gateway_router n E L name r = user_request n E name r"
    by (rule user_routed [OF assms(1-3)])
  moreover have "exec (user_request n E name r) s = exec (ServeHTTP n E r) (entered name s)"
    "result (user_request n E name r) s = result (ServeHTTP n E r) (entered name s)"
    using assms(3,4) by (auto simp: user_request_def metricsMiddleware_def gatewayInstanceMiddleware_def run entered_def)
  moreover have "metrics (entered name s) = metrics s" by (simp add: entered_def)
  ultimately show ?thesis using logsD [OF logs_user_free, of n E r "entered name s"] by auto
qed

text \<open>
  C24. A gateway starts on any registry that knows none of its metrics and any store that is empty
  or configured: it takes the name it is given or its default, and comes up under the configuration
  of the others, or as the first under the default one as version 1, with nothing cached.
\<close>

theorem gateway_starts:
  fixes E :: "('w, 'v) env" and s :: "'w sys" and mustRegister :: "collector \<Rightarrow> 'r \<Rightarrow> 'r go"
  assumes "registry mustRegister registered" and "fqName ` set collectors \<inter> registered r = {}"
    and "redis_config E vw" and "reliable E"
    and "keys (vw (world s)) gatewayConfigKey = None \<or> holds_config E (vw (world s)) g0 n"
  shows "\<exists>h loop. gateway_main mustRegister r E given s = Ret (Inr (if given = [] then ''gateway'' else given, h, loop)) \<and>
    (\<forall>k t. fst (getL1 k t (l1_cache h)) = None) \<and> inFlight (call_map h) = Map.empty \<and>
    (if keys (vw (world s)) gatewayConfigKey = None
     then gatewayConfig h = defaultConfig \<and> configVersion h = 1
     else gatewayConfig h = applyAdaptiveTTLDefaults g0 \<and> configVersion h = n)"
proof -
  obtain r' where r': "registerMetrics mustRegister r = Ret r'"
    using metrics_typed [OF assms(1,2)] by blast
  obtain h where h: "NewHandler E s = Inr h" "if keys (vw (world s)) gatewayConfigKey = None
     then gatewayConfig h = defaultConfig \<and> configVersion h = 1
     else gatewayConfig h = applyAdaptiveTTLDefaults g0 \<and> configVersion h = n"
    using new_handler_joins [OF assms(3-5)] by blast
  have "l1_cache h = empty_l1" "call_map h = no_flights"
    using h(1) by (auto simp: NewHandler_def new_process_def Let_def split: option.splits sum.splits prod.splits)
  then show ?thesis using h r'
    by (simp add: gateway_main_def instance_name_def getL1_def empty_l1_def no_flights_def)
qed

section \<open>Witnesses\<close>

definition plain_web :: "(mini, unit) web" where
  "plain_web = \<lparr>route_of = first_route, metrics_page = (\<lambda>_. ret (Some (Ret ()))), unrouted = (\<lambda>_. ret (Some (Ret ()))),
     cors = (\<lambda>_ h. h), encode_config = (\<lambda>_. []), decode_config = (\<lambda>_. None)\<rparr>"

lemma plain_mux: "mux (route_of plain_web) (\<lambda>_. True)"
  by (simp add: plain_web_def first.mux_axioms)

theorem gateway_dispatch_witness:
  "gateway_router 0 mini_env plain_web ''g1'' sample_request = user_request 0 mini_env ''g1'' sample_request"
  using gateway_dispatch [OF plain_mux, where r = sample_request and n = 0 and E = mini_env and name = "''g1''"] user_below [OF sample_user] by simp

theorem gateway_to_backend_witness:
  "backend_event first_route None None (director sample_request) = Some (Arrive ''7'')"
  using gateway_to_backend [OF first.mux_axioms, where x = "''7''" and r = sample_request] by (simp add: sample_request_def)

theorem gateway_starts_witness:
  "\<exists>h loop. gateway_main list_register [] mini_env [] (mini_sys empty_mini) = Ret (Inr (''gateway'', h, loop)) \<and>
     configVersion h = 1 \<and> gatewayConfig h = defaultConfig"
proof -
  have k: "keys (mini_view (world (mini_sys empty_mini))) gatewayConfigKey = None"
    by (simp add: mini_view_def empty_mini_def)
  show ?thesis
    using gateway_starts [OF list_registry.registry_axioms _ mini_config.redis_config_axioms mini_reliable disjI1 [OF k],
        of "[]" "[]"] k by auto
qed

text \<open>A gateway that has an earlier answer under the URI of the backend's configuration.\<close>

definition put_request :: request where
  "put_request = \<lparr>Method = ''PUT'', Path = ''/api/backend/config'', RawPath = [], RawQuery = []\<rparr>"

definition warm_put :: "mini hsys" where
  "warm_put = (gateway configured)\<lparr>l1_cache := setL1 ''/api/backend/config'' (sample_value ''v'') 100 empty_l1\<rparr>"

lemma warm_put_config: "result (currentGatewayConfig mini_env c) (entered ''g1'' warm_put) = Inr sample_config"
    "exec (currentGatewayConfig mini_env c) (entered ''g1'' warm_put) = entered ''g1'' warm_put"
proof -
  have "result (GetConfigStore mini_env c) (entered ''g1'' warm_put) = Inr (sample_config, 3)"
      "exec (GetConfigStore mini_env c) (entered ''g1'' warm_put) = entered ''g1'' warm_put"
    by (simp_all add: GetConfigStore_def run entered_def warm_put_def gateway_def configured_def empty_mini_def m_lookup_def m_int_def
        gatewayConfigKey_def gatewayConfigVersionKey_def adaptive_ok_def sample_config_def)
  then show "result (currentGatewayConfig mini_env c) (entered ''g1'' warm_put) = Inr sample_config"
      "exec (currentGatewayConfig mini_env c) (entered ''g1'' warm_put) = entered ''g1'' warm_put"
    by (simp_all add: run_currentGatewayConfig install_config_def) (simp_all add: entered_def warm_put_def gateway_def)
qed

theorem cached_write_is_lost_witness:
  "backend_event first_route (Some one_slot) None (director put_request) = Some (Configure (Some one_slot)) \<and>
   result (gateway_router 0 mini_env plain_web ''g1'' put_request) warm_put = Some (Ret ()) \<and>
   world (exec (gateway_router 0 mini_env plain_web ''g1'' put_request) warm_put) = world warm_put"
proof -
  let ?s = "entered ''g1'' warm_put"
  have t: "exec (time_now mini_env) ?s = ?s" "result (time_now mini_env) ?s = 0"
    by (simp_all add: run entered_def warm_put_def gateway_def configured_def empty_mini_def)
  have "fst (getL1 ''/api/backend/config'' 0 (l1_cache ?s)) = Some (sample_value ''v'')"
    using l1.get_after_put [OF l1_inv_empty, of 100 0 "sample_value ''v''" "''/api/backend/config''"]
    by (simp add: entered_def warm_put_def expired_at_def sample_value_def)
  then have hit: "fst (getL1 (RequestURI mini_env put_request) (result (time_now mini_env) (exec (time_now mini_env)
      (exec (currentGatewayConfig mini_env RequestCtx) ?s))) (l1_cache (exec (time_now mini_env)
      (exec (currentGatewayConfig mini_env RequestCtx) ?s)))) = Some (sample_value ''v'')"
    unfolding warm_put_config t by (simp add: RequestURI_def put_request_def)
  have p: "Path put_request = ''/api/backend/config''" "Method put_request = ''PUT''" by (simp_all add: put_request_def)
  from cached_write_is_lost [OF plain_mux first.mux_axioms TrueI TrueI p warm_put_config(1) hit, of "Some one_slot" None 0]
  show ?thesis unfolding warm_put_config t by (simp add: run entered_def)
qed

end
