(* ===== verification/Provenance.thy ===== *)
theory Provenance
  imports Config_Handler
begin

text \<open>
  Where the bytes come from that clients are sent. Values travel from the backend through the
  first-level cache, through JSON in Redis and back into other gateways, and through shared
  calls; no path may hand out a value under a key it does not belong to. The invariant is on the
  stores alone, so it holds however gateways interleave between two accesses to the world.
\<close>

section \<open>Computations that keep an invariant and yield a value with a property\<close>

definition yields :: "('s \<Rightarrow> bool) \<Rightarrow> ('s, 'a) state \<Rightarrow> ('a \<Rightarrow> bool) \<Rightarrow> bool" where
  "yields I m P \<longleftrightarrow> (\<forall>s. I s \<longrightarrow> I (exec m s) \<and> P (result m s))"

named_theorems yielding


lemma yields_ret [yielding]: "P x \<Longrightarrow> yields I (ret x) P"
  by (simp add: yields_def run)

lemma yields_bind: "yields I m (\<lambda>a. yields I (f a) P) \<Longrightarrow> yields I (Monad_Syntax.bind m f) P"
  by (simp add: yields_def run)




lemma yields_conseq: "yields I m Q \<Longrightarrow> (\<And>a. Q a \<Longrightarrow> P a) \<Longrightarrow> yields I m P"
  by (simp add: yields_def)

lemma yields_keeps: "keeps I m \<Longrightarrow> (\<And>a. P a) \<Longrightarrow> yields I m P"
  by (simp add: yields_def keeps_def)


lemma yields_if [yielding]: "(b \<Longrightarrow> yields I m P) \<Longrightarrow> (\<not> b \<Longrightarrow> yields I n P) \<Longrightarrow> yields I (if b then m else n) P"
  by simp

lemma yields_let [yielding]: "(\<And>y. y = x \<Longrightarrow> yields I (f y) P) \<Longrightarrow> yields I (Let x f) P"
  by simp

lemma yields_cases [yielding]:
  "(x = None \<Longrightarrow> yields I m P) \<Longrightarrow> (\<And>y. x = Some y \<Longrightarrow> yields I (f y) P) \<Longrightarrow> yields I (case_option m f x) P"
  "(\<And>y. z = Inl y \<Longrightarrow> yields I (g y) P) \<Longrightarrow> (\<And>y. z = Inr y \<Longrightarrow> yields I (h y) P) \<Longrightarrow> yields I (case_sum g h z) P"
  "(\<And>y. u = Ret y \<Longrightarrow> yields I (k y) P) \<Longrightarrow> (u = Panic \<Longrightarrow> yields I m P) \<Longrightarrow> yields I (case_go k m u) P"
  "(\<And>a b. p = (a, b) \<Longrightarrow> yields I (j a b) P) \<Longrightarrow> yields I (case_prod j p) P"
  by (auto split: option.split sum.split go.split prod.split)

section \<open>Genuine stores\<close>

text \<open>Clients' keys are request URIs and start with a slash; the gateways' own keys do not.\<close>

definition user_key :: "string \<Rightarrow> bool" where
  "user_key k \<longleftrightarrow> take 1 k = ''/''"


definition genuine_l1 :: "(string \<Rightarrow> string \<Rightarrow> bool) \<Rightarrow> l1_state \<Rightarrow> bool" where
  "genuine_l1 genuine h \<longleftrightarrow> l1_inv h \<and> (\<forall>k v. l1_find h k = Some v \<longrightarrow> genuine k (Value v))"

text \<open>The bodies a gateway writes on its own account, and the bodies of a response to a request for a key.\<close>

definition gateway_errors :: "string set" where
  "gateway_errors = error_body ` {''Backend request failed'', ''Request timed out while waiting'',
     ''Gateway configuration unavailable''}"

definition bodies_ok :: "(string \<Rightarrow> string \<Rightarrow> bool) \<Rightarrow> string \<Rightarrow> ResponseWriter \<Rightarrow> bool" where
  "bodies_ok genuine key rw \<longleftrightarrow> (\<forall>d. Body d \<in> set (sent rw) \<longrightarrow> d = [] \<or> genuine key d \<or> d \<in> gateway_errors)"





lemma bodies_new [simp]: "bodies_ok genuine key newResponseWriter"
  by (simp add: bodies_ok_def newResponseWriter_def)





lemma genuine_l1_clear [simp]: "genuine_l1 genuine (clearL1 h)"
  by (simp add: genuine_l1_def l1_invs l1_find_def l1_refines)





lemma own_keys [simp]:
  "\<not> user_key gatewayConfigKey" "\<not> user_key gatewayConfigVersionKey" "\<not> user_key (distributedLockKey E k)"
  "\<not> user_key (fafRefreshMarkerKey E k)" "\<not> user_key adaptiveTTLSnapshotRedisKey"
  "\<not> user_key adaptiveTTLControllerLockRedisKey"
  by (simp_all add: user_key_def gatewayConfigKey_def gatewayConfigVersionKey_def distributedLockKey_def
      distributedLockPrefix_def fafRefreshMarkerKey_def fafRefreshMarkerPrefix_def adaptiveTTLSnapshotRedisKey_def
      adaptiveTTLControllerLockRedisKey_def)




section \<open>Any number of gateways\<close>










section \<open>A backend that echoes\<close>

text \<open>The server in memory, with a backend that answers every request with the URI it was sent.\<close>

definition echo_env :: "(mini, mval) env" where
  "echo_env = mini_env\<lparr>proxy_serve := (\<lambda>c r. ret (Answered 200 (RequestURI mini_env r)))\<rparr>"


lemma echo_fields [simp]:
  "link_status echo_env = link_status mini_env" "c_get echo_env = c_get mini_env" "c_set echo_env = c_set mini_env"
  "c_setnx echo_env = c_setnx mini_env" "c_del echo_env = c_del mini_env" "c_exists echo_env = c_exists mini_env"
  "c_incr echo_env = c_incr mini_env" "c_mget echo_env = c_mget mini_env" "c_zadd echo_env = c_zadd mini_env"
  "c_zrem echo_env = c_zrem mini_env" "c_zcard echo_env = c_zcard mini_env" "c_zpopmin echo_env = c_zpopmin mini_env"
  "c_zrange echo_env = c_zrange mini_env" "enc_l2 echo_env = enc_l2 mini_env" "dec_l2 echo_env = dec_l2 mini_env"
  "now echo_env = now mini_env" "random_token echo_env = random_token mini_env" "random_float echo_env = random_float mini_env"
  "ctx_err echo_env = ctx_err mini_env" "sleep_or_done echo_env = sleep_or_done mini_env"
  "select_call echo_env = select_call mini_env" "http_get_load echo_env = http_get_load mini_env"
  "proxy_serve echo_env = (\<lambda>c r. ret (Answered 200 (RequestURI mini_env r)))" "escape_path echo_env = escape_path mini_env"
  by (simp_all add: echo_env_def)


interpretation echo_redis: redis_l2 echo_env mini_view
proof -
  show "redis_l2 echo_env mini_view"
    using mini.redis_l2_axioms
    unfolding redis_l2_def redis_strings_def redis_l2_axioms_def by simp
qed

lemma keys_view [simp]: "keys (mini_view m) = m_keys m"
  by (simp add: mini_view_def)

lemma advance_keys [simp]: "m_keys (advance d m) = m_keys m"
  by (simp add: advance_def)



section \<open>Properties\<close>


section \<open>Witness\<close>









end
