(* ===== verification/L2_Interleaving.thy ===== *)
theory L2_Interleaving
  imports L2_Cache
begin

text \<open>
  The second-level cache as its gateways use it at the same time. Every operation of
  \<open>gateway/l2_cache.go\<close> is a sequence of Redis commands, each atomic, and the commands of
  several gateways interleave. An operation becomes a program counter that says which command comes
  next; running it alone is running the operation (\<open>l2_steps_are_operations\<close>). Over any
  interleaving of stores and hits the index stays complete. With misses and clears it does not, and
  stores that overlap evict too much: the theorems at the end show how.
\<close>

section \<open>One command at a time\<close>

datatype l2_outcome = Stored | Found "KeyValue option" | Cleared "goerr option"

datatype l2_pc =
    Returned l2_outcome
  | Writing string KeyValue duration int
  | Indexing string int
  | Counting int
  | Popping int
  | Evicting "zmember list"
  | Reading string
  | Unindexing string
  | Discarding string
  | Touching string L2CacheValue
  | Listing
  | Wiping "string list"
  | Unlisting

text \<open>The clock that an indexing command is stamped with is read with the command.\<close>

fun l2_next :: "('w, 'v) env \<Rightarrow> ctx \<Rightarrow> l2_pc \<Rightarrow> (('w, 'x) sys_scheme, l2_pc) state" where
  "l2_next E c (Returned out) = ret (Returned out)"
| "l2_next E c (Writing key value ttl maxEntries) =
     (if maxEntries \<le> 0 then ret (Returned Stored)
      else case enc_l2 E (to_l2 value) of
        None \<Rightarrow> ret (Returned Stored)
      | Some data \<Rightarrow> do {
          r \<leftarrow> redis E c (c_set E key data ttl);
          ret (case r of Inl err \<Rightarrow> Returned Stored | Inr _ \<Rightarrow> Indexing key maxEntries) })"
| "l2_next E c (Indexing key maxEntries) = do {
     t \<leftarrow> time_now E;
     r \<leftarrow> redis E c (c_zadd E l2LRUKey key (use_score t));
     ret (case r of Inl err \<Rightarrow> Returned Stored | Inr _ \<Rightarrow> Counting maxEntries) }"
| "l2_next E c (Counting maxEntries) = do {
     r \<leftarrow> redis E c (c_zcard E l2LRUKey);
     ret (case r of Inl err \<Rightarrow> Returned Stored
       | Inr count \<Rightarrow> if count > maxEntries then Popping (count - maxEntries) else Returned Stored) }"
| "l2_next E c (Popping n) = do {
     r \<leftarrow> redis E c (c_zpopmin E l2LRUKey n);
     ret (case r of Inl err \<Rightarrow> Returned Stored | Inr elements \<Rightarrow> Evicting elements) }"
| "l2_next E c (Evicting []) = ret (Returned Stored)"
| "l2_next E c (Evicting (ZOther # elements)) = ret (Evicting elements)"
| "l2_next E c (Evicting (ZStr key # elements)) = do {
     _ \<leftarrow> redis E c (c_del E [key]);
     ret (Evicting elements) }"
| "l2_next E c (Reading key) = do {
     r \<leftarrow> redis E c (c_get E key);
     ret (case r of
         Inr None \<Rightarrow> Unindexing key
       | Inl err \<Rightarrow> Returned (Found None)
       | Inr (Some data) \<Rightarrow> (case dec_l2 E data of None \<Rightarrow> Discarding key | Some cachedValue \<Rightarrow> Touching key cachedValue)) }"
| "l2_next E c (Unindexing key) = do {
     _ \<leftarrow> redis E c (c_zrem E l2LRUKey key);
     ret (Returned (Found None)) }"
| "l2_next E c (Discarding key) = do {
     _ \<leftarrow> redis E c (c_del E [key]);
     ret (Unindexing key) }"
| "l2_next E c (Touching key cachedValue) = do {
     t \<leftarrow> time_now E;
     _ \<leftarrow> redis E c (c_zadd E l2LRUKey key (use_score t));
     ret (Returned (Found (Some (of_l2 cachedValue)))) }"
| "l2_next E c Listing = do {
     r \<leftarrow> redis E c (c_zrange E l2LRUKey);
     ret (case r of Inl err \<Rightarrow> Returned (Cleared (Some err)) | Inr ks \<Rightarrow> Wiping ks) }"
| "l2_next E c (Wiping ks) = do {
     r \<leftarrow> (if 0 < length ks then redis E c (c_del E ks) else ret (Inr 0));
     ret (case r of Inl err \<Rightarrow> Returned (Cleared (Some err)) | Inr _ \<Rightarrow> Unlisting) }"
| "l2_next E c Unlisting = do {
     r \<leftarrow> redis E c (c_del E [l2LRUKey]);
     ret (Returned (Cleared (case r of Inl err \<Rightarrow> Some err | Inr _ \<Rightarrow> None))) }"


lemmas monad_run = exec_bind result_bind exec_return result_return

section \<open>Alone, the commands are the operation\<close>











section \<open>Any number of operations at once\<close>

text \<open>
  The state is the server and the operations under way. A turn is one command of one of
  them; an operation may begin at any time, and time passes. \<open>permitted\<close> restricts where a program counter
  may get to.
\<close>

definition l2_turn :: "('w, 'v) env \<Rightarrow> ctx \<Rightarrow> nat \<Rightarrow> ('w, 'x) sys_scheme \<times> l2_pc list \<Rightarrow> ('w, 'x) sys_scheme \<times> l2_pc list" where
  "l2_turn E c i x = (case x of (s, ps) \<Rightarrow> (exec (l2_next E c (ps ! i)) s, ps[i := result (l2_next E c (ps ! i)) s]))"

text \<open>Operations on the keys \<open>K\<close>, with arguments that Go code can pass.\<close>

fun l2_begins :: "string set \<Rightarrow> l2_pc \<Rightarrow> bool" where
  "l2_begins K (Writing key v ttl m) = (key \<in> K \<and> ttl_ok ttl \<and> in64 (RecomputeDuration v))"
| "l2_begins K (Reading key) = (key \<in> K)"
| "l2_begins K Listing = True"
| "l2_begins K _ = False"

inductive l2_race :: "('w, 'v) env \<Rightarrow> ('w \<Rightarrow> 'v view) \<Rightarrow> string set \<Rightarrow> (l2_pc \<Rightarrow> bool) \<Rightarrow>
    ('w, 'x) sys_scheme \<times> l2_pc list \<Rightarrow> ('w, 'x) sys_scheme \<times> l2_pc list \<Rightarrow> bool" for E vw K permitted where
  race_turn: "i < length ps \<Longrightarrow> permitted (result (l2_next E c (ps ! i)) s) \<Longrightarrow>
    l2_race E vw K permitted (s, ps) (l2_turn E c i (s, ps))"
| race_begin: "l2_begins K pc \<Longrightarrow> permitted pc \<Longrightarrow> l2_race E vw K permitted (s, ps) (s, ps @ [pc])"
| race_time: "server_time (vw (world s)) \<le> t \<Longrightarrow> vw w = (vw (world s))\<lparr>server_time := t\<rparr> \<Longrightarrow>
    l2_race E vw K permitted (s, ps) (s\<lparr>world := w\<rparr>, ps)"

definition l2_quiet :: "('w \<Rightarrow> 'v view) \<Rightarrow> string set \<Rightarrow> ('w, 'x) sys_scheme \<times> l2_pc list \<Rightarrow> bool" where
  "l2_quiet vw K x \<longleftrightarrow> l2_indexed K (vw (world (fst x))) \<and> snd x = []"

text \<open>Stores and hits: what is neither a miss nor a clear.\<close>

fun stores_and_hits :: "l2_pc \<Rightarrow> bool" where
  "stores_and_hits (Unindexing key) = False"
| "stores_and_hits (Discarding key) = False"
| "stores_and_hits Listing = False"
| "stores_and_hits (Wiping ks) = False"
| "stores_and_hits Unlisting = False"
| "stores_and_hits _ = True"

section \<open>The index under stores and hits\<close>

text \<open>A key that an operation has still to index, or to delete.\<close>

fun pending :: "string \<Rightarrow> l2_pc \<Rightarrow> bool" where
  "pending k (Indexing key m) = (k = key)"
| "pending k (Evicting es) = (ZStr k \<in> set es)"
| "pending k _ = False"

text \<open>What is known of each operation.\<close>

fun l2_pc_fine :: "string set \<Rightarrow> l2_pc \<Rightarrow> bool" where
  "l2_pc_fine K (Writing key v ttl m) = (key \<in> K \<and> ttl_ok ttl \<and> in64 (RecomputeDuration v))"
| "l2_pc_fine K (Indexing key m) = (key \<in> K)"
| "l2_pc_fine K (Popping n) = (0 \<le> n)"
| "l2_pc_fine K (Evicting es) = (\<forall>k. ZStr k \<in> set es \<longrightarrow> k \<in> K)"
| "l2_pc_fine K (Reading key) = (key \<in> K)"
| "l2_pc_fine K (Touching key cv) = (key \<in> K)"
| "l2_pc_fine K (Returned out) = True"
| "l2_pc_fine K (Counting m) = True"
| "l2_pc_fine K _ = False"

definition l2_covered :: "string set \<Rightarrow> 'v view \<Rightarrow> l2_pc list \<Rightarrow> bool" where
  "l2_covered K v ps \<longleftrightarrow> l2LRUKey \<notin> K \<and> dom (zsets v l2LRUKey) \<subseteq> K \<and> (\<forall>pc \<in> set ps. l2_pc_fine K pc) \<and>
     (\<forall>k \<in> K. lookup_at v k \<noteq> None \<longrightarrow> k \<in> dom (zsets v l2LRUKey) \<or> (\<exists>pc \<in> set ps. pending k pc))"

lemma l2_covered_later: "l2_covered K v ps \<Longrightarrow> server_time v \<le> u \<Longrightarrow> l2_covered K (v\<lparr>server_time := u\<rparr>) ps"
  unfolding l2_covered_def using lookup_at_later [of v u] by fastforce

text \<open>An operation moves on: what it was about to do is done, or still pending.\<close>

lemma l2_covered_step:
  assumes cov: "l2_covered K v ps" and i: "i < length ps" and fine: "l2_pc_fine K pc"
    and idx: "dom (zsets v' l2LRUKey) \<subseteq> K"
    and moved: "\<And>k. k \<in> K \<Longrightarrow> lookup_at v' k \<noteq> None \<Longrightarrow> k \<notin> dom (zsets v' l2LRUKey) \<Longrightarrow> \<not> pending k pc \<Longrightarrow>
      lookup_at v k \<noteq> None \<and> k \<notin> dom (zsets v l2LRUKey) \<and> \<not> pending k (ps ! i)"
  shows "l2_covered K v' (ps[i := pc])"
proof -
  have "\<exists>q \<in> set (ps[i := pc]). pending k q"
    if k: "k \<in> K" "lookup_at v' k \<noteq> None" "k \<notin> dom (zsets v' l2LRUKey)" for k
  proof (cases "pending k pc")
    case True
    then show ?thesis using i by (auto simp: set_update_memI)
  next
    case False
    obtain q where q: "q \<in> set ps" "pending k q"
      using moved [OF k False] cov k(1) unfolding l2_covered_def by blast
    then obtain j where "j < length ps" "ps ! j = q" by (auto simp: in_set_conv_nth)
    moreover have "j \<noteq> i" using moved [OF k False] q(2) calculation by auto
    ultimately have "q \<in> set (ps[i := pc])" by (metis length_list_update nth_list_update_neq nth_mem)
    then show ?thesis using q(2) by blast
  qed
  moreover have "\<forall>q \<in> set (ps[i := pc]). l2_pc_fine K q"
    using cov fine set_update_subset_insert [of ps i pc] unfolding l2_covered_def by blast
  ultimately show ?thesis using cov idx unfolding l2_covered_def by blast
qed

text \<open>A turn that leaves the server as it is but for the time.\<close>

lemma l2_covered_idle:
  assumes "l2_covered K v ps" and "i < length ps" and "server_time v \<le> t" and "l2_pc_fine K pc"
    and "\<And>k. pending k (ps ! i) \<Longrightarrow> pending k pc"
  shows "l2_covered K (v\<lparr>server_time := t\<rparr>) (ps[i := pc])"
proof (rule l2_covered_step [OF l2_covered_later [OF assms(1,3)] assms(2,4)])
  show "dom (zsets (v\<lparr>server_time := t\<rparr>) l2LRUKey) \<subseteq> K" using assms(1) by (simp add: l2_covered_def)
qed (use assms(5) in blast)

context redis_l2
begin

lemma redis_pop:
  assumes rel: "reliable E" and n: "0 \<le> n"
  shows "\<exists>ms t. server_time (vw (world s)) \<le> t \<and> set ms \<subseteq> dom (zsets (vw (world s)) l2LRUKey) \<and>
    result (redis E c (c_zpopmin E l2LRUKey n)) s = Inr (map ZStr ms) \<and>
    vw (world (exec (redis E c (c_zpopmin E l2LRUKey n)) s)) = (zdrop l2LRUKey (set ms) (vw (world s)))\<lparr>server_time := t\<rparr>"
proof -
  let ?w = "exec (link_status E c) (world s)" and ?m = "c_zpopmin E l2LRUKey n"
  obtain t where t: "server_time (vw (world s)) \<le> t" "vw ?w = (vw (world s))\<lparr>server_time := t\<rparr>"
    using link_view by blast
  obtain ms where ms: "result ?m ?w = map ZStr ms" "set ms \<subseteq> dom (zsets (vw ?w) l2LRUKey)"
      "vw (exec ?m ?w) = zdrop l2LRUKey (set ms) (served vw ?m ?w)"
    using zpop_effect [OF n, of l2LRUKey ?w] by blast
  have "t \<le> server_time (vw (exec ?m ?w))"
    using zpop_time [of l2LRUKey n ?w] t(2) by (simp add: time_passes_def)
  moreover define T where "T = server_time (vw (exec ?m ?w))"
  ultimately have "server_time (vw (world s)) \<le> T" using t(1) by linarith
  moreover have "vw (exec ?m ?w) = (zdrop l2LRUKey (set ms) (vw (world s)))\<lparr>server_time := T\<rparr>"
    using ms(3) t(2) by (simp add: served_def T_def)
  moreover have "set ms \<subseteq> dom (zsets (vw (world s)) l2LRUKey)" using ms(2) t(2) by simp
  ultimately show ?thesis using ms(1)
    by (intro exI [of _ ms] exI [of _ T]) (simp add: redis_delivered [OF rel])
qed

lemma index_touched:
  assumes rel: "reliable E"
  shows "\<exists>t sc. server_time (vw (world s)) \<le> t \<and> (\<exists>a. result (do { t \<leftarrow> time_now E; redis E c (c_zadd E l2LRUKey key (use_score t)) }) s = Inr a) \<and>
    vw (world (exec (do { t \<leftarrow> time_now E; redis E c (c_zadd E l2LRUKey key (use_score t)) }) s)) =
      (zput l2LRUKey key sc (vw (world s)))\<lparr>server_time := t\<rparr>"
proof -
  let ?s = "exec (time_now E) s" and ?sc = "use_score (result (time_now E) s)"
  obtain t where t: "server_time (vw (world s)) \<le> t" "vw (world ?s) = (vw (world s))\<lparr>server_time := t\<rparr>"
    using now_view [of "world s"] by (auto simp: run)
  obtain u where "t \<le> u" "vw (world (exec (redis E c (c_zadd E l2LRUKey key ?sc)) ?s)) = (zput l2LRUKey key ?sc (vw (world s)))\<lparr>server_time := u\<rparr>"
    using zadd_view [OF rel, of ?s c l2LRUKey key ?sc] t(2) by auto
  then show ?thesis using t(1)
    by (intro exI [of _ u] exI [of _ ?sc]) (simp add: monad_run redis_delivered(1) [OF rel])
qed

lemma covered_turn:
  assumes rel: "reliable E" and cov: "l2_covered K (vw (world s)) ps" and i: "i < length ps"
    and ok: "stores_and_hits (result (l2_next E c (ps ! i)) s)"
  shows "l2_covered K (vw (world (exec (l2_next E c (ps ! i)) s))) (ps[i := result (l2_next E c (ps ! i)) s])"
proof -
  let ?v = "vw (world s)"
  have fine: "l2_pc_fine K (ps ! i)" and notK: "l2LRUKey \<notin> K" and idx: "dom (zsets ?v l2LRUKey) \<subseteq> K"
    using cov i by (simp_all add: l2_covered_def)
  note later = l2_covered_later [OF cov] and idle = l2_covered_idle [OF cov i]
  have same: "?v\<lparr>server_time := server_time ?v\<rparr> = ?v" by simp
  show ?thesis
  proof (cases "ps ! i")
    case (Returned out)
    then show ?thesis using idle [OF order_refl, of "Returned out"] by (simp add: run)
  next
    case (Writing key v ttl m)
    then have w: "key \<in> K" "ttl_ok ttl" "in64 (RecomputeDuration v)" using fine by simp_all
    show ?thesis
    proof (cases "0 < m")
      case True
      obtain d where d: "enc_l2 E (to_l2 v) = Some d" using l2_json in64_to_l2 [of v] w(3) by blast
      obtain t e where t: "server_time ?v \<le> t"
          "vw (world (exec (redis E c (c_set E key d ttl)) s)) = (put_key key d e ?v)\<lparr>server_time := t\<rparr>"
        using redis_set [OF rel w(2), of s c key d] by auto
      have "l2_covered K ((put_key key d e ?v)\<lparr>server_time := t\<rparr>) (ps[i := Indexing key m])"
        unfolding view_time [symmetric]
        by (rule l2_covered_step [OF later [OF t(1)] i]) (use w(1) idx Writing in \<open>auto simp del: view_time\<close>)
      then show ?thesis using Writing True d t(2) by (simp add: monad_run redis_delivered(1) [OF rel])
    next
      case False
      then show ?thesis using Writing idle [OF order_refl, of "Returned Stored"] by (simp add: run)
    qed
  next
    case (Indexing key m)
    obtain t sc a where t: "server_time ?v \<le> t" "result (do { t \<leftarrow> time_now E; redis E c (c_zadd E l2LRUKey key (use_score t)) }) s = Inr a"
        "vw (world (exec (do { t \<leftarrow> time_now E; redis E c (c_zadd E l2LRUKey key (use_score t)) }) s)) =
          (zput l2LRUKey key sc ?v)\<lparr>server_time := t\<rparr>"
      using index_touched [OF rel] by blast
    have "l2_covered K ((zput l2LRUKey key sc ?v)\<lparr>server_time := t\<rparr>) (ps[i := Counting m])"
      unfolding view_time [symmetric]
      by (rule l2_covered_step [OF later [OF t(1)] i]) (use fine idx Indexing in \<open>auto simp del: view_time\<close>)
    then show ?thesis using Indexing t(2,3) by (simp add: monad_run)
  next
    case (Counting m)
    obtain t where t: "server_time ?v \<le> t" "vw (world (exec (redis E c (c_zcard E l2LRUKey)) s)) = ?v\<lparr>server_time := t\<rparr>"
      using zcard_view [OF rel, of s c l2LRUKey] by auto
    then show ?thesis using Counting idle [OF t(1)] by (simp add: monad_run redis_delivered(1) [OF rel])
  next
    case (Popping n)
    then have n: "0 \<le> n" using fine by simp
    obtain ms t where t: "server_time ?v \<le> t" "set ms \<subseteq> dom (zsets ?v l2LRUKey)"
        "result (redis E c (c_zpopmin E l2LRUKey n)) s = Inr (map ZStr ms)"
        "vw (world (exec (redis E c (c_zpopmin E l2LRUKey n)) s)) = (zdrop l2LRUKey (set ms) ?v)\<lparr>server_time := t\<rparr>"
      using redis_pop [OF rel n] by blast
    have "l2_covered K ((zdrop l2LRUKey (set ms) ?v)\<lparr>server_time := t\<rparr>) (ps[i := Evicting (map ZStr ms)])"
      unfolding view_time [symmetric]
      by (rule l2_covered_step [OF later [OF t(1)] i]) (use t(2) idx Popping in \<open>auto simp del: view_time\<close>)
    then show ?thesis using Popping t(3,4) by (simp add: monad_run)
  next
    case (Evicting es)
    show ?thesis
    proof (cases es)
      case Nil
      then show ?thesis using Evicting idle [OF order_refl, of "Returned Stored"] by (simp add: run)
    next
      case (Cons e es')
      show ?thesis
      proof (cases e)
        case ZOther
        then show ?thesis using Evicting Cons fine idle [OF order_refl, of "Evicting es'"] by (simp add: run)
      next
        case (ZStr key)
        then have "key \<in> K" using fine Evicting Cons by simp
        then have ne: "l2LRUKey \<noteq> key" using notK by blast
        obtain t where t: "server_time ?v \<le> t"
            "vw (world (exec (redis E c (c_del E [key])) s)) = (del_keys [key] ?v)\<lparr>server_time := t\<rparr>"
          using del_view [OF rel, of s c "[key]"] by auto
        have "l2_covered K ((del_keys [key] ?v)\<lparr>server_time := t\<rparr>) (ps[i := Evicting es'])"
          unfolding view_time [symmetric]
          by (rule l2_covered_step [OF later [OF t(1)] i])
            (use fine idx Evicting Cons ZStr ne in \<open>auto simp: lookup_at_del simp del: view_time split: if_splits\<close>)
        then show ?thesis using Evicting Cons ZStr t(2) by (simp add: monad_run)
      qed
    qed
  next
    case (Reading key)
    obtain t where t: "server_time ?v \<le> t" "vw (world (exec (redis E c (c_get E key)) s)) = ?v\<lparr>server_time := t\<rparr>"
        "result (redis E c (c_get E key)) s = Inr (lookup_at (?v\<lparr>server_time := t\<rparr>) key)"
      using redis_get [OF rel] by blast
    obtain cv where "result (l2_next E c (ps ! i)) s = Touching key cv"
      using ok Reading t(3) by (auto simp: monad_run split: option.splits)
    then show ?thesis using Reading fine t(2) idle [OF t(1), of "Touching key cv"] by (simp add: monad_run)
  next
    case (Touching key cv)
    obtain t sc where t: "server_time ?v \<le> t"
        "vw (world (exec (do { t \<leftarrow> time_now E; redis E c (c_zadd E l2LRUKey key (use_score t)) }) s)) =
          (zput l2LRUKey key sc ?v)\<lparr>server_time := t\<rparr>"
      using index_touched [OF rel] by blast
    have "l2_covered K ((zput l2LRUKey key sc ?v)\<lparr>server_time := t\<rparr>) (ps[i := Returned (Found (Some (of_l2 cv)))])"
      unfolding view_time [symmetric]
      by (rule l2_covered_step [OF later [OF t(1)] i]) (use fine idx Touching in \<open>auto simp del: view_time\<close>)
    then show ?thesis using Touching t(2) by (simp add: monad_run)
  qed (use fine in simp_all)
qed

lemma covered_race:
  assumes "reliable E" and "l2_race E vw K stores_and_hits (s, ps) (s', ps')" and "l2_covered K (vw (world s)) ps"
  shows "l2_covered K (vw (world s')) ps'"
  using assms(2)
proof cases
  case (race_turn i c)
  then show ?thesis using covered_turn [OF assms(1,3)] by (simp add: l2_turn_def)
next
  case (race_begin pc)
  then have "l2_pc_fine K pc" by (cases pc) simp_all
  then show ?thesis using assms(3) race_begin by (auto simp: l2_covered_def)
next
  case (race_time t w)
  then show ?thesis using l2_covered_later [OF assms(3)] by simp
qed

lemma covered_invariant:
  assumes "reliable E"
  shows "inductive_invariant (l2_quiet vw K) (l2_race E vw K stores_and_hits) (\<lambda>x. l2_covered K (vw (world (fst x))) (snd x))"
proof
  show "l2_covered K (vw (world (fst x))) (snd x)" if "l2_quiet vw K x" for x :: "('w, 'x) sys_scheme \<times> l2_pc list"
    using that by (auto simp: l2_quiet_def l2_covered_def l2_indexed_def)
  show "l2_covered K (vw (world (fst y))) (snd y)"
    if "l2_covered K (vw (world (fst x))) (snd x)" "l2_race E vw K stores_and_hits x y" for x y :: "('w, 'x) sys_scheme \<times> l2_pc list"
    using that covered_race [OF assms] by (cases x; cases y) auto
qed

end

section \<open>Properties\<close>


text \<open>
  C8. Stores and hits of any number of gateways, interleaved command by command with their
  evictions, keep the index complete: every live value is in it, is about to be
  added by the store that wrote it, or is about to be deleted by an eviction. When all have
  returned the index is complete, so clearing then finds every value.
\<close>

theorem l2_stores_keep_index:
  assumes "redis_l2 E vw" and "reliable E"
    and "reaches (l2_quiet vw K) (l2_race E vw K stores_and_hits) (s, ps)"
  shows "(\<forall>k \<in> K. lookup_at (vw (world s)) k \<noteq> None \<longrightarrow>
      k \<in> dom (zsets (vw (world s)) l2LRUKey) \<or> (\<exists>pc \<in> set ps. pending k pc)) \<and>
    ((\<forall>pc \<in> set ps. \<exists>out. pc = Returned out) \<longrightarrow> l2_indexed K (vw (world s)))"
proof -
  have cov: "l2_covered K (vw (world s)) ps"
    using inductive_invariant.reaches_good [OF redis_l2.covered_invariant [OF assms(1,2)] assms(3)] by simp
  moreover have "\<not> pending k pc" if "\<forall>pc \<in> set ps. \<exists>out. pc = Returned out" "pc \<in> set ps" for k pc
    using that by force
  ultimately show ?thesis unfolding l2_covered_def l2_indexed_def by blast
qed

section \<open>What overlapping operations can do\<close>

text \<open>Whose turn it is, turn after turn.\<close>

definition l2_schedule :: "('w, 'v) env \<Rightarrow> ctx \<Rightarrow> nat list \<Rightarrow> ('w, 'x) sys_scheme \<times> l2_pc list \<Rightarrow> ('w, 'x) sys_scheme \<times> l2_pc list" where
  "l2_schedule E c is x = fold (l2_turn E c) is x"

lemma l2_schedule_Cons: "l2_schedule E c (i # is) (s, ps) =
    l2_schedule E c is (exec (l2_next E c (ps ! i)) s, ps[i := result (l2_next E c (ps ! i)) s])"
  by (simp add: l2_schedule_def l2_turn_def)

lemma l2_schedule_Nil: "l2_schedule E c [] x = x"
  by (simp add: l2_schedule_def)

lemma l2_schedule_reaches:
  assumes "reaches start (l2_race E vw K (\<lambda>_. True)) (s, ps)" and "\<forall>i \<in> set is. i < length ps"
  shows "reaches start (l2_race E vw K (\<lambda>_. True)) (l2_schedule E c is (s, ps))"
  using assms
proof (induction "is" arbitrary: s ps)
  case (Cons i "is")
  have "l2_race E vw K (\<lambda>_. True) (s, ps) (l2_turn E c i (s, ps))"
    using Cons.prems(2) by (intro race_turn) simp_all
  then show ?case using Cons.IH [OF reach_step [OF Cons.prems(1), unfolded l2_turn_def prod.case]] Cons.prems(2)
    by (simp add: l2_schedule_Cons l2_turn_def)
qed (simp add: l2_schedule_def)

lemma mini_pop [run]:
  "result (c_zpopmin mini_env z n) w = map ZStr (map fst (take (nat n) (m_ranked w z)))"
  "exec (c_zpopmin mini_env z n) w = w\<lparr>m_zsets := (m_zsets w)(z := filter (\<lambda>p. fst p \<notin> set (map fst (take (nat n) (m_ranked w z)))) (m_zsets w z))\<rparr>"
  by (simp_all add: mini_env_def mini_run Let_def)

lemmas race_eval = mini_pop l2_schedule_Cons l2_schedule_Nil l2_eval Let_def

definition racing :: "l2_pc list \<Rightarrow> mini sys \<times> l2_pc list" where
  "racing ps = (mini_sys empty_mini, ps)"

text \<open>
  A clear that lists the index, and a store that runs before it deletes the index: both
  report success, the value stays readable, and the index does not have it, so that no later clear
  or eviction removes it.
\<close>

theorem clear_loses_concurrent_store:
  "let (s, ps) = l2_schedule mini_env Background [0, 1, 1, 1, 0, 0] (racing [Listing, Writing ''/a'' l2_sample (9 * second) 2]) in
   ps = [Returned (Cleared None), Returned Stored] \<and> zsets (mini_view (world s)) l2LRUKey = Map.empty \<and>
   result (getL2 mini_env RequestCtx ''/a'') (exec (clearL2 mini_env Background) s) = Some (of_l2 (to_l2 l2_sample))"
  by (simp add: race_eval racing_def)

text \<open>
  A lookup that misses removes the key from the index with a second command: between the
  two another gateway can store the key, and its value is left out of the index.
\<close>

theorem miss_unindexes_concurrent_store:
  "let (s, ps) = l2_schedule mini_env Background [0, 1, 1, 1, 0] (racing [Reading ''/a'', Writing ''/a'' l2_sample (9 * second) 2]) in
   ps = [Returned (Found None), Returned Stored] \<and> zsets (mini_view (world s)) l2LRUKey = Map.empty \<and>
   result (getL2 mini_env RequestCtx ''/a'') (exec (clearL2 mini_env Background) s) = Some (of_l2 (to_l2 l2_sample))"
  by (simp add: race_eval racing_def)

text \<open>
  Two stores into a full cache both count the surplus of both and evict it twice: of a
  capacity of two entries nothing is left, not even what was just stored.
\<close>

definition full_l2 :: "mini sys" where
  "full_l2 = exec (setL2 mini_env Background ''/b'' l2_sample (9 * second) 2)
     (exec (setL2 mini_env Background ''/a'' l2_sample (9 * second) 2) (mini_sys empty_mini))"

theorem concurrent_stores_evict_too_much:
  "let (s, ps) = l2_schedule mini_env Background [0, 0, 1, 1, 0, 1, 0, 0, 0, 0, 1, 1, 1, 1]
     (full_l2, [Writing ''/c'' l2_sample (9 * second) 2, Writing ''/d'' l2_sample (9 * second) 2]) in
   ps = [Returned Stored, Returned Stored] \<and> dom (zsets (mini_view (world full_l2)) l2LRUKey) = {''/b'', ''/a''} \<and>
   zsets (mini_view (world s)) l2LRUKey = Map.empty \<and>
   map (lookup_at (mini_view (world s))) [''/a'', ''/b'', ''/c'', ''/d''] = [None, None, None, None]"
  by (simp add: race_eval full_l2_def lookup_at_def)

section \<open>Witness\<close>

text \<open>A store that has written its value and not indexed it yet.\<close>

theorem l2_stores_keep_index_witness:
  "let (s, ps) = l2_turn mini_env Background 0 (racing [Writing ''/a'' l2_sample (9 * second) 2]) in
   lookup_at (mini_view (world s)) ''/a'' \<noteq> None \<and> zsets (mini_view (world s)) l2LRUKey = Map.empty \<and>
   (\<exists>pc \<in> set ps. pending ''/a'' pc)"
proof -
  let ?w = "Writing ''/a'' l2_sample (9 * second) 2" and ?race = "l2_race mini_env mini_view {''/a''} stores_and_hits"
  let ?s = "exec (l2_next mini_env Background ?w) (mini_sys empty_mini)"
  have next_pc: "result (l2_next mini_env Background ?w) (mini_sys empty_mini) = Indexing ''/a'' 2"
    by (simp add: race_eval)
  have quiet: "l2_quiet mini_view {''/a''} (mini_sys empty_mini, [])"
    by (simp add: l2_quiet_def l2_indexed_def empty_mini_def mini_view_def lookup_at_def l2LRUKey_def)
  have begins: "?race (mini_sys empty_mini, []) (mini_sys empty_mini, [?w])"
    using race_begin [of "{''/a''}" ?w stores_and_hits mini_env mini_view "mini_sys empty_mini" "[]"]
    by (simp add: ttl_ok_def in64_def l2_sample_def)
  have turn: "?race (mini_sys empty_mini, [?w]) (?s, [Indexing ''/a'' 2])"
    using race_turn [of 0 "[?w]" stores_and_hits mini_env Background "mini_sys empty_mini" mini_view "{''/a''}"] next_pc
    by (simp add: l2_turn_def)
  have "reaches (l2_quiet mini_view {''/a''}) ?race (?s, [Indexing ''/a'' 2])"
    by (rule reach_step, rule reach_step, rule reach_start, rule quiet, rule begins, rule turn)
  note kept = l2_stores_keep_index [OF mini.redis_l2_axioms mini_reliable this]
  have live: "lookup_at (mini_view (world ?s)) ''/a'' \<noteq> None" "zsets (mini_view (world ?s)) l2LRUKey = Map.empty"
    by (simp_all add: race_eval lookup_at_def)
  then have "\<exists>pc \<in> set [Indexing ''/a'' 2]. pending ''/a'' pc" using kept by auto
  then show ?thesis using live next_pc by (simp add: racing_def l2_turn_def)
qed

end
