(* ===== verification/Controller_Cluster.thy ===== *)
theory Controller_Cluster
  imports Adaptive_TTL
begin

text \<open>
  The adaptive controllers of all gateways at the same time. \<open>updateSharedState\<close> and \<open>Reset\<close> of
  \<open>gateway/adaptive_ttl_controller.go\<close> become program counters, one Redis command or one request to
  the backend per step, and the rounds of any number of gateways interleave. As long as no owner
  of the controller lock acts after its lease has run out, all of them together are one
  controller: what is published is what a single controller makes of the readings of all.
\<close>

section \<open>Rounds, one command at a time\<close>

text \<open>What a gateway wants of the lock: a round of its loop, or a reset after a configuration change.\<close>

datatype turn = Adjust GatewayConfig | Restart bool

text \<open>A gateway that does not own the lock follows: it has no token.\<close>

type_synonym owner = "(string \<times> GatewayConfig) option"

datatype round_pc =
    Ended "goerr option"
  | Claiming turn
  | Waiting bool
  | Getting owner
  | Creating owner
  | Rereading owner
  | Asking string GatewayConfig
  | Deciding string GatewayConfig BackendLoadSignals
  | Disabling string
  | Resetting string bool
  | Unlocking string "goerr option"

definition stop :: "owner \<Rightarrow> goerr option \<Rightarrow> round_pc" where
  "stop k out = (case k of None \<Rightarrow> Ended out | Some (tok, config) \<Rightarrow> Unlocking tok out)"

text \<open>What follows when the snapshot has been read or not.\<close>

definition loaded :: "owner \<Rightarrow> goerr + AdaptiveTTLSnapshot \<Rightarrow> (('w, 'x) csys_scheme, round_pc) state" where
  "loaded k r = (case r of
       Inl err \<Rightarrow> ret (stop k (Some err))
     | Inr snapshot \<Rightarrow> do {
         _ \<leftarrow> on_controller (applySnapshot snapshot);
         ret (case k of None \<Rightarrow> Ended None
           | Some (tok, config) \<Rightarrow> if AdaptiveTTLEnabled config then Asking tok config else Disabling tok) })"

fun round_next :: "('w, 'v) env \<Rightarrow> ctx \<Rightarrow> round_pc \<Rightarrow> (('w, 'x) csys_scheme, round_pc) state" where
  "round_next E c (Ended out) = ret (Ended out)"
| "round_next E c (Claiming turn) = do {
     r \<leftarrow> tryAcquireControllerLock E c;
     ret (case r of
         Inl err \<Rightarrow> Ended (Some (case turn of Adjust config \<Rightarrow> err
           | Restart enabled \<Rightarrow> Wrap ''acquire controller lock for reset'' err))
       | Inr (token, acquired) \<Rightarrow> (case turn of
             Adjust config \<Rightarrow> Getting (if acquired then Some (token, config) else None)
           | Restart enabled \<Rightarrow> if acquired then Resetting token enabled else Waiting enabled)) }"
| "round_next E c (Waiting enabled) = do {
     fired \<leftarrow> waitForAdaptiveTTLInterval E c adaptiveTTLControllerLockPollInterval;
     if \<not> fired then do { e \<leftarrow> on_world (ctx_err E c); ret (Ended e) }
     else ret (Claiming (Restart enabled)) }"
| "round_next E c (Getting k) = do {
     r \<leftarrow> redis E c (c_get E adaptiveTTLSnapshotRedisKey);
     case r of Inr None \<Rightarrow> ret (Creating k) | _ \<Rightarrow> loaded k (decode_snapshot E r) }"
| "round_next E c (Creating k) =
     (case enc_snapshot E initialSnapshot of
        None \<Rightarrow> loaded k (Inl (Wrap ''encode initial adaptive TTL snapshot'' (LibErr ''json'')))
      | Some initialData \<Rightarrow> do {
          r \<leftarrow> redis E c (c_setnx E adaptiveTTLSnapshotRedisKey initialData 0);
          case r of
            Inl err \<Rightarrow> loaded k (Inl (Wrap ''initialize adaptive TTL snapshot'' err))
          | Inr created \<Rightarrow> if created then loaded k (Inr initialSnapshot) else ret (Rereading k) })"
| "round_next E c (Rereading k) = do {
     r \<leftarrow> redis E c (c_get E adaptiveTTLSnapshotRedisKey);
     loaded k (decode_snapshot E r) }"
| "round_next E c (Asking token config) = do {
     r \<leftarrow> readBackendLoadSignals E c;
     ret (case r of Inl err \<Rightarrow> Unlocking token (Some err) | Inr signals \<Rightarrow> Deciding token config signals) }"
| "round_next E c (Deciding token config signals) = do {
     _ \<leftarrow> on_controller (processSignals config signals);
     snap \<leftarrow> controller_snapshot;
     r \<leftarrow> saveSharedSnapshot E c snap;
     ret (Unlocking token r) }"
| "round_next E c (Disabling token) = do {
     _ \<leftarrow> on_controller setDisabled;
     snap \<leftarrow> controller_snapshot;
     r \<leftarrow> saveSharedSnapshot E c snap;
     ret (Unlocking token r) }"
| "round_next E c (Resetting token enabled) = do {
     r \<leftarrow> reset_as_owner E c enabled;
     ret (Unlocking token r) }"
| "round_next E c (Unlocking token out) = do {
     _ \<leftarrow> releaseControllerLock E token;
     ret (Ended out) }"

primrec round_drive :: "nat \<Rightarrow> ('w, 'v) env \<Rightarrow> ctx \<Rightarrow> round_pc \<Rightarrow> (('w, 'x) csys_scheme, round_pc) state" where
  "round_drive 0 E c pc = ret pc"
| "round_drive (Suc n) E c pc = do { pc \<leftarrow> round_next E c pc; round_drive n E c pc }"

section \<open>Alone, the steps are the operations\<close>

definition round_ends :: "('w, 'v) env \<Rightarrow> ctx \<Rightarrow> round_pc \<Rightarrow> ('w, 'x) csys_scheme \<Rightarrow> goerr option \<Rightarrow> ('w, 'x) csys_scheme \<Rightarrow> bool" where
  "round_ends E c pc s out t \<longleftrightarrow> (\<exists>n. result (round_drive n E c pc) s = Ended out \<and> exec (round_drive n E c pc) s = t)"

lemma round_ends_ended: "round_ends E c (Ended out) s out s"
  unfolding round_ends_def by (rule exI [of _ 0]) (simp add: run)

lemma round_ends_next:
  assumes "round_ends E c (result (round_next E c pc) s) (exec (round_next E c pc) s) out t"
  shows "round_ends E c pc s out t"
proof -
  obtain n where "result (round_drive n E c (result (round_next E c pc) s)) (exec (round_next E c pc) s) = Ended out"
      "exec (round_drive n E c (result (round_next E c pc) s)) (exec (round_next E c pc) s) = t"
    using assms unfolding round_ends_def by blast
  then show ?thesis unfolding round_ends_def by (intro exI [of _ "Suc n"]) (simp add: run)
qed

lemma round_ends_unlock: "round_ends E c (Unlocking token out) s out (exec (releaseControllerLock E token) s)"
  by (rule round_ends_next) (simp add: run round_ends_ended)









lemma round_ends_reset:
  "result (Reset n E c enabled) s = Some out \<Longrightarrow> round_ends E c (Claiming (Restart enabled)) s out (exec (Reset n E c enabled) s)"
proof (induction n arbitrary: s)
  case (Suc n)
  let ?s = "exec (tryAcquireControllerLock E c) s"
  let ?wait = "waitForAdaptiveTTLInterval E c adaptiveTTLControllerLockPollInterval"
  have quit: "round_ends E c (Waiting enabled) ?s (result (ctx_err E c) (world (exec ?wait ?s)))
      ((exec ?wait ?s)\<lparr>world := exec (ctx_err E c) (world (exec ?wait ?s))\<rparr>)" if "\<not> result ?wait ?s"
    by (rule round_ends_next) (use that in \<open>simp add: run round_ends_ended\<close>)
  have retry: "round_ends E c (Waiting enabled) ?s out t" if "result ?wait ?s" "round_ends E c (Claiming (Restart enabled)) (exec ?wait ?s) out t" for t
    by (rule round_ends_next) (use that in \<open>simp add: run del: round_next.simps(2)\<close>)
  have own: "round_ends E c (Resetting tok enabled) ?s (result (reset_as_owner E c enabled) ?s)
      (exec (releaseControllerLock E tok) (exec (reset_as_owner E c enabled) ?s))" for tok
    by (rule round_ends_next) (simp add: run round_ends_unlock)
  show ?case
  proof (rule round_ends_next)
    show "round_ends E c (result (round_next E c (Claiming (Restart enabled))) s) (exec (round_next E c (Claiming (Restart enabled))) s)
        out (exec (Reset (Suc n) E c enabled) s)"
      using Suc.prems own quit retry Suc.IH by (auto simp: run round_ends_ended split: sum.splits prod.splits if_splits)
  qed
qed (simp add: run)

section \<open>One controller\<close>

text \<open>What an owner did to the shared state, and one controller that does all of it.\<close>

datatype taken = Took GatewayConfig BackendLoadSignals | SwitchedOff | Restarted bool

fun act :: "taken \<Rightarrow> AdaptiveTTLController \<Rightarrow> AdaptiveTTLController" where
  "act (Took config signals) ctl = processSignals config signals ctl"
| "act SwitchedOff ctl = setDisabled ctl"
| "act (Restarted enabled) ctl = applySnapshot (resetSnapshot enabled) ctl"

definition one :: "taken list \<Rightarrow> AdaptiveTTLController" where
  "one hist = fold act hist NewAdaptiveTTLController"

lemma one_simps [simp]: "one [] = NewAdaptiveTTLController" "one (hist @ [e]) = act e (one hist)"
  by (simp_all add: one_def)

lemma one_run_signals: "one (map (Took config) gs) = run_signals config gs NewAdaptiveTTLController"
proof -
  have "act (Took config g) = processSignals config g" for g by (simp add: fun_eq_iff)
  then show ?thesis by (simp add: one_def run_signals_def fold_map comp_def)
qed

lemma Snapshot_inj: "Snapshot a = Snapshot b \<Longrightarrow> a = (b :: AdaptiveTTLController)"
  by (simp add: Snapshot_def)

lemma apply_Snapshot [simp]: "applySnapshot (Snapshot a) b = (a :: AdaptiveTTLController)"
  by (simp add: Snapshot_def applySnapshot_def)

lemma Snapshot_apply [simp]: "Snapshot (applySnapshot x b) = x"
  by (simp add: Snapshot_def applySnapshot_def)

lemma Snapshot_new: "Snapshot NewAdaptiveTTLController = initialSnapshot"
  by (simp add: Snapshot_def NewAdaptiveTTLController_def initialSnapshot_def)

lemma apply_forgets: "applySnapshot x a = applySnapshot x (b :: AdaptiveTTLController)"
  by (simp add: applySnapshot_def)

lemma one_restarted: "one (hist @ [Restarted enabled]) = applySnapshot (resetSnapshot enabled) b"
  unfolding one_simps act.simps by (rule apply_forgets)

section \<open>The cluster\<close>

text \<open>
  Every gateway runs one round at a time. The last three components are not in the code: the
  tokens drawn so far, the lease an owner got, and what the owners published, in order.
\<close>

record 'w controllers =
  shared :: 'w
  ctl_of :: "nat \<Rightarrow> AdaptiveTTLController"
  round_at :: "nat \<Rightarrow> round_pc"
  drawn :: "string set"
  lease :: "nat \<Rightarrow> (string \<times> time) option"
  history :: "taken list"

definition seen_by :: "nat \<Rightarrow> 'w controllers \<Rightarrow> 'w csys" where
  "seen_by i x = \<lparr>world = shared x, metrics = [], controller = ctl_of x i\<rparr>"

definition moved :: "('w, 'v) env \<Rightarrow> ctx \<Rightarrow> nat \<Rightarrow> 'w controllers \<Rightarrow> 'w controllers" where
  "moved E c i x =
     (let s = seen_by i x; t = exec (round_next E c (round_at x i)) s in
      x\<lparr>shared := world t, ctl_of := (ctl_of x)(i := controller t),
        round_at := (round_at x)(i := result (round_next E c (round_at x i)) s)\<rparr>)"

fun token_of :: "round_pc \<Rightarrow> string option" where
  "token_of (Getting k) = map_option fst k"
| "token_of (Creating k) = map_option fst k"
| "token_of (Rereading k) = map_option fst k"
| "token_of (Asking tok config) = Some tok"
| "token_of (Deciding tok config signals) = Some tok"
| "token_of (Disabling tok) = Some tok"
| "token_of (Resetting tok enabled) = Some tok"
| "token_of (Unlocking tok out) = Some tok"
| "token_of _ = None"

fun publishing :: "round_pc \<Rightarrow> taken option" where
  "publishing (Deciding tok config signals) = Some (Took config signals)"
| "publishing (Disabling tok) = Some SwitchedOff"
| "publishing (Resetting tok enabled) = Some (Restarted enabled)"
| "publishing _ = None"

text \<open>What a step adds to the history: nothing, if its \<open>SET\<close> was not sent.\<close>

definition published_by :: "('w, 'v) env \<Rightarrow> ctx \<Rightarrow> nat \<Rightarrow> 'w controllers \<Rightarrow> taken list" where
  "published_by E c i x = (case result (link_status E c) (shared x) of NotSent err \<Rightarrow> []
     | _ \<Rightarrow> (case publishing (round_at x i) of None \<Rightarrow> [] | Some e \<Rightarrow> [e]))"

fun turn_fine :: "turn \<Rightarrow> bool" where
  "turn_fine (Adjust config) = go_config config"
| "turn_fine (Restart enabled) = True"

fun claims :: "round_pc \<Rightarrow> bool" where
  "claims (Claiming turn) = True"
| "claims _ = False"

fun unlocks :: "round_pc \<Rightarrow> bool" where
  "unlocks (Unlocking tok out) = True"
| "unlocks _ = False"

text \<open>
  An owner's step is served before its lease runs out; after that it takes no step, as if it
  had crashed. The last rule is what everybody else does: time passes, and the two keys of the
  controllers are left alone.
\<close>

inductive round_step :: "('w, 'v) env \<Rightarrow> ('w \<Rightarrow> 'v view) \<Rightarrow> 'w controllers \<Rightarrow> 'w controllers \<Rightarrow> bool" for E vw where
  round_begin: "round_at x i = Ended out \<Longrightarrow> turn_fine turn \<Longrightarrow>
    round_step E vw x (x\<lparr>round_at := (round_at x)(i := Claiming turn)\<rparr>)"
| round_won: "round_at x i = Claiming turn \<Longrightarrow> result (tryAcquireControllerLock E c) (seen_by i x) = Inr (tok, True) \<Longrightarrow>
    tok \<notin> drawn x \<Longrightarrow> lock_held E vw adaptiveTTLControllerLockRedisKey (exec (tryAcquireControllerLock E c) (seen_by i x)) tok e \<Longrightarrow>
    round_step E vw x ((moved E c i x)\<lparr>drawn := insert tok (drawn x), lease := (lease x)(i \<mapsto> (tok, e))\<rparr>)"
| round_refused: "round_at x i = Claiming turn \<Longrightarrow>
    (\<forall>tok. result (tryAcquireControllerLock E c) (seen_by i x) \<noteq> Inr (tok, True)) \<Longrightarrow> round_step E vw x (moved E c i x)"
| round_follow: "token_of (round_at x i) = None \<Longrightarrow> \<not> claims (round_at x i) \<Longrightarrow> round_step E vw x (moved E c i x)"
| round_own: "token_of (round_at x i) = Some tok \<Longrightarrow> \<not> unlocks (round_at x i) \<Longrightarrow> lease x i = Some (tok, e) \<Longrightarrow>
    server_time (vw (shared (moved E c i x))) < e \<Longrightarrow>
    round_step E vw x ((moved E c i x)\<lparr>history := history x @ published_by E c i x\<rparr>)"
| round_unlock: "round_at x i = Unlocking tok out \<Longrightarrow> lease x i = Some (tok, e) \<Longrightarrow>
    round_step E vw x ((moved E c i x)\<lparr>lease := (lease x)(i := None)\<rparr>)"
| round_others: "server_time (vw (shared x)) \<le> server_time (vw w) \<Longrightarrow>
    keys (vw w) adaptiveTTLControllerLockRedisKey = keys (vw (shared x)) adaptiveTTLControllerLockRedisKey \<Longrightarrow>
    keys (vw w) adaptiveTTLSnapshotRedisKey = keys (vw (shared x)) adaptiveTTLSnapshotRedisKey \<Longrightarrow>
    round_step E vw x (x\<lparr>shared := w\<rparr>)"

text \<open>A new deployment: no snapshot, no owner, every controller new.\<close>

definition controllers_start :: "('w \<Rightarrow> 'v view) \<Rightarrow> 'w controllers \<Rightarrow> bool" where
  "controllers_start vw x \<longleftrightarrow> keys (vw (shared x)) adaptiveTTLSnapshotRedisKey = None \<and> (\<forall>i. ctl_of x i = NewAdaptiveTTLController) \<and>
     (\<forall>i. round_at x i = Ended None) \<and> lease x = Map.empty \<and> history x = []"

section \<open>What is known in every reachable state\<close>

definition owner_fine :: "owner \<Rightarrow> bool" where
  "owner_fine k \<longleftrightarrow> (case k of None \<Rightarrow> True | Some (tok, config) \<Rightarrow> go_config config)"

fun pc_fine :: "round_pc \<Rightarrow> bool" where
  "pc_fine (Claiming turn) = turn_fine turn"
| "pc_fine (Getting k) = owner_fine k"
| "pc_fine (Creating k) = owner_fine k"
| "pc_fine (Rereading k) = owner_fine k"
| "pc_fine (Asking tok config) = go_config config"
| "pc_fine (Deciding tok config signals) = (go_config config \<and> rnd (P99LatencyMs signals) = P99LatencyMs signals)"
| "pc_fine _ = True"

text \<open>The owner has read the snapshot and not yet published.\<close>

fun synced :: "round_pc \<Rightarrow> bool" where
  "synced (Asking tok config) = True"
| "synced (Deciding tok config signals) = True"
| "synced (Disabling tok) = True"
| "synced _ = False"

text \<open>The server shows what one controller makes of the history.\<close>

definition shows_history :: "('w, 'v) env \<Rightarrow> 'v view \<Rightarrow> taken list \<Rightarrow> bool" where
  "shows_history E v hist \<longleftrightarrow>
     (if keys v adaptiveTTLSnapshotRedisKey = None then hist = [] else publishes E v (Snapshot (one hist)))"

text \<open>A controller that is at an earlier state of the one, or one step of its own ahead of that.\<close>

definition behind :: "taken list \<Rightarrow> AdaptiveTTLController \<Rightarrow> bool" where
  "behind hist ctl \<longleftrightarrow> (\<exists>k \<le> length hist. ctl = one (take k hist) \<or> (\<exists>e. ctl = act e (one (take k hist))))"

lemma behind_more:
  assumes "behind hist ctl"
  shows "behind (hist @ h) ctl"
proof -
  obtain k where k: "k \<le> length hist" "ctl = one (take k hist) \<or> (\<exists>e. ctl = act e (one (take k hist)))"
    using assms by (auto simp: behind_def)
  then have "k \<le> length (hist @ h)" "take k (hist @ h) = take k hist" by simp_all
  then show ?thesis using k(2) unfolding behind_def by metis
qed

lemma behind_now: "behind hist (one hist)" "behind hist (act e (one hist))"
  unfolding behind_def by (rule exI [of _ "length hist"], simp)+ (auto intro: exI [of _ "length hist"])

definition same_lock :: "'v view \<Rightarrow> 'v view \<Rightarrow> bool" where
  "same_lock v v' \<longleftrightarrow> server_time v \<le> server_time v' \<and>
     keys v' adaptiveTTLControllerLockRedisKey = keys v adaptiveTTLControllerLockRedisKey"

definition quiet_view :: "'v view \<Rightarrow> 'v view \<Rightarrow> bool" where
  "quiet_view v v' \<longleftrightarrow> server_time v \<le> server_time v' \<and> keys v' = keys v"

lemma quiet_same_lock: "quiet_view v v' \<Longrightarrow> same_lock v v'"
  by (simp add: quiet_view_def same_lock_def)

lemma quiet_trans: "quiet_view u v \<Longrightarrow> quiet_view v w \<Longrightarrow> quiet_view u w"
  by (simp add: quiet_view_def)

lemma quiet_history: "quiet_view v v' \<Longrightarrow> shows_history E v' hist = shows_history E v hist"
  by (simp add: quiet_view_def shows_history_def publishes_def)

definition current :: "('w \<Rightarrow> 'v view) \<Rightarrow> 'w controllers \<Rightarrow> nat \<Rightarrow> bool" where
  "current vw x i \<longleftrightarrow> (\<forall>tok e. lease x i = Some (tok, e) \<longrightarrow> server_time (vw (shared x)) < e \<longrightarrow> ctl_of x i = one (history x))"

abbreviation lease_good :: "('w, 'v) env \<Rightarrow> ('w \<Rightarrow> 'v view) \<Rightarrow> 'w csys \<Rightarrow> string set \<Rightarrow> (nat \<Rightarrow> (string \<times> time) option) \<Rightarrow> bool" where
  "lease_good E vw s used own \<equiv>
     lock_good (lock_clock vw) (lock_held E vw adaptiveTTLControllerLockRedisKey) (s, used, own)"

definition gateway_good :: "('w \<Rightarrow> 'v view) \<Rightarrow> 'w controllers \<Rightarrow> nat \<Rightarrow> bool" where
  "gateway_good vw x i \<longleftrightarrow> pc_fine (round_at x i) \<and>
     (\<forall>tok. token_of (round_at x i) = Some tok \<longrightarrow> (\<exists>e. lease x i = Some (tok, e))) \<and>
     (synced (round_at x i) \<longrightarrow> current vw x i) \<and> behind (history x) (ctl_of x i)"

definition controllers_good :: "('w, 'v) env \<Rightarrow> ('w \<Rightarrow> 'v view) \<Rightarrow> 'w controllers \<Rightarrow> bool" where
  "controllers_good E vw x \<longleftrightarrow> lease_good E vw (seen_by 0 x) (drawn x) (lease x) \<and>
     shows_history E (vw (shared x)) (history x) \<and> go_snapshot (Snapshot (one (history x))) \<and> (\<forall>i. gateway_good vw x i)"

lemma seen_simps [simp]: "world (seen_by i x) = shared x" "controller (seen_by i x) = ctl_of x i"
  by (simp_all add: seen_by_def)

lemma moved_simps [simp]:
  "shared (moved E c i x) = world (exec (round_next E c (round_at x i)) (seen_by i x))"
  "ctl_of (moved E c i x) = (ctl_of x)(i := controller (exec (round_next E c (round_at x i)) (seen_by i x)))"
  "round_at (moved E c i x) = (round_at x)(i := result (round_next E c (round_at x i)) (seen_by i x))"
  "drawn (moved E c i x) = drawn x" "lease (moved E c i x) = lease x" "history (moved E c i x) = history x"
  by (simp_all add: moved_def Let_def)

text \<open>Leases depend on the server alone, and survive what leaves the lock's key as it is.\<close>

lemma lease_good_world: "same_lock (vw (world s)) (vw (world t)) \<Longrightarrow> lease_good E vw s used own \<Longrightarrow> lease_good E vw t used own"
  unfolding lock_good_def lock_clock_def lock_held_def same_lock_def by fastforce

lemma same_lock_refl [simp]: "same_lock v v"
  by (simp add: same_lock_def)

text \<open>
  What a step needs to establish: about the server, the gateway that takes it, and, if it
  publishes, that its lease has not run out.
\<close>

lemma good_move:
  assumes good: "controllers_good E vw x" and inj: "\<And>a b. string_value E a = string_value E b \<Longrightarrow> a = b"
    and lock: "lease_good E vw (seen_by 0 y) (drawn y) (lease y)"
    and time: "server_time (vw (shared x)) \<le> server_time (vw (shared y))"
    and shows_y: "shows_history E (vw (shared y)) (history y)" "go_snapshot (Snapshot (one (history y)))"
    and hist: "history y = history x @ h"
    and others: "\<And>j. j \<noteq> i \<Longrightarrow> round_at y j = round_at x j \<and> ctl_of y j = ctl_of x j \<and> lease y j = lease x j"
    and own: "gateway_good vw y i"
    and alone: "h \<noteq> [] \<Longrightarrow> \<exists>tok e. lease y i = Some (tok, e) \<and> server_time (vw (shared y)) < e"
  shows "controllers_good E vw y"
proof -
  have "gateway_good vw y j" if j: "j \<noteq> i" for j
  proof -
    have g: "gateway_good vw x j" using good by (simp add: controllers_good_def)
    have "ctl_of y j = one (history y)"
      if "synced (round_at y j)" "lease y j = Some (tok, e)" "server_time (vw (shared y)) < e" for tok e
    proof -
      have "h = []"
      proof (rule ccontr)
        assume "h \<noteq> []"
        then obtain tok' e' where i: "lease y i = Some (tok', e')" "server_time (vw (shared y)) < e'" using alone by blast
        have "lock_held E vw adaptiveTTLControllerLockRedisKey (seen_by 0 y) tok e"
            "lock_held E vw adaptiveTTLControllerLockRedisKey (seen_by 0 y) tok' e'"
          using lock_goodD(2) [OF lock that(2)] lock_goodD(2) [OF lock i(1)] that(3) i(2) by (simp_all add: lock_clock_def)
        then have "tok' = tok" using inj by (simp add: lock_held_def)
        then show False using lock_goodD(3) [OF lock that(2), of i e'] i(1) j by simp
      qed
      moreover have "server_time (vw (shared x)) < e" using time that(3) by (rule order_le_less_trans)
      moreover have "lease x j = Some (tok, e)" "synced (round_at x j)" using others [OF j] that(1,2) by simp_all
      ultimately have "ctl_of x j = one (history x)" using g unfolding gateway_good_def current_def by blast
      then show ?thesis using others [OF j] hist \<open>h = []\<close> by simp
    qed
    then show ?thesis using g others [OF j] behind_more hist by (auto simp: gateway_good_def current_def)
  qed
  then show ?thesis using assms by (simp add: controllers_good_def) (metis own)
qed

section \<open>Every step\<close>

text \<open>What a step of a program counter that holds no claim does, if its controller is synchronised.\<close>

definition progress :: "('w, 'v) env \<Rightarrow> ('w \<Rightarrow> 'v view) \<Rightarrow> taken list \<Rightarrow> taken list \<Rightarrow> 'w csys \<Rightarrow> round_pc \<Rightarrow> 'w csys \<Rightarrow> round_pc \<Rightarrow> bool" where
  "progress E vw hist h s pc t pc' \<longleftrightarrow> same_lock (vw (world s)) (vw (world t)) \<and>
     shows_history E (vw (world t)) (hist @ h) \<and> go_snapshot (Snapshot (one (hist @ h))) \<and>
     pc_fine pc' \<and> token_of pc' = token_of pc \<and> (synced pc' \<longrightarrow> h = [] \<and> controller t = one hist) \<and>
     (controller t = controller s \<or> controller t = one hist \<or> (\<exists>e. controller t = act e (one hist)))"

text \<open>
  The contract of the world: waiting and asking change nothing in Redis but the time, and the
  latency the backend reports is a \<open>float64\<close>.
\<close>

locale controller_fleet = redis_adaptive E vw for E :: "('w, 'v) env" and vw :: "'w \<Rightarrow> 'v view" +
  assumes sleep_quiet: "vw (exec (sleep_or_done E c d) w) = served vw (sleep_or_done E c d) w"
    and sleep_time: "time_passes vw (sleep_or_done E c d) w"
    and ctx_quiet: "vw (exec (ctx_err E c) w) = served vw (ctx_err E c) w"
    and ctx_time: "time_passes vw (ctx_err E c) w"
    and load_float: "result (http_get_load E c) w = Inr (code, Some g) \<Longrightarrow> rnd (P99LatencyMs g) = P99LatencyMs g"
begin

lemma world_quiet: "vw (exec m w) = served vw m w \<Longrightarrow> time_passes vw m w \<Longrightarrow> quiet_view (vw w) (vw (exec m w))"
  unfolding quiet_view_def time_passes_def by (metis served_simps(1))

lemma redis_quiet:
  assumes "\<And>w. vw (exec m w) = served vw m w" and "\<And>w. time_passes vw m w"
  shows "quiet_view (vw (world s)) (vw (world (exec (redis E c m) s)))"
proof -
  obtain t w1 where t: "server_time (vw (world s)) \<le> t" "vw w1 = (vw (world s))\<lparr>server_time := t\<rparr>"
      "world (exec (redis E c m) s) = w1 \<or> world (exec (redis E c m) s) = exec m w1"
    using redis_any [of s c m] by blast
  have a: "quiet_view (vw (world s)) (vw w1)" using t(1,2) by (simp add: quiet_view_def)
  then show ?thesis using t(3) quiet_trans [OF a world_quiet [OF assms]] by auto
qed

lemmas get_quiet = redis_quiet [OF get_effect get_time]

text \<open>What a read of the snapshot returns, if it returns.\<close>

lemma get_shown:
  assumes shown: "shows_history E (vw (world s)) hist"
    and r: "result (redis E c (c_get E adaptiveTTLSnapshotRedisKey)) s = Inr v"
  shows "case v of None \<Rightarrow> hist = [] | Some d \<Rightarrow> dec_snapshot E d = Some (Snapshot (one hist))"
proof -
  let ?K = adaptiveTTLSnapshotRedisKey
  obtain t w1 where w1: "vw w1 = (vw (world s))\<lparr>server_time := t\<rparr>" "result (redis E c (c_get E ?K)) s = Inr (result (c_get E ?K) w1)"
    using redis_any [of s c "c_get E ?K"] r by auto
  have k: "keys (vw w1) = keys (vw (world s))" using w1(1) by simp
  have v: "v = lookup_at (served vw (c_get E ?K) w1) ?K" using w1(2) r get_result [of ?K w1] by simp
  show ?thesis
  proof (cases "keys (vw (world s)) ?K")
    case None
    then show ?thesis using v k shown by (simp add: shows_history_def lookup_at_None)
  next
    case (Some a)
    then obtain d where "keys (vw (world s)) ?K = Some (d, None)" "dec_snapshot E d = Some (Snapshot (one hist))"
      using shown by (auto simp: shows_history_def publishes_def)
    then show ?thesis using v k by (simp add: lookup_at_def)
  qed
qed

lemma decoded_shown:
  assumes "shows_history E (vw (world s)) hist"
    and "decode_snapshot E (result (redis E c (c_get E adaptiveTTLSnapshotRedisKey)) s) = Inr x"
  shows "x = Snapshot (one hist)"
  using get_shown [OF assms(1), of c] assms(2)
  by (auto simp: decode_snapshot_def split: sum.splits option.splits if_splits)

text \<open>Creating the snapshot, if there is none.\<close>

lemma create_effect:
  fixes c :: ctx and s :: "('w, 'x) csys_scheme"
  assumes shown: "shows_history E (vw (world s)) hist" and d: "enc_snapshot E initialSnapshot = Some d"
  defines "t \<equiv> exec (redis E c (c_setnx E adaptiveTTLSnapshotRedisKey d 0)) s"
  shows "same_lock (vw (world s)) (vw (world t))" and "shows_history E (vw (world t)) hist"
    and "result (redis E c (c_setnx E adaptiveTTLSnapshotRedisKey d 0)) s = Inr True \<Longrightarrow> hist = []"
proof -
  let ?K = adaptiveTTLSnapshotRedisKey and ?v = "vw (world s)"
  let ?m = "c_setnx E ?K d 0"
  obtain u w1 where u: "server_time ?v \<le> u" "vw w1 = ?v\<lparr>server_time := u\<rparr>"
    and ran: "(result (redis E c ?m) s = Inr (result ?m w1) \<and> world t = exec ?m w1) \<or>
      (\<exists>err. result (redis E c ?m) s = Inl err \<and> (world t = w1 \<or> world t = exec ?m w1))"
    using redis_any [of s c ?m] unfolding t_def by blast
  obtain t' where t': "u \<le> t'" and eff: "if lookup_at (?v\<lparr>server_time := t'\<rparr>) ?K = None
    then result ?m w1 \<and> (\<exists>e. expiry_for (?v\<lparr>server_time := t'\<rparr>) 0 e \<and> vw (exec ?m w1) = put_key ?K d e (?v\<lparr>server_time := t'\<rparr>))
    else \<not> result ?m w1 \<and> vw (exec ?m w1) = ?v\<lparr>server_time := t'\<rparr>"
    using setnx_world [OF _ u(2), of 0 ?K d] by (auto simp: ttl_ok_def simp del: view_time)
  have "go_snapshot initialSnapshot" using rnd_of_int [of 1]
    by (simp add: go_snapshot_def initialSnapshot_def adaptiveTTLInitialFactor_def in64_def)
  then have dec: "dec_snapshot E d = Some (Snapshot (one []))" using snapshot_json d by (fastforce simp: Snapshot_new)
  have absent: "lookup_at (?v\<lparr>server_time := t'\<rparr>) ?K = None \<longleftrightarrow> keys ?v ?K = None"
    using shown by (auto simp: shows_history_def publishes_def lookup_at_def split: if_splits)
  have w: "vw (exec ?m w1) = (if keys ?v ?K = None then put_key ?K d None (?v\<lparr>server_time := t'\<rparr>) else ?v\<lparr>server_time := t'\<rparr>)"
      "result ?m w1 \<longleftrightarrow> keys ?v ?K = None"
    using eff unfolding absent by (auto simp: expiry_for_def split: if_splits)
  have at: "vw (world t) = ?v\<lparr>server_time := u\<rparr> \<or> vw (world t) = ?v\<lparr>server_time := t'\<rparr> \<or>
      (keys ?v ?K = None \<and> vw (world t) = put_key ?K d None (?v\<lparr>server_time := t'\<rparr>))"
    using ran w u(2) by (auto simp del: view_time)
  show "same_lock ?v (vw (world t))" using at u(1) t' by (auto simp: same_lock_def simp del: view_time)
  show "hist = []" if "result (redis E c ?m) s = Inr True"
    using that ran w(2) shown by (auto simp: shows_history_def)
  show "shows_history E (vw (world t)) hist"
    using at shown dec by (auto simp: shows_history_def publishes_def simp del: view_time)
qed

text \<open>Publishing: the \<open>SET\<close> is served, or was not sent.\<close>

lemma save_effect:
  fixes c :: ctx and s :: "('w, 'x) csys_scheme"
  assumes go: "go_snapshot x"
  defines "t \<equiv> exec (saveSharedSnapshot E c x) s"
  shows "same_lock (vw (world s)) (vw (world t))" and "controller t = controller s"
    and "case result (link_status E c) (world s) of
        NotSent err \<Rightarrow> quiet_view (vw (world s)) (vw (world t)) \<and> result (saveSharedSnapshot E c x) s \<noteq> None
      | _ \<Rightarrow> keys (vw (world t)) adaptiveTTLSnapshotRedisKey \<noteq> None \<and> publishes E (vw (world t)) x"
proof -
  let ?K = adaptiveTTLSnapshotRedisKey and ?w1 = "exec (link_status E c) (world s)"
  obtain d where d: "enc_snapshot E x = Some d" "dec_snapshot E d = Some x" using snapshot_json [OF go] by blast
  let ?m = "c_set E ?K d 0"
  have link: "quiet_view (vw (world s)) (vw ?w1)" by (rule world_quiet [OF link_quiet link_time])
  have "vw (exec ?m ?w1) = put_key ?K d None (served vw ?m ?w1)"
    using set_effect [of 0 ?K d ?w1] by (auto simp: ttl_ok_def expiry_for_def)
  then have "keys (vw (exec ?m ?w1)) = (keys (vw ?w1))(?K \<mapsto> (d, None))" by (metis served_simps(1) view_fields(1))
  then have set: "same_lock (vw (world s)) (vw (exec ?m ?w1))" "keys (vw (exec ?m ?w1)) ?K = Some (d, None)"
    using link set_time [of ?K d 0 ?w1] by (auto simp: same_lock_def quiet_view_def time_passes_def)
  have t: "t = exec (redis E c ?m) s" "result (saveSharedSnapshot E c x) s = None \<longleftrightarrow> (\<exists>a. result (redis E c ?m) s = Inr a)"
    using d(1) by (auto simp: t_def saveSharedSnapshot_def run split: sum.split)
  show "controller t = controller s" by (simp add: t(1))
  show "same_lock (vw (world s)) (vw (world t))"
    using quiet_same_lock [OF link] set(1) by (auto simp: t(1) redis_def redis_do_def run split: link.split)
  show "case result (link_status E c) (world s) of
        NotSent err \<Rightarrow> quiet_view (vw (world s)) (vw (world t)) \<and> result (saveSharedSnapshot E c x) s \<noteq> None
      | _ \<Rightarrow> keys (vw (world t)) ?K \<noteq> None \<and> publishes E (vw (world t)) x"
    using link set(2) d(2) unfolding t(2) unfolding t(1)
    by (auto simp: publishes_def redis_def redis_do_def run split: link.split)
qed

lemma progress_loaded:
  assumes shown: "shows_history E (vw (world s)) hist" "go_snapshot (Snapshot (one hist))"
    and before: "same_lock (vw (world s0)) (vw (world s))" "controller s = controller s0"
    and r: "\<And>x. r = Inr x \<Longrightarrow> x = Snapshot (one hist)" and k: "owner_fine k" "token_of pc = map_option fst k"
  shows "progress E vw hist [] s0 pc (exec (loaded k r) s) (result (loaded k r) s)"
  using shown before k r
  by (cases r; cases k) (auto simp: loaded_def stop_def progress_def run owner_fine_def)

lemma progress_read:
  assumes shown: "shows_history E (vw (world s)) hist" "go_snapshot (Snapshot (one hist))" and k: "owner_fine k"
    and pc: "pc = Getting k \<or> pc = Rereading k"
  shows "progress E vw hist [] s pc (exec (round_next E c pc) s) (result (round_next E c pc) s)"
proof -
  let ?m = "redis E c (c_get E adaptiveTTLSnapshotRedisKey)"
  let ?t = "exec ?m s"
  have q: "quiet_view (vw (world s)) (vw (world ?t))" by (rule get_quiet)
  have t: "shows_history E (vw (world ?t)) hist" using shown(1) by (simp add: quiet_history [OF q])
  have tok: "token_of pc = map_option fst k" using pc by auto
  note fin = progress_loaded [OF t shown(2) quiet_same_lock [OF q] _ _ k tok]
  have d: "progress E vw hist [] s pc (exec (loaded k (decode_snapshot E (result ?m s))) ?t) (result (loaded k (decode_snapshot E (result ?m s))) ?t)"
    by (rule fin) (simp, rule decoded_shown [OF shown(1)])
  have "progress E vw hist [] s pc ?t (Creating k)"
    using quiet_same_lock [OF q] t shown(2) k tok by (simp add: progress_def)
  then show ?thesis using pc d by (auto simp: run split: sum.split option.split)
qed

lemma progress_create:
  assumes shown: "shows_history E (vw (world s)) hist" "go_snapshot (Snapshot (one hist))" and k: "owner_fine k"
  shows "progress E vw hist [] s (Creating k) (exec (round_next E c (Creating k)) s) (result (round_next E c (Creating k)) s)"
proof (cases "enc_snapshot E initialSnapshot")
  case None
  then show ?thesis using progress_loaded [OF shown, of s "Inl err" k "Creating k" for err] k by simp
next
  case (Some d)
  let ?m = "redis E c (c_setnx E adaptiveTTLSnapshotRedisKey d 0)"
  note eff = create_effect [OF shown(1) Some, of c]
  note fin = progress_loaded [OF eff(2) shown(2) eff(1) _ _ k, where pc = "Creating k"]
  have "progress E vw hist [] s (Creating k) (exec ?m s) (Rereading k)"
    using eff(1,2) shown(2) k by (simp add: progress_def)
  moreover have "progress E vw hist [] s (Creating k) (exec (loaded k (Inl err)) (exec ?m s)) (result (loaded k (Inl err)) (exec ?m s))" for err
    by (rule fin) simp_all
  moreover have "progress E vw hist [] s (Creating k) (exec (loaded k (Inr initialSnapshot)) (exec ?m s))
      (result (loaded k (Inr initialSnapshot)) (exec ?m s))" if "result ?m s = Inr True"
    by (rule fin) (use eff(3) [OF that] in \<open>simp_all add: Snapshot_new\<close>)
  ultimately show ?thesis using Some by (cases "result ?m s") (auto simp: run)
qed

lemma progress_ask:
  assumes shown: "shows_history E (vw (world s)) hist" "go_snapshot (Snapshot (one hist))"
    and sync: "controller s = one hist" and g: "go_config config"
  shows "progress E vw hist [] s (Asking tok config) (exec (round_next E c (Asking tok config)) s)
    (result (round_next E c (Asking tok config)) s)"
proof -
  let ?m = "readBackendLoadSignals E c"
  have e: "exec ?m s = s\<lparr>world := exec (http_get_load E c) (world s)\<rparr>"
    by (auto simp: readBackendLoadSignals_def run split: sum.split option.split)
  have q: "quiet_view (vw (world s)) (vw (exec (http_get_load E c) (world s)))" by (rule world_quiet [OF http_quiet http_time])
  have p: "rnd (P99LatencyMs x) = P99LatencyMs x" if "result ?m s = Inr x" for x
    using that load_float by (auto simp: readBackendLoadSignals_def run split: sum.splits option.splits if_splits)
  show ?thesis
    using shown sync g p quiet_same_lock [OF q] e
    by (auto simp: progress_def run quiet_history [OF q] split: sum.split)
qed

text \<open>The three steps that publish.\<close>

lemma progress_save:
  assumes shown: "shows_history E (vw (world s)) hist" "go_snapshot (Snapshot (one hist))"
    and e: "go_snapshot (Snapshot (act e (one hist)))"
    and s': "world s' = world s" and t: "t = exec (saveSharedSnapshot E c (Snapshot (act e (one hist)))) s'"
    and u: "world u = world t" "controller u \<in> {controller s, one hist, act e (one hist)}"
    and h: "h = (case result (link_status E c) (world s) of NotSent err \<Rightarrow> [] | _ \<Rightarrow> [e])"
    and tok: "token_of pc = Some tok"
  shows "progress E vw hist h s pc u (Unlocking tok out)"
proof -
  note sv = save_effect [OF e, where s = s' and c = c, folded t, unfolded s']
  have "shows_history E (vw (world t)) (hist @ h) \<and> go_snapshot (Snapshot (one (hist @ h)))"
  proof (cases "result (link_status E c) (world s)")
    case NotSent
    then have "quiet_view (vw (world s)) (vw (world t))" using sv(3) by simp
    from quiet_history [OF this, of E hist] show ?thesis using NotSent shown h by simp
  qed (use sv(3) e h in \<open>simp_all add: shows_history_def\<close>)
  then show ?thesis using sv(1) u tok by (auto simp: progress_def)
qed

lemma go_act:
  assumes "go_snapshot (Snapshot (one hist))" and "pc_fine pc" and "publishing pc = Some e"
  shows "go_snapshot (Snapshot (act e (one hist)))"
proof (cases pc)
  case (Deciding tok config g)
  then show ?thesis using assms by (auto simp: go_config_def intro!: process_go_snapshot)
next
  case (Disabling tok)
  then show ?thesis using assms rnd_of_int [of 1]
    by (auto simp: go_snapshot_def Snapshot_def setDisabled_def adaptiveTTLInitialFactor_def in64_def)
next
  case (Resetting tok b)
  then show ?thesis using assms rnd_of_int [of 1]
    by (auto simp: go_snapshot_def Snapshot_def applySnapshot_def resetSnapshot_def adaptiveTTLInitialFactor_def in64_def)
qed (use assms in auto)

lemma progress_publish:
  assumes shown: "shows_history E (vw (world s)) hist" "go_snapshot (Snapshot (one hist))"
    and fine: "pc_fine pc" and e: "publishing pc = Some e" and tok: "token_of pc = Some tok"
    and sync: "synced pc \<Longrightarrow> controller s = one hist"
    and h: "h = (case result (link_status E c) (world s) of NotSent err \<Rightarrow> [] | _ \<Rightarrow> [e])"
  shows "progress E vw hist h s pc (exec (round_next E c pc) s) (result (round_next E c pc) s)"
proof -
  note go = go_act [OF shown(2) fine e]
  note save = progress_save [OF shown go _ refl _ _ h tok]
  show ?thesis
  proof (cases pc)
    case (Deciding tok' config g)
    let ?s = "s\<lparr>controller := act e (one hist)\<rparr>"
    have "e = Took config g" "tok' = tok" using Deciding e tok by simp_all
    then show ?thesis using save [of ?s] save_effect(2) [OF go, of c ?s] Deciding sync by (simp add: run)
  next
    case (Disabling tok')
    let ?s = "s\<lparr>controller := act e (one hist)\<rparr>"
    have "e = SwitchedOff" "tok' = tok" using Disabling e tok by simp_all
    then show ?thesis using save [of ?s] save_effect(2) [OF go, of c ?s] Disabling sync by (simp add: run)
  next
    case (Resetting tok' b)
    let ?x = "resetSnapshot b" and ?t = "exec (saveSharedSnapshot E c (resetSnapshot b)) s"
    have er: "e = Restarted b" "tok' = tok" using Resetting e tok by simp_all
    have x: "Snapshot (act e (one hist)) = ?x" by (simp add: er)
    note sv = save [of s, unfolded x] save_effect(2) [OF go [unfolded x], of c s]
    have "controller (?t\<lparr>controller := applySnapshot ?x (controller ?t)\<rparr>) = act e (one hist)"
      by (simp add: er) (rule apply_forgets)
    then show ?thesis using sv Resetting er
      by (cases "result (saveSharedSnapshot E c ?x) s") (auto simp: reset_as_owner_def run)
  qed (use e in auto)
qed

lemma progress_wait:
  assumes shown: "shows_history E (vw (world s)) hist" "go_snapshot (Snapshot (one hist))"
  shows "progress E vw hist [] s (Waiting b) (exec (round_next E c (Waiting b)) s) (result (round_next E c (Waiting b)) s)"
proof -
  let ?w = "exec (sleep_or_done E c adaptiveTTLControllerLockPollInterval) (world s)"
  have a: "quiet_view (vw (world s)) (vw ?w)" by (rule world_quiet [OF sleep_quiet sleep_time])
  have b: "quiet_view (vw (world s)) (vw (exec (ctx_err E c) ?w))" by (rule quiet_trans [OF a world_quiet [OF ctx_quiet ctx_time]])
  show ?thesis
    using shown quiet_same_lock [OF a] quiet_same_lock [OF b]
    by (simp add: progress_def run waitForAdaptiveTTLInterval_def quiet_history [OF a] quiet_history [OF b])
qed

text \<open>Any step but a claim or a release.\<close>

lemma progress_step:
  assumes shown: "shows_history E (vw (world s)) hist" "go_snapshot (Snapshot (one hist))"
    and fine: "pc_fine pc" and pc: "\<not> claims pc" "\<not> unlocks pc"
    and sync: "synced pc \<Longrightarrow> controller s = one hist"
    and h: "h = (case result (link_status E c) (world s) of NotSent err \<Rightarrow> [] | _ \<Rightarrow> (case publishing pc of None \<Rightarrow> [] | Some e \<Rightarrow> [e]))"
  shows "progress E vw hist h s pc (exec (round_next E c pc) s) (result (round_next E c pc) s)"
proof (cases "publishing pc")
  case None
  then have h: "h = []" by (simp add: h split: link.split)
  have sh: "publishing pc = None" by (rule None)
  show ?thesis unfolding h
  proof (cases pc)
    case (Getting k)
    then show "progress E vw hist [] s pc (exec (round_next E c pc) s) (result (round_next E c pc) s)"
      by (intro progress_read [OF shown, where k = k]) (use fine in simp_all)
  next
    case (Rereading k)
    then show "progress E vw hist [] s pc (exec (round_next E c pc) s) (result (round_next E c pc) s)"
      by (intro progress_read [OF shown, where k = k]) (use fine in simp_all)
  next
    case (Creating k)
    then show "progress E vw hist [] s pc (exec (round_next E c pc) s) (result (round_next E c pc) s)"
      using progress_create [OF shown] fine by simp
  next
    case (Asking tok config)
    then show "progress E vw hist [] s pc (exec (round_next E c pc) s) (result (round_next E c pc) s)"
      using progress_ask [OF shown] fine sync by simp
  next
    case (Waiting b)
    then show "progress E vw hist [] s pc (exec (round_next E c pc) s) (result (round_next E c pc) s)"
      using progress_wait [OF shown] by simp
  next
    case (Ended out)
    then show "progress E vw hist [] s pc (exec (round_next E c pc) s) (result (round_next E c pc) s)"
      using shown by (simp add: progress_def run)
  qed (use None pc in simp_all)
next
  case (Some e)
  obtain tok where tok: "token_of pc = Some tok" using Some by (cases pc) simp_all
  have "h = (case result (link_status E c) (world s) of NotSent err \<Rightarrow> [] | _ \<Rightarrow> [e])"
    unfolding h Some by (simp split: link.split)
  then show ?thesis by (rule progress_publish [OF shown fine Some tok sync, rotated])
qed

lemma save_time: "server_time (vw (world s)) \<le> server_time (vw (world (exec (saveSharedSnapshot E c x) s)))"
proof (cases "enc_snapshot E x")
  case (Some d)
  let ?m = "c_set E adaptiveTTLSnapshotRedisKey d 0"
  obtain t w1 where t: "server_time (vw (world s)) \<le> t" "vw w1 = (vw (world s))\<lparr>server_time := t\<rparr>"
      "world (exec (redis E c ?m) s) = w1 \<or> world (exec (redis E c ?m) s) = exec ?m w1"
    using redis_any [of s c ?m] by blast
  have "t \<le> server_time (vw (exec ?m w1))"
    using set_time [of adaptiveTTLSnapshotRedisKey d 0 w1] t(2) by (simp add: time_passes_def)
  moreover have "exec (saveSharedSnapshot E c x) s = exec (redis E c ?m) s"
    using Some by (simp add: saveSharedSnapshot_def run split: sum.split)
  ultimately show ?thesis using t by auto
qed (simp add: saveSharedSnapshot_def run)

lemma synced_time:
  assumes "synced pc"
  shows "server_time (vw (world s)) \<le> server_time (vw (world (exec (round_next E c pc) s)))"
proof (cases pc)
  case (Asking tok config)
  have "quiet_view (vw (world s)) (vw (exec (http_get_load E c) (world s)))" by (rule world_quiet [OF http_quiet http_time])
  then show ?thesis
    by (auto simp: Asking run readBackendLoadSignals_def quiet_view_def split: sum.split option.split)
next
  case (Deciding tok config g)
  then show ?thesis using save_time [of "s\<lparr>controller := x\<rparr>" c y for x y] by (simp add: run)
next
  case (Disabling tok)
  then show ?thesis using save_time [of "s\<lparr>controller := x\<rparr>" c y for x y] by (simp add: run)
qed (use assms in simp_all)

lemma good_progress:
  assumes good: "controllers_good E vw x"
    and p: "progress E vw (history x) h (seen_by i x) (round_at x i) t pc'"
    and y: "shared y = world t" "ctl_of y = (ctl_of x)(i := controller t)" "round_at y = (round_at x)(i := pc')"
      "drawn y = drawn x" "lease y = lease x" "history y = history x @ h"
    and alone: "h \<noteq> [] \<Longrightarrow> \<exists>tok e. lease x i = Some (tok, e) \<and> server_time (vw (world t)) < e"
  shows "controllers_good E vw y"
proof (rule good_move [OF good string_value_inj, where i = i and h = h])
  have same: "same_lock (vw (shared x)) (vw (shared y))" using p by (simp add: progress_def y(1))
  have g: "gateway_good vw x i" using good by (simp add: controllers_good_def)
  show "lease_good E vw (seen_by 0 y) (drawn y) (lease y)"
    using good lease_good_world [of vw "seen_by 0 x" "seen_by 0 y"] same by (simp add: controllers_good_def y(4,5))
  show "server_time (vw (shared x)) \<le> server_time (vw (shared y))" using same by (simp add: same_lock_def)
  show "shows_history E (vw (shared y)) (history y)" "go_snapshot (Snapshot (one (history y)))"
    using p by (simp_all add: progress_def y(1,6))
  have "behind (history x) (ctl_of y i)"
    using p g behind_now [of "history x"] by (auto simp: progress_def gateway_good_def y(2))
  then have "behind (history y) (ctl_of y i)" unfolding y(6) by (rule behind_more)
  then show "gateway_good vw y i"
    using p g by (auto simp: progress_def gateway_good_def current_def y)
qed (use y alone in \<open>simp_all\<close>)

lemma shown_key:
  "keys v' adaptiveTTLSnapshotRedisKey = keys v adaptiveTTLSnapshotRedisKey \<Longrightarrow> shows_history E v hist \<Longrightarrow> shows_history E v' hist"
  unfolding shows_history_def publishes_def by simp

lemma attempt_shown:
  assumes "shows_history E (vw (world s)) hist"
  shows "shows_history E (vw (world (exec (tryAcquireControllerLock E c) s))) hist"
    and "server_time (vw (world s)) \<le> server_time (vw (world (exec (tryAcquireControllerLock E c) s)))"
proof -
  obtain t where le: "server_time (vw (world s)) \<le> t" and att: "lock_attempt E adaptiveTTLControllerLockRedisKey adaptiveTTLControllerLockTTL
      ((vw (world s))\<lparr>server_time := t\<rparr>) (result (tryAcquireControllerLock E c) s) (vw (world (exec (tryAcquireControllerLock E c) s)))"
    using controller_attempt by blast
  from att have "server_time (vw (world s)) \<le> server_time (vw (world (exec (tryAcquireControllerLock E c) s))) \<and>
      keys (vw (world (exec (tryAcquireControllerLock E c) s))) adaptiveTTLSnapshotRedisKey = keys (vw (world s)) adaptiveTTLSnapshotRedisKey"
    by (cases rule: lock_attempt.cases) (use le in auto)
  then show "shows_history E (vw (world (exec (tryAcquireControllerLock E c) s))) hist"
      "server_time (vw (world s)) \<le> server_time (vw (world (exec (tryAcquireControllerLock E c) s)))"
    using assms shown_key by auto
qed

lemma release_shown:
  assumes "shows_history E (vw (world s)) hist"
  shows "shows_history E (vw (world (exec (releaseControllerLock E tok) s))) hist"
    and "server_time (vw (world s)) \<le> server_time (vw (world (exec (releaseControllerLock E tok) s)))"
proof -
  let ?v' = "vw (world (exec (releaseControllerLock E tok) s))"
  have "release_shape E adaptiveTTLControllerLockRedisKey tok (vw (world s)) ?v'"
    unfolding releaseControllerLock_same by (rule release_shape_lock)
  then have "server_time (vw (world s)) \<le> server_time ?v' \<and>
      keys ?v' adaptiveTTLSnapshotRedisKey = keys (vw (world s)) adaptiveTTLSnapshotRedisKey"
    by (auto simp: release_shape_def)
  then show "shows_history E ?v' hist" "server_time (vw (world s)) \<le> server_time ?v'"
    using assms shown_key by auto
qed

text \<open>Claims and releases, as steps of the lock's own contract.\<close>

lemma claimed_gateway:
  assumes "gateway_good vw x i" and "round_at x i = Claiming turn" and "result (tryAcquireControllerLock E c) (seen_by i x) = r"
    and y: "ctl_of y i = ctl_of x i" "round_at y i = result (round_next E c (round_at x i)) (seen_by i x)" "history y = history x"
    and l: "\<And>tok. r = Inr (tok, True) \<Longrightarrow> \<exists>e. lease y i = Some (tok, e)"
  shows "gateway_good vw y i"
  using assms by (cases turn; cases r) (auto simp: gateway_good_def owner_fine_def run split: prod.split)

lemma good_claim:
  assumes good: "controllers_good E vw x" and at: "round_at x i = Claiming turn"
    and lock: "lease_good E vw (exec (tryAcquireControllerLock E c) (seen_by i x)) (drawn y) (lease y)"
    and y: "shared y = world (exec (tryAcquireControllerLock E c) (seen_by i x))" "ctl_of y = ctl_of x"
      "round_at y = (round_at x)(i := result (round_next E c (round_at x i)) (seen_by i x))" "history y = history x"
    and others: "\<And>j. j \<noteq> i \<Longrightarrow> lease y j = lease x j"
    and won: "\<And>tok. result (tryAcquireControllerLock E c) (seen_by i x) = Inr (tok, True) \<Longrightarrow> \<exists>e. lease y i = Some (tok, e)"
  shows "controllers_good E vw y"
proof (rule good_move [OF good string_value_inj, where i = i and h = "[]"])
  let ?t = "exec (tryAcquireControllerLock E c) (seen_by i x)"
  show "lease_good E vw (seen_by 0 y) (drawn y) (lease y)"
    using lease_good_world [OF _ lock, where t = "seen_by 0 y"] by (simp add: y(1))
  have shown: "shows_history E (vw (world (seen_by i x))) (history x)" using good by (simp add: controllers_good_def)
  show "shows_history E (vw (shared y)) (history y)" "server_time (vw (shared x)) \<le> server_time (vw (shared y))"
    using attempt_shown [OF shown, of c] by (simp_all add: y)
  show "go_snapshot (Snapshot (one (history y)))" using good by (simp add: controllers_good_def y)
  have "gateway_good vw x i" using good by (simp add: controllers_good_def)
  then show "gateway_good vw y i" by (rule claimed_gateway [OF _ at refl]) (use y won in simp_all)
qed (use y others in simp_all)

lemma moved_claim:
  "round_at x i = Claiming turn \<Longrightarrow> exec (round_next E c (round_at x i)) (seen_by i x) = exec (tryAcquireControllerLock E c) (seen_by i x)"
  by (simp add: run)

lemma lease_seen: "lease_good E vw (seen_by 0 x) used own \<Longrightarrow> lease_good E vw (seen_by i x) used own"
  by (rule lease_good_world) simp_all

lemmas lock_law = lock_service.lock_good_step [OF controller_service]

lemma good_step:
  assumes good: "controllers_good E vw x" and step: "round_step E vw x y"
  shows "controllers_good E vw y"
  using step
proof cases
  case (round_begin i out turn)
  have "gateway_good vw x i" using good by (simp add: controllers_good_def)
  then have "gateway_good vw y i" by (simp add: round_begin gateway_good_def)
  then show ?thesis
    by (intro good_move [OF good string_value_inj, where i = i and h = "[]"])
      (use good lease_good_world [of vw "seen_by 0 x" "seen_by 0 y"] in \<open>simp_all add: controllers_good_def round_begin(1)\<close>)
next
  case (round_won i turn c tok e)
  let ?t = "exec (tryAcquireControllerLock E c) (seen_by i x)"
  have "lease_good E vw (seen_by i x) (drawn x) (lease x)" using good lease_seen by (simp add: controllers_good_def)
  then have "lease_good E vw ?t (insert tok (drawn x)) ((lease x)(i \<mapsto> (tok, e)))"
    by (rule lock_law) (rule lock_acquire [where acq = "tryAcquireControllerLock E" and c = c], (rule round_won)+)
  then show ?thesis
    by (intro good_claim [OF good round_won(2), where c = c])
      (use round_won(3) in \<open>simp_all add: round_won(1) moved_claim [OF round_won(2)] attempt_keeps_controller\<close>)
next
  case (round_refused i turn c)
  let ?t = "exec (tryAcquireControllerLock E c) (seen_by i x)"
  have "lease_good E vw (seen_by i x) (drawn x) (lease x)" using good lease_seen by (simp add: controllers_good_def)
  then have "lease_good E vw ?t (drawn x) (lease x)"
    by (rule lock_law) (rule lock_refused [where acq = "tryAcquireControllerLock E" and c = c], rule round_refused)
  then show ?thesis
    by (intro good_claim [OF good round_refused(2), where c = c])
      (use round_refused(3) in \<open>simp_all add: round_refused(1) moved_claim [OF round_refused(2)] attempt_keeps_controller\<close>)
next
  case (round_follow i c)
  have g: "gateway_good vw x i" "shows_history E (vw (world (seen_by i x))) (history x)" "go_snapshot (Snapshot (one (history x)))"
    using good by (simp_all add: controllers_good_def)
  have pc: "publishing (round_at x i) = None" "\<not> synced (round_at x i)" "\<not> unlocks (round_at x i)"
    using round_follow(2) by (cases "round_at x i"; simp)+
  have "progress E vw (history x) [] (seen_by i x) (round_at x i) (exec (round_next E c (round_at x i)) (seen_by i x))
      (result (round_next E c (round_at x i)) (seen_by i x))"
    by (rule progress_step [OF g(2,3)]) (use g(1) pc round_follow(3) in \<open>simp_all add: gateway_good_def split: link.split\<close>)
  then show ?thesis by (rule good_progress [OF good]) (simp_all add: round_follow(1))
next
  case (round_own i tok e c)
  have g: "gateway_good vw x i" "shows_history E (vw (world (seen_by i x))) (history x)" "go_snapshot (Snapshot (one (history x)))"
    using good by (simp_all add: controllers_good_def)
  let ?t = "exec (round_next E c (round_at x i)) (seen_by i x)"
  have claims: "\<not> claims (round_at x i)" using round_own(2) by (cases "round_at x i") simp_all
  have sync: "ctl_of x i = one (history x)" if "synced (round_at x i)"
    using g(1) that synced_time [OF that, where s = "seen_by i x" and c = c] round_own(4,5)
    by (auto simp: gateway_good_def current_def)
  have "progress E vw (history x) (published_by E c i x) (seen_by i x) (round_at x i) ?t
      (result (round_next E c (round_at x i)) (seen_by i x))"
    by (rule progress_step [OF g(2,3) _ claims round_own(3)])
      (use g(1) sync in \<open>simp_all add: gateway_good_def published_by_def split: link.split\<close>)
  then show ?thesis by (rule good_progress [OF good]) (use round_own(4,5) in \<open>simp_all add: round_own(1)\<close>)
next
  case (round_unlock i tok out e c)
  let ?t = "exec (releaseControllerLock E tok) (seen_by i x)"
  have step: "exec (round_next E c (round_at x i)) (seen_by i x) = ?t" "result (round_next E c (round_at x i)) (seen_by i x) = Ended out"
    by (simp_all add: round_unlock(2) run)
  have "lease_good E vw (seen_by i x) (drawn x) (lease x)" using good lease_seen by (simp add: controllers_good_def)
  then have "lease_good E vw ?t (drawn x) ((lease x)(i := None))"
    by (rule lock_law) (rule lock_release [where rel = "releaseControllerLock E"], rule round_unlock)
  then have lock: "lease_good E vw (seen_by 0 y) (drawn y) (lease y)"
    using lease_good_world [where s = ?t and t = "seen_by 0 y" and vw = vw and E = E] by (simp add: round_unlock(1) step)
  have shown: "shows_history E (vw (world (seen_by i x))) (history x)" using good by (simp add: controllers_good_def)
  show ?thesis
  proof (rule good_move [OF good string_value_inj lock, where i = i and h = "[]"])
    show "shows_history E (vw (shared y)) (history y)" "server_time (vw (shared x)) \<le> server_time (vw (shared y))"
      using release_shown [OF shown, of tok] by (simp_all add: round_unlock(1) step)
    show "go_snapshot (Snapshot (one (history y)))" using good by (simp add: controllers_good_def round_unlock(1))
    have "gateway_good vw x i" using good by (simp add: controllers_good_def)
    then show "gateway_good vw y i" by (simp add: gateway_good_def round_unlock(1) step release_keeps(2))
  qed (simp_all add: round_unlock(1))
next
  case (round_others w)
  have same: "same_lock (vw (shared x)) (vw w)" using round_others by (simp add: same_lock_def)
  have "gateway_good vw x 0" using good by (simp add: controllers_good_def)
  then have "gateway_good vw y 0" using round_others(2) by (auto simp: gateway_good_def current_def round_others(1))
  moreover have "shows_history E (vw w) (history x)" using good shown_key [OF round_others(4)] by (simp add: controllers_good_def)
  moreover have "lease_good E vw (seen_by 0 y) (drawn x) (lease x)"
    using good lease_good_world [of vw "seen_by 0 x" "seen_by 0 y"] same by (simp add: controllers_good_def round_others(1))
  ultimately show ?thesis
    by (intro good_move [OF good string_value_inj, where i = 0 and h = "[]"])
      (use good round_others(2) in \<open>simp_all add: controllers_good_def round_others(1)\<close>)
qed

lemma good_at_start:
  assumes "controllers_start vw x"
  shows "controllers_good E vw x"
proof -
  have "go_snapshot initialSnapshot" using rnd_of_int [of 1]
    by (simp add: go_snapshot_def initialSnapshot_def adaptiveTTLInitialFactor_def in64_def)
  moreover have "behind [] NewAdaptiveTTLController" using behind_now(1) [of "[]"] by simp
  ultimately show ?thesis using assms
    by (simp add: controllers_start_def controllers_good_def gateway_good_def lock_good_def shows_history_def Snapshot_new)
qed

end

sublocale controller_fleet < rounds: inductive_invariant "controllers_start vw" "round_step E vw" "controllers_good E vw"
  by unfold_locales (rule good_at_start, assumption, rule good_step)

context controller_fleet
begin

lemma reached_good: "reaches (controllers_start vw) (round_step E vw) x \<Longrightarrow> controllers_good E vw x"
  by (rule rounds.reaches_good)

end

section \<open>Properties\<close>



lemma act_counters: "counters_ok ctl \<Longrightarrow> counters_ok (act e ctl)"
proof (cases e)
  case (Took config g)
  then show "counters_ok ctl \<Longrightarrow> counters_ok (act e ctl)" using process_counters by simp
qed (simp_all add: counters_ok_def setDisabled_def applySnapshot_def resetSnapshot_def)

lemma one_counters: "counters_ok (one hist)"
  by (induction hist rule: rev_induct) (simp_all add: act_counters, simp add: counters_ok_def NewAdaptiveTTLController_def)

lemma one_append: "one (before @ map (Took config) gs) = run_signals config gs (one before)"
proof -
  have "act (Took config g) = processSignals config g" for g by (simp add: fun_eq_iff)
  then show ?thesis by (simp add: one_def run_signals_def fold_map comp_def)
qed

text \<open>
  C6. So lasting congestion drives the published factor to its maximum, whichever gateways took the
  readings and whatever happened before.
\<close>

theorem cluster_reaches_maximum:
  assumes "controller_fleet E vw" and "reaches (controllers_start vw) (round_step E vw) x"
    and "history x = before @ map (Took config) gs"
    and "0 < AdaptiveTTLMinFactor config" and "AdaptiveTTLMinFactor config \<le> AdaptiveTTLMaxFactor config"
    and "AdaptiveTTLMaxFactor config \<le> 1000" and "list_all (congested config) gs" and "gs \<noteq> []"
    and "2 * k \<le> length gs"
    and "AdaptiveTTLMaxFactor config - AdaptiveTTLMinFactor config \<le> of_nat k * (14 / 100)"
  shows "\<exists>snapshot. publishes E (vw (shared x)) snapshot \<and> Factor snapshot = AdaptiveTTLMaxFactor config"
proof -
  have good: "controllers_good E vw x"
    by (rule controller_fleet.reached_good [OF assms(1,2)])
  then have p: "publishes E (vw (shared x)) (Snapshot (one (history x)))"
    using assms(3,8) by (auto simp: controllers_good_def shows_history_def split: if_splits)
  have "currentFactor (one (history x)) = AdaptiveTTLMaxFactor config"
    unfolding assms(3) one_append by (rule congested_maximum [OF assms(4-10) one_counters])
  then have "Factor (Snapshot (one (history x))) = AdaptiveTTLMaxFactor config" by (simp add: Snapshot_def)
  then show ?thesis using p by blast
qed

section \<open>A round on the small server\<close>

interpretation busy: controller_fleet busy_env mini_view
proof (intro controller_fleet.intro controller_fleet_axioms.intro busy_adaptive)
  show "mini_view (exec (sleep_or_done busy_env c d) w) = served mini_view (sleep_or_done busy_env c d) w"
      "time_passes mini_view (sleep_or_done busy_env c d) w"
      "mini_view (exec (ctx_err busy_env c) w) = served mini_view (ctx_err busy_env c) w"
      "time_passes mini_view (ctx_err busy_env c) w" for c d w
    by (simp_all add: busy_env_def mini_env_def run served_def time_passes_def mini_view_def advance_def)
  show "rnd (P99LatencyMs g) = P99LatencyMs g" if "result (http_get_load busy_env c) w = Inr (code, Some g)" for c w code g
    using that rnd_of_int [of 900] by (auto simp: busy_env_def run busy_load_def)
qed

text \<open>Bounds that leave the factor no room: it is at its maximum after one congested reading.\<close>

definition level_config :: GatewayConfig where
  "level_config = sample_config\<lparr>AdaptiveTTLMinFactor := 4\<rparr>"

lemma level_go: "go_config level_config"
  using sample_config_go(1) rnd_of_int [of 4] by (simp add: level_config_def go_config_def)

definition idle_fleet :: "mini controllers" where
  "idle_fleet = \<lparr>shared = empty_mini, ctl_of = (\<lambda>_. NewAdaptiveTTLController), round_at = (\<lambda>_. Ended None), drawn = {},
     lease = Map.empty, history = []\<rparr>"

text \<open>The owner's next step, and the steps up to its publication.\<close>

definition owner_turn :: "mini controllers \<Rightarrow> mini controllers" where
  "owner_turn x = (moved busy_env Background 0 x)\<lparr>history := history x @ published_by busy_env Background 0 x\<rparr>"

definition claimed_fleet :: "mini controllers" where
  "claimed_fleet = (moved busy_env Background 0 (idle_fleet\<lparr>round_at := (round_at idle_fleet)(0 := Claiming (Adjust level_config))\<rparr>))
     \<lparr>drawn := {token_name 1}, lease := [0 \<mapsto> (token_name 1, 5 * second)]\<rparr>"

definition decided_fleet :: "mini controllers" where
  "decided_fleet = owner_turn (owner_turn (owner_turn (owner_turn claimed_fleet)))"

definition may_act :: "mini controllers \<Rightarrow> bool" where
  "may_act x \<longleftrightarrow> (case (token_of (round_at x 0), lease x 0) of
     (Some tok, Some (tok', e)) \<Rightarrow> tok = tok' \<and> \<not> unlocks (round_at x 0) \<and> m_time (shared (owner_turn x)) < e
   | _ \<Rightarrow> False)"

lemma owner_turn_step: "may_act x \<Longrightarrow> round_step busy_env mini_view x (owner_turn x)"
  unfolding owner_turn_def
  by (rule round_own [where tok = "the (token_of (round_at x 0))" and e = "snd (the (lease x 0))"])
    (auto simp: may_act_def owner_turn_def mini_view_def split: option.splits)

lemma decided_acts: "may_act claimed_fleet" "may_act (owner_turn claimed_fleet)" "may_act (owner_turn (owner_turn claimed_fleet))"
    "may_act (owner_turn (owner_turn (owner_turn claimed_fleet)))"
  by code_simp+

lemma decided_history: "history decided_fleet = [Took level_config busy_load] \<and>
    m_keys (shared decided_fleet) adaptiveTTLSnapshotRedisKey \<noteq> None"
  by code_simp

lemma claimed_reached: "reaches (controllers_start mini_view) (round_step busy_env mini_view) claimed_fleet"
proof -
  let ?x = "idle_fleet\<lparr>round_at := (round_at idle_fleet)(0 := Claiming (Adjust level_config))\<rparr>"
  have start: "controllers_start mini_view idle_fleet"
    by (simp add: controllers_start_def idle_fleet_def mini_view_def empty_mini_def)
  have begin_round: "round_step busy_env mini_view idle_fleet ?x"
    by (rule round_begin) (simp_all add: idle_fleet_def level_go)
  have "result (tryAcquireControllerLock busy_env Background) (seen_by 0 ?x) = Inr (token_name 1, True)"
      "lock_held busy_env mini_view adaptiveTTLControllerLockRedisKey
        (exec (tryAcquireControllerLock busy_env Background) (seen_by 0 ?x)) (token_name 1) (5 * second)"
    unfolding busy_acquire lock_held_def busy_fields
    by (simp_all add: tryAcquireControllerLock_def lock_eval seen_by_def idle_fleet_def adaptiveTTLControllerLockTTL_def)
  then have "round_step busy_env mini_view ?x ((moved busy_env Background 0 ?x)\<lparr>drawn := insert (token_name 1) (drawn ?x),
      lease := (lease ?x)(0 \<mapsto> (token_name 1, 5 * second))\<rparr>)"
    by (intro round_won) (simp_all add: idle_fleet_def)
  then have "round_step busy_env mini_view ?x claimed_fleet" by (simp add: claimed_fleet_def idle_fleet_def)
  then show ?thesis by (rule reach_step [rotated]) (rule reach_step, rule reach_start, rule start, rule begin_round)
qed

lemma decided_reached: "reaches (controllers_start mini_view) (round_step busy_env mini_view) decided_fleet"
  unfolding decided_fleet_def
  by (rule reach_step, rule reach_step, rule reach_step, rule reach_step, rule claimed_reached)
    (rule owner_turn_step, rule decided_acts)+


theorem cluster_reaches_maximum_witness:
  "\<exists>snapshot. publishes busy_env (mini_view (shared decided_fleet)) snapshot \<and> Factor snapshot = 4"
proof -
  have c: "congested level_config busy_load" by (simp add: congested_def busy_load_def level_config_def sample_config_def)
  have h: "history decided_fleet = [] @ map (Took level_config) [busy_load]" using decided_history by simp
  have m: "AdaptiveTTLMinFactor level_config = 4" "AdaptiveTTLMaxFactor level_config = 4"
    by (simp_all add: level_config_def sample_config_def)
  show ?thesis
    using cluster_reaches_maximum [OF busy.controller_fleet_axioms decided_reached h, of 0] c by (simp add: m)
qed

section \<open>Why an owner has to act within its lease\<close>

definition turns :: "nat list \<Rightarrow> mini controllers \<Rightarrow> mini controllers" where
  "turns is x = fold (moved busy_env Background) is x"

text \<open>
  Gateway 0 reads the load and is held up for six seconds, one more than its lease; gateway 1
  makes a whole round meanwhile; then gateway 0 goes on.
\<close>

definition overtaken :: "mini controllers" where
  "overtaken = turns [1, 1, 1, 1, 1] ((\<lambda>x. x\<lparr>shared := advance (6 * second) (shared x)\<rparr>)
     (turns [0, 0, 0, 0] (idle_fleet\<lparr>round_at := (\<lambda>_. Claiming (Adjust level_config))\<rparr>)))"

lemma level_facts: "AdaptiveTTLEnabled level_config" "applySnapshot initialSnapshot ctl = NewAdaptiveTTLController"
  by (simp_all add: level_config_def sample_config_def initialSnapshot_def NewAdaptiveTTLController_def applySnapshot_def)

lemma initial_valid: "\<not> Factor initialSnapshot \<le> 0" "SnapState initialSnapshot \<noteq> []"
  by (simp_all add: initialSnapshot_def adaptiveTTLInitialFactor_def state_names)

lemmas fleet_run = turns_def run busy_env_def mini_env_def redis_def redis_do_def m_lookup_def m_expiry_def moved_def seen_by_def Let_def
  tryAcquireControllerLock_def newDistributedLockToken_def loaded_def stop_def decode_snapshot_def readBackendLoadSignals_def
  saveSharedSnapshot_def releaseControllerLock_def releaseAdaptiveTTLControllerLockScript_def with_timeout_def level_facts initial_valid
  adaptiveTTLControllerLockTTL_def advance_def

lemma late_run:
  "round_at overtaken 1 = Ended None" "round_at (turns [0, 0] overtaken) 0 = Ended None"
  "m_keys (shared overtaken) adaptiveTTLSnapshotRedisKey =
     Some (MSnapshot (Snapshot (processSignals level_config busy_load NewAdaptiveTTLController)), None)"
  "m_keys (shared (turns [0, 0] overtaken)) adaptiveTTLSnapshotRedisKey =
     Some (MSnapshot (Snapshot (processSignals level_config busy_load NewAdaptiveTTLController)), None)"
  by (simp_all add: overtaken_def fleet_run idle_fleet_def empty_mini_def)

lemma two_readings: "ConsecutiveCongestedReadings (Snapshot (one [Took level_config busy_load])) = 1"
    "ConsecutiveCongestedReadings (Snapshot (one [Took level_config busy_load, Took level_config busy_load])) = 0"
  by code_simp+

text \<open>
  The save does not ask whether the lock is still owned, so the late owner overwrites what was
  published meanwhile: both rounds end without an error, and of two congested readings one counts.
\<close>

theorem late_owner_overwrites:
  "let x = turns [0, 0] overtaken; first_reading = Snapshot (one [Took level_config busy_load]) in
   round_at overtaken 1 = Ended None \<and> round_at x 0 = Ended None \<and>
   m_keys (shared overtaken) adaptiveTTLSnapshotRedisKey = Some (MSnapshot first_reading, None) \<and>
   m_keys (shared x) adaptiveTTLSnapshotRedisKey = Some (MSnapshot first_reading, None) \<and>
   ConsecutiveCongestedReadings first_reading = 1 \<and>
   ConsecutiveCongestedReadings (Snapshot (one [Took level_config busy_load, Took level_config busy_load])) = 0"
  using late_run two_readings by (simp add: Let_def one_def)

end
