(* ===== verification/Fetch_Herd.thy ===== *)
theory Fetch_Herd
  imports L2_Interleaving Distributed_Lock
begin

text \<open>
  The requests of all gateways for one key at the same time. \<open>fetchWithDistributedLock\<close> and
  \<open>fetchAsDistributedLockOwner\<close> of \<open>gateway/distributed_lock.go\<close> become program counters, one
  Redis command or the call of the backend per step, with the commands of \<open>gateway/l2_cache.go\<close>
  as \<open>L2_Interleaving\<close> has them. What the lock is for is proved at the end: however many requests
  miss at once, the backend is called once, and once more for every call that yields nothing to
  store, every value that is lost again, and every owner that outlives its lease.
\<close>

section \<open>One command at a time\<close>

text \<open>What a request brings along, and what it returns.\<close>

record job =
  wanted :: request
  keep_for :: duration
  conf :: GatewayConfig

type_synonym fetched = "(KeyValue \<times> int \<times> goerr option) go"

datatype fetch_pc =
    Starting
  | Trying ctx
  | Checking ctx l2_pc
  | Probing ctx
  | Sleeping ctx
  | Looking string l2_pc
  | Announcing string
  | Proxying string time ctx
  | Dating string KeyValue int
  | Keeping string fetched l2_pc
  | Freeing string fetched
  | Answering fetched

definition lock_ttl :: "GatewayConfig \<Rightarrow> duration" where
  "lock_ttl config = dur_add (dur_mul (BackendTimeoutMs config) millisecond) lockSafetyMargin"

text \<open>\<open>fetchFromBackend\<close> up to the call of the proxy, and from there.\<close>

definition announce :: "('w, 'v) env \<Rightarrow> request \<Rightarrow> int \<Rightarrow> (('w, 'x) sys_scheme, time \<times> ctx) state" where
  "announce E r backendTimeoutMs = do {
     backendStart \<leftarrow> time_now E;
     let timeout = dur_mul backendTimeoutMs millisecond;
     _ \<leftarrow> recordBackendCallForFAF E RequestCtx (RequestURI E r) timeout;
     ctx \<leftarrow> with_timeout E RequestCtx timeout;
     ret (backendStart, ctx) }"

definition proxied :: "('w, 'v) env \<Rightarrow> request \<Rightarrow> time \<Rightarrow> ctx \<Rightarrow> (('w, 'x) sys_scheme, fetched) state" where
  "proxied E r backendStart ctx = do {
     out \<leftarrow> on_world (proxy_serve E ctx (director r));
     case serve_recorded out of
       Panic \<Rightarrow> ret Panic
     | Ret (body, statusCode, held) \<Rightarrow> do {
         t \<leftarrow> time_now E;
         let duration = sub_time t backendStart;
         _ \<leftarrow> emit (ObserveBackendDuration duration);
         let res = no_KeyValue\<lparr>Value := body, RecomputeDuration := duration\<rparr>;
         (case held of
            Some err \<Rightarrow> ret (Ret (res, statusCode, Some err))
          | None \<Rightarrow> do {
              e \<leftarrow> on_world (ctx_err E ctx);
              case e of
                Some err \<Rightarrow> ret (Ret (res, StatusGatewayTimeout, Some err))
              | None \<Rightarrow> ret (Ret (res, statusCode, None)) }) } }"

definition after_call :: "string \<Rightarrow> fetched \<Rightarrow> fetch_pc" where
  "after_call token res = (case res of
       Ret (fetched, statusCode, None) \<Rightarrow>
         if statusCode \<ge> 200 \<and> statusCode < 300 then Dating token fetched statusCode else Freeing token res
     | _ \<Rightarrow> Freeing token res)"

fun fetch_next :: "('w, 'v) env \<Rightarrow> string \<Rightarrow> job \<Rightarrow> fetch_pc \<Rightarrow> (('w, 'x) sys_scheme, fetch_pc) state" where
  "fetch_next E key j Starting = do {
     waitContext \<leftarrow> with_timeout E RequestCtx (dur_add (lock_ttl (conf j)) lockSafetyMargin);
     ret (Trying waitContext) }"
| "fetch_next E key j (Trying c) = do {
     a \<leftarrow> tryAcquireDistributedLock E c (distributedLockKey E key) (lock_ttl (conf j));
     ret (case a of
         Inl err \<Rightarrow> Answering (Ret (no_KeyValue, StatusServiceUnavailable, Some err))
       | Inr (token, acquired) \<Rightarrow> if acquired then Looking token (Reading key) else Checking c (Reading key)) }"
| "fetch_next E key j (Checking c pc) = (case pc of
       Returned (Found (Some cached)) \<Rightarrow> ret (Answering (Ret (cached, StatusOK, None)))
     | Returned _ \<Rightarrow> ret (Probing c)
     | _ \<Rightarrow> do { pc \<leftarrow> l2_next E c pc; ret (Checking c pc) })"
| "fetch_next E key j (Probing c) = do {
     x \<leftarrow> redis E c (c_exists E (distributedLockKey E key));
     ret (case x of
         Inl err \<Rightarrow> Answering (Ret (no_KeyValue, StatusServiceUnavailable, Some (Wrap ''check distributed lock'' err)))
       | Inr lockExists \<Rightarrow> if lockExists = 0 then Trying c else Sleeping c) }"
| "fetch_next E key j (Sleeping c) = do {
     fired \<leftarrow> on_world (sleep_or_done E c lockPollInterval);
     if fired then ret (Trying c)
     else do { e \<leftarrow> on_world (ctx_err E c); ret (Answering (Ret (no_KeyValue, StatusGatewayTimeout, e))) } }"
| "fetch_next E key j (Looking token pc) = (case pc of
       Returned (Found (Some cached)) \<Rightarrow> ret (Freeing token (Ret (cached, StatusOK, None)))
     | Returned _ \<Rightarrow> ret (Announcing token)
     | _ \<Rightarrow> do { pc \<leftarrow> l2_next E RequestCtx pc; ret (Looking token pc) })"
| "fetch_next E key j (Announcing token) = do {
     (backendStart, ctx) \<leftarrow> announce E (wanted j) (BackendTimeoutMs (conf j));
     ret (Proxying token backendStart ctx) }"
| "fetch_next E key j (Proxying token backendStart ctx) = do {
     res \<leftarrow> proxied E (wanted j) backendStart ctx;
     ret (after_call token res) }"
| "fetch_next E key j (Dating token fetched statusCode) = do {
     t \<leftarrow> time_now E;
     let fetched = fetched\<lparr>L2Expiration := t + keep_for j\<rparr>;
     ret (Keeping token (Ret (fetched, statusCode, None)) (Writing key fetched (keep_for j) (L2MaxEntries (conf j)))) }"
| "fetch_next E key j (Keeping token res pc) = (case pc of
       Returned _ \<Rightarrow> ret (Freeing token res)
     | _ \<Rightarrow> do { pc \<leftarrow> l2_next E RequestCtx pc; ret (Keeping token res pc) })"
| "fetch_next E key j (Freeing token res) = do {
     _ \<leftarrow> releaseDistributedLock E (distributedLockKey E key) token;
     ret (Answering res) }"
| "fetch_next E key j (Answering res) = ret (Answering res)"


section \<open>Alone, the steps are the operation\<close>





lemma fetch_next_Checking: "\<forall>out. pc \<noteq> Returned out \<Longrightarrow> fetch_next E key j (Checking c pc) = do { pc \<leftarrow> l2_next E c pc; ret (Checking c pc) }"
  and fetch_next_Looking: "\<forall>out. pc \<noteq> Returned out \<Longrightarrow> fetch_next E key j (Looking tok pc) = do { pc \<leftarrow> l2_next E RequestCtx pc; ret (Looking tok pc) }"
  and fetch_next_Keeping: "\<forall>out. pc \<noteq> Returned out \<Longrightarrow> fetch_next E key j (Keeping tok res pc) = do { pc \<leftarrow> l2_next E RequestCtx pc; ret (Keeping tok res pc) }"
  by (cases pc; simp)+

lemma fetch_next_l2:
  assumes "\<forall>out. pc \<noteq> Returned out"
  shows "exec (fetch_next E key j (Checking c pc)) s = exec (l2_next E c pc) s"
    "result (fetch_next E key j (Checking c pc)) s = Checking c (result (l2_next E c pc) s)"
    "exec (fetch_next E key j (Looking tok pc)) s = exec (l2_next E RequestCtx pc) s"
    "result (fetch_next E key j (Looking tok pc)) s = Looking tok (result (l2_next E RequestCtx pc) s)"
    "exec (fetch_next E key j (Keeping tok res pc)) s = exec (l2_next E RequestCtx pc) s"
    "result (fetch_next E key j (Keeping tok res pc)) s = Keeping tok res (result (l2_next E RequestCtx pc) s)"
  unfolding fetch_next_Checking [OF assms] fetch_next_Looking [OF assms] fetch_next_Keeping [OF assms] by (simp_all add: run)











section \<open>The herd\<close>

text \<open>
  Any number of requests for one key, at any gateways: the world they share and the metric calls
  of all gateways, and the requests under way. The other components are not in the code: the tokens drawn so far,
  the leases, how many backend calls gave nothing to store, and how often the stored value was lost.
\<close>

record 'w herd =
  gateways :: "'w sys"
  requests :: "(job \<times> fetch_pc) list"
  tokens_drawn :: "string set"
  leases :: "nat \<Rightarrow> (string \<times> time) option"
  wasted :: nat
  lost :: nat

fun owner_token :: "fetch_pc \<Rightarrow> string option" where
  "owner_token (Looking tok pc) = Some tok"
| "owner_token (Announcing tok) = Some tok"
| "owner_token (Proxying tok start ctx) = Some tok"
| "owner_token (Dating tok v code) = Some tok"
| "owner_token (Keeping tok res pc) = Some tok"
| "owner_token (Freeing tok res) = Some tok"
| "owner_token _ = None"

text \<open>The backend has been called and the value is not stored.\<close>

fun calling :: "fetch_pc \<Rightarrow> bool" where
  "calling (Proxying tok start ctx) = True"
| "calling (Dating tok v code) = True"
| "calling (Keeping tok res (Writing key v ttl m)) = True"
| "calling _ = False"

text \<open>The value has just been stored.\<close>

fun stored :: "fetch_pc \<Rightarrow> bool" where
  "stored (Keeping tok res (Indexing key m)) = True"
| "stored _ = False"

fun tries :: "fetch_pc \<Rightarrow> bool" where
  "tries (Trying c) = True"
| "tries _ = False"

fun frees :: "fetch_pc \<Rightarrow> bool" where
  "frees (Freeing tok res) = True"
| "frees _ = False"

definition live :: "string \<Rightarrow> 'v view \<Rightarrow> bool" where
  "live key v \<longleftrightarrow> lookup_at v key \<noteq> None"

text \<open>The next step of request \<open>i\<close>, and the bookkeeping of what it means for the stored value.\<close>

definition gone :: "string \<Rightarrow> 'v view \<Rightarrow> 'v view \<Rightarrow> nat" where
  "gone key v v' = of_bool (live key v \<and> \<not> live key v')"

definition spoilt :: "fetch_pc \<Rightarrow> fetch_pc \<Rightarrow> nat" where
  "spoilt pc pc' = of_bool (calling pc \<and> \<not> calling pc' \<and> \<not> stored pc')"

definition fetch_turn :: "('w, 'v) env \<Rightarrow> ('w \<Rightarrow> 'v view) \<Rightarrow> string \<Rightarrow> nat \<Rightarrow> 'w herd \<Rightarrow> 'w herd" where
  "fetch_turn E vw key i x =
     (let s = gateways x; (j, pc) = requests x ! i; t = exec (fetch_next E key j pc) s; pc' = result (fetch_next E key j pc) s in
      x\<lparr>gateways := t, requests := (requests x)[i := (j, pc')],
        wasted := wasted x + spoilt pc pc', lost := lost x + gone key (vw (world s)) (vw (world t))\<rparr>)"

text \<open>
  What everything else may do to the server: other keys, clears, evictions and the passage of time. The
  lock's key is left alone and never gets into the index of cached keys, and nobody else stores under the key.
\<close>

definition gentle :: "string \<Rightarrow> string \<Rightarrow> 'v view \<Rightarrow> 'v view \<Rightarrow> bool" where
  "gentle key lock v v' \<longleftrightarrow> server_time v \<le> server_time v' \<and> keys v' lock = keys v lock \<and>
     (live key v' \<longrightarrow> live key v) \<and> (zsets v l2LRUKey lock = None \<longrightarrow> zsets v' l2LRUKey lock = None)"

definition job_ok :: "('w, 'v) env \<Rightarrow> string \<Rightarrow> job \<Rightarrow> bool" where
  "job_ok E key j \<longleftrightarrow> RequestURI E (wanted j) = key \<and> ttl_ok (keep_for j) \<and>
     0 \<le> BackendTimeoutMs (conf j) \<and> BackendTimeoutMs (conf j) \<le> 1000000000"

text \<open>
  An owner's step up to the release is served before its lease runs out; after that it takes none,
  as if it had crashed.
\<close>

inductive herd_step :: "('w, 'v) env \<Rightarrow> ('w \<Rightarrow> 'v view) \<Rightarrow> string \<Rightarrow> 'w herd \<Rightarrow> 'w herd \<Rightarrow> bool" for E vw key where
  herd_begin: "job_ok E key j \<Longrightarrow> herd_step E vw key x (x\<lparr>requests := requests x @ [(j, Starting)]\<rparr>)"
| herd_won: "i < length (requests x) \<Longrightarrow> requests x ! i = (j, Trying c) \<Longrightarrow>
    result (tryAcquireDistributedLock E c (distributedLockKey E key) (lock_ttl (conf j))) (gateways x) = Inr (tok, True) \<Longrightarrow>
    tok \<notin> tokens_drawn x \<Longrightarrow> lock_held E vw (distributedLockKey E key) (gateways (fetch_turn E vw key i x)) tok e \<Longrightarrow>
    herd_step E vw key x ((fetch_turn E vw key i x)\<lparr>tokens_drawn := insert tok (tokens_drawn x), leases := (leases x)(i \<mapsto> (tok, e))\<rparr>)"
| herd_refused: "i < length (requests x) \<Longrightarrow> requests x ! i = (j, Trying c) \<Longrightarrow>
    (\<forall>tok. result (tryAcquireDistributedLock E c (distributedLockKey E key) (lock_ttl (conf j))) (gateways x) \<noteq> Inr (tok, True)) \<Longrightarrow>
    herd_step E vw key x (fetch_turn E vw key i x)"
| herd_wait: "i < length (requests x) \<Longrightarrow> requests x ! i = (j, pc) \<Longrightarrow> owner_token pc = None \<Longrightarrow> \<not> tries pc \<Longrightarrow>
    herd_step E vw key x (fetch_turn E vw key i x)"
| herd_own: "i < length (requests x) \<Longrightarrow> requests x ! i = (j, pc) \<Longrightarrow> owner_token pc = Some tok \<Longrightarrow> \<not> frees pc \<Longrightarrow>
    leases x i = Some (tok, e) \<Longrightarrow> server_time (vw (world (gateways (fetch_turn E vw key i x)))) < e \<Longrightarrow>
    herd_step E vw key x (fetch_turn E vw key i x)"
| herd_free: "i < length (requests x) \<Longrightarrow> requests x ! i = (j, Freeing tok res) \<Longrightarrow> leases x i = Some (tok, e) \<Longrightarrow>
    herd_step E vw key x ((fetch_turn E vw key i x)\<lparr>leases := (leases x)(i := None)\<rparr>)"
| herd_others: "gentle key (distributedLockKey E key) (vw (world (gateways x))) (vw w) \<Longrightarrow>
    herd_step E vw key x (x\<lparr>gateways := (gateways x)\<lparr>world := w\<rparr>,
      lost := lost x + gone key (vw (world (gateways x))) (vw w)\<rparr>)"

definition herd_start :: "('w, 'v) env \<Rightarrow> ('w \<Rightarrow> 'v view) \<Rightarrow> string \<Rightarrow> 'w herd \<Rightarrow> bool" where
  "herd_start E vw key x \<longleftrightarrow> \<not> live key (vw (world (gateways x))) \<and> metrics (gateways x) = [] \<and> requests x = [] \<and>
     zsets (vw (world (gateways x))) l2LRUKey (distributedLockKey E key) = None \<and> leases x = Map.empty \<and> wasted x = 0 \<and> lost x = 0"

section \<open>What is known in every reachable state\<close>

abbreviation calls_of :: "string \<Rightarrow> ('w, 'x) sys_scheme \<Rightarrow> nat" where
  "calls_of key s \<equiv> calls (\<lambda>e. e = IncBackendCalls key) (metrics s)"

text \<open>A lookup has missed under the lock.\<close>

fun missed :: "fetch_pc \<Rightarrow> bool" where
  "missed (Looking tok (Unindexing key)) = True"
| "missed (Looking tok (Returned (Found None))) = True"
| "missed (Announcing tok) = True"
| "missed pc = calling pc"

lemma calling_missed: "calling pc \<Longrightarrow> missed pc"
  by (cases pc rule: missed.cases) auto

text \<open>An operation on the shared cache that cannot touch the lock's key.\<close>

fun l2_spares :: "string \<Rightarrow> l2_pc \<Rightarrow> bool" where
  "l2_spares lock (Writing key v ttl m) = (key \<noteq> lock)"
| "l2_spares lock (Indexing key m) = (key \<noteq> lock)"
| "l2_spares lock (Popping n) = (0 \<le> n)"
| "l2_spares lock (Evicting es) = (ZStr lock \<notin> set es)"
| "l2_spares lock (Reading key) = (key \<noteq> lock)"
| "l2_spares lock (Discarding key) = (key \<noteq> lock)"
| "l2_spares lock (Touching key cv) = (key \<noteq> lock)"
| "l2_spares lock Listing = False"
| "l2_spares lock (Wiping ks) = False"
| "l2_spares lock Unlisting = False"
| "l2_spares lock _ = True"

fun looks_up :: "string \<Rightarrow> l2_pc \<Rightarrow> bool" where
  "looks_up key (Reading k) = (k = key)"
| "looks_up key (Unindexing k) = (k = key)"
| "looks_up key (Discarding k) = (k = key)"
| "looks_up key (Touching k cv) = (k = key)"
| "looks_up key (Returned (Found r)) = True"
| "looks_up key _ = False"

fun writes :: "l2_pc \<Rightarrow> bool" where
  "writes (Writing key v ttl m) = True"
| "writes _ = False"

definition request_fine :: "('w, 'v) env \<Rightarrow> string \<Rightarrow> job \<Rightarrow> fetch_pc \<Rightarrow> bool" where
  "request_fine E key j pc \<longleftrightarrow> job_ok E key j \<and> (case pc of
       Checking c p \<Rightarrow> looks_up key p
     | Looking tok p \<Rightarrow> looks_up key p
     | Keeping tok res p \<Rightarrow> (case p of Writing k v ttl m \<Rightarrow> k = key \<and> ttl = keep_for j | _ \<Rightarrow> l2_spares (distributedLockKey E key) p)
     | _ \<Rightarrow> True)"

lemma gentle_refl [simp]: "gentle key lock v v"
  by (simp add: gentle_def)

lemma gentle_trans: "gentle key lock u v \<Longrightarrow> gentle key lock v w \<Longrightarrow> gentle key lock u w"
  by (auto simp: gentle_def)

lemma live_later: "server_time v \<le> t \<Longrightarrow> live key (v\<lparr>server_time := t\<rparr>) \<Longrightarrow> live key v"
  using lookup_at_later [of v t key] by (auto simp: live_def)

text \<open>Keys that a request has nothing to do with.\<close>

lemma lock_key_facts:
  "distributedLockKey E key \<noteq> l2LRUKey" "fafRefreshMarkerKey E k \<noteq> distributedLockKey E key"
  "fafRefreshMarkerKey E k \<noteq> CHR ''/'' # p" "distributedLockKey E k \<noteq> CHR ''/'' # p" "l2LRUKey \<noteq> CHR ''/'' # p"
  by (simp_all add: distributedLockKey_def distributedLockPrefix_def fafRefreshMarkerKey_def fafRefreshMarkerPrefix_def l2LRUKey_def)

text \<open>
  The contract of the world: the laws of Redis, tokens that are different values, commands in a request's own
  context that arrive, and a backend and timers that leave Redis alone.
\<close>

locale fetch_world = redis_l2 E vw + redis_lock E vw for E :: "('w, 'v) env" and vw :: "'w \<Rightarrow> 'v view" +
  assumes own_delivered: "result (link_status E RequestCtx) w = Delivered"
    and exists_quiet: "vw (exec (c_exists E k) w) = served vw (c_exists E k) w"
    and exists_time: "time_passes vw (c_exists E k) w"
    and proxy_quiet: "vw (exec (proxy_serve E c r) w) = served vw (proxy_serve E c r) w"
    and proxy_time: "time_passes vw (proxy_serve E c r) w"
    and pause_quiet: "vw (exec (sleep_or_done E c d) w) = served vw (sleep_or_done E c d) w"
    and pause_time: "time_passes vw (sleep_or_done E c d) w"
    and done_quiet: "vw (exec (ctx_err E c) w) = served vw (ctx_err E c) w"
    and done_time: "time_passes vw (ctx_err E c) w"
begin

lemma quiet_gentle: "vw (exec m w) = served vw m w \<Longrightarrow> time_passes vw m w \<Longrightarrow> gentle key lock (vw w) (vw (exec m w))"
  using live_later [of "vw w" "server_time (vw (exec m w))" key] served_shift [of vw m w]
  unfolding gentle_def time_passes_def by (metis served_simps(1,2))

lemmas link_gentle = quiet_gentle [OF link_quiet link_time]

text \<open>A command over any link does to the server what it does when it is served, or nothing.\<close>

lemma redis_gentle:
  assumes "\<And>w. vw w = (vw (world s))\<lparr>server_time := server_time (vw w)\<rparr> \<Longrightarrow> gentle key lock (vw w) (vw (exec m w))"
  shows "gentle key lock (vw (world s)) (vw (world (exec (redis E c m) s)))"
proof -
  let ?w1 = "exec (link_status E c) (world s)"
  have "vw ?w1 = (vw (world s))\<lparr>server_time := server_time (vw ?w1)\<rparr>" by (rule served_shift [OF link_quiet])
  then have "gentle key lock (vw ?w1) (vw (exec m ?w1))" by (rule assms)
  then show ?thesis
    using link_gentle [of key lock "world s" c] gentle_trans
    by (auto simp: redis_def redis_do_def run split: link.split)
qed

lemma effect_gentle:
  assumes eff: "\<And>w. vw (exec m w) = f (served vw m w)" and t: "\<And>w. time_passes vw m w"
    and f: "\<And>v. server_time (f v) = server_time v \<and> keys (f v) lock = keys v lock \<and> (live key (f v) \<longrightarrow> live key v) \<and>
      (zsets v l2LRUKey lock = None \<longrightarrow> zsets (f v) l2LRUKey lock = None)"
  shows "gentle key lock (vw (world s)) (vw (world (exec (redis E c m) s)))"
proof (rule redis_gentle)
  fix w
  let ?v = "served vw m w"
  have "gentle key lock (vw w) ?v"
    using t [of w] live_later [of "vw w" "server_time (vw (exec m w))" key]
    by (auto simp: gentle_def time_passes_def served_def)
  moreover have "gentle key lock ?v (vw (exec m w))" using f [of ?v] unfolding eff by (simp add: gentle_def)
  ultimately show "gentle key lock (vw w) (vw (exec m w))" by (rule gentle_trans)
qed

lemma get_gentle: "gentle key lock (vw (world s)) (vw (world (exec (redis E c (c_get E k)) s)))"
  by (rule effect_gentle [where f = "\<lambda>v. v", OF get_effect get_time]) simp

lemma exists_gentle: "gentle key lock (vw (world s)) (vw (world (exec (redis E c (c_exists E k)) s)))"
  by (rule effect_gentle [where f = "\<lambda>v. v", OF exists_quiet exists_time]) simp

lemma zcard_gentle: "gentle key lock (vw (world s)) (vw (world (exec (redis E c (c_zcard E z)) s)))"
  by (rule effect_gentle [where f = "\<lambda>v. v", OF zcard_effect zcard_time]) simp

lemma zadd_gentle: "m \<noteq> lock \<Longrightarrow> gentle key lock (vw (world s)) (vw (world (exec (redis E c (c_zadd E z m sc)) s)))"
  by (rule effect_gentle [where f = "zput z m sc", OF zadd_effect zadd_time]) (simp add: live_def)

lemma zrem_gentle: "gentle key lock (vw (world s)) (vw (world (exec (redis E c (c_zrem E z m)) s)))"
  by (rule effect_gentle [where f = "zdrop z {m}", OF zrem_effect zrem_time]) (simp add: live_def restrict_map_def)

lemma del_gentle: "k \<noteq> lock \<Longrightarrow> gentle key lock (vw (world s)) (vw (world (exec (redis E c (c_del E [k])) s)))"
  by (rule effect_gentle [where f = "del_keys [k]", OF del_effect del_time]) (simp add: live_def lookup_at_del)

lemma zpop_gentle:
  assumes "0 \<le> n"
  shows "gentle key lock (vw (world s)) (vw (world (exec (redis E c (c_zpopmin E z n)) s)))"
proof (rule redis_gentle)
  fix w
  let ?m = "c_zpopmin E z n"
  obtain ms where ms: "vw (exec ?m w) = zdrop z (set ms) (served vw ?m w)" using zpop_effect [OF assms, of z w] by blast
  have "gentle key lock v (zdrop z (set ms) v)" for v by (simp add: gentle_def live_def restrict_map_def)
  then have "gentle key lock (served vw ?m w) (vw (exec ?m w))" by (metis ms)
  moreover have "gentle key lock (vw w) (served vw ?m w)"
    using zpop_time [of z n w] live_later [of "vw w" "server_time (vw (exec ?m w))" key]
    by (auto simp: gentle_def time_passes_def served_def)
  ultimately show "gentle key lock (vw w) (vw (exec ?m w))" using gentle_trans by blast
qed

lemma zpop_spares:
  assumes n: "0 \<le> n" and idx: "zsets (vw (world s)) l2LRUKey lock = None"
    and r: "result (redis E c (c_zpopmin E l2LRUKey n)) s = Inr es"
  shows "ZStr lock \<notin> set es"
proof -
  obtain t w1 where "vw w1 = (vw (world s))\<lparr>server_time := t\<rparr>" "es = result (c_zpopmin E l2LRUKey n) w1"
    using redis_any [of s c "c_zpopmin E l2LRUKey n"] unfolding r by auto
  then have w1: "zsets (vw w1) = zsets (vw (world s))" "es = result (c_zpopmin E l2LRUKey n) w1" by simp_all
  obtain ms where "es = map ZStr ms" "set ms \<subseteq> dom (zsets (vw (world s)) l2LRUKey)"
    using zpop_effect [OF n, of l2LRUKey w1] w1 by auto
  then show ?thesis using idx by auto
qed

lemma time_gentle: "gentle key lock (vw (world s)) (vw (world (exec (time_now E) s)))"
  by (simp add: run quiet_gentle [OF now_quiet now_time])

text \<open>Every command of the shared cache but a \<open>SET\<close>.\<close>

lemma l2_gentle:
  assumes idx: "zsets (vw (world s)) l2LRUKey lock = None" and fine: "l2_spares lock pc" and w: "\<not> writes pc"
  shows "gentle key lock (vw (world s)) (vw (world (exec (l2_next E c pc) s))) \<and> l2_spares lock (result (l2_next E c pc) s)"
proof (cases pc)
  case (Indexing k m)
  then show ?thesis using fine gentle_trans [OF time_gentle zadd_gentle]
    by (auto simp: monad_run split: sum.split)
next
  case (Counting m)
  then show ?thesis using zcard_gentle by (auto simp: monad_run split: sum.split)
next
  case (Popping n)
  then show ?thesis using fine zpop_gentle zpop_spares [OF _ idx] by (auto simp: monad_run split: sum.split)
next
  case (Evicting es)
  then show ?thesis using fine by (cases es rule: list.exhaust; cases "hd es") (auto simp: monad_run intro: del_gentle)
next
  case (Reading k)
  then show ?thesis using fine get_gentle by (auto simp: monad_run split: sum.split option.split)
next
  case (Unindexing k)
  then show ?thesis using zrem_gentle by (simp add: monad_run)
next
  case (Discarding k)
  then show ?thesis using fine del_gentle by (simp add: monad_run)
next
  case (Touching k cv)
  then show ?thesis using fine gentle_trans [OF time_gentle zadd_gentle]
    by (auto simp: monad_run)
qed (use fine w in \<open>simp_all add: run\<close>)

end

section \<open>Every step\<close>

text \<open>What a step does that neither claims nor gives back the lock and does not store.\<close>

definition advances :: "('w, 'v) env \<Rightarrow> ('w \<Rightarrow> 'v view) \<Rightarrow> string \<Rightarrow> job \<Rightarrow> 'w sys \<Rightarrow> fetch_pc \<Rightarrow> 'w sys \<Rightarrow> fetch_pc \<Rightarrow> bool" where
  "advances E vw key j s pc t pc' \<longleftrightarrow> gentle key (distributedLockKey E key) (vw (world s)) (vw (world t)) \<and>
     request_fine E key j pc' \<and> owner_token pc' = owner_token pc \<and>
     (missed pc' \<longrightarrow> missed pc \<or> \<not> live key (vw (world t))) \<and>
     calls_of key t + of_bool (calling pc) = calls_of key s + of_bool (calling pc') + spoilt pc pc'"

lemma redis_metrics: "metrics (exec (redis E c m) s) = metrics s"
  by (simp add: redis_def run)

lemma l2_next_metrics: "metrics (exec (l2_next E c pc) s) = metrics s"
proof (cases pc)
  case (Evicting es)
  then show ?thesis by (cases es; cases "hd es") (auto simp: run redis_def)
qed (auto simp: monad_run redis_def run split: option.split)

lemma looks_up_next: "looks_up key pc \<Longrightarrow> looks_up key (result (l2_next E c pc) s)"
  by (cases pc) (auto simp: monad_run split: sum.split option.split)

lemma looks_up_spares: "looks_up key pc \<Longrightarrow> key \<noteq> lock \<Longrightarrow> l2_spares lock pc \<and> \<not> writes pc"
  by (cases pc) auto

lemma next_not_writes: "\<not> writes (result (l2_next E c pc) s)" if "\<not> writes pc"
proof (cases pc)
  case (Evicting es)
  then show ?thesis by (cases es; cases "hd es") (auto simp: run)
qed (use that in \<open>auto simp: monad_run split: sum.split option.split\<close>)

context fetch_world
begin

lemma own_redis:
  "result (redis E RequestCtx m) s = Inr (result m (exec (link_status E RequestCtx) (world s)))"
  "exec (redis E RequestCtx m) s = s\<lparr>world := exec m (exec (link_status E RequestCtx) (world s))\<rparr>"
  using own_delivered by (simp_all add: redis_def redis_do_def run)

lemma keeps_gentle:
  "(\<And>s. gentle key lock (vw (world s)) (vw (world (exec m s)))) \<Longrightarrow> keeps (\<lambda>s. gentle key lock v (vw (world s))) m"
  unfolding keeps_def using gentle_trans by blast

lemma on_world_gentle:
  "(\<And>w. vw (exec m w) = served vw m w) \<Longrightarrow> (\<And>w. time_passes vw m w) \<Longrightarrow>
   gentle key lock (vw (world s)) (vw (world (exec (on_world m) s)))"
  using quiet_gentle [of m "world s" key lock] unfolding exec_on_world by simp

lemma emit_gentle: "gentle key lock (vw (world s)) (vw (world (exec (emit e) s)))"
  by (simp add: run)

lemma timeout_gentle: "gentle key lock (vw (world s)) (vw (world (exec (with_timeout E c d) s)))"
  by (simp add: with_timeout_def run quiet_gentle [OF now_quiet now_time])

lemma record_gentle:
  fixes s :: "('w, 'x) sys_scheme"
  assumes k: "key \<noteq> fafRefreshMarkerKey E k" "lock \<noteq> fafRefreshMarkerKey E k" and ttl: "ttl_ok (dur_add d fafRefreshSafetyMargin)"
  shows "gentle key lock (vw (world s)) (vw (world (exec (recordBackendCallForFAF E c k d) s)))"
proof -
  let ?m = "c_setnx E (fafRefreshMarkerKey E k) (string_value E ''1'') (dur_add d fafRefreshSafetyMargin)"
  have "gentle key lock (vw (world t)) (vw (world (exec (redis E c ?m) t)))" for t :: "('w, 'x) sys_scheme"
  proof (rule redis_gentle)
    fix w
    have a: "gentle key lock (vw w) (served vw ?m w)"
      using setnx_time live_later [of "vw w" "server_time (vw (exec ?m w))" key]
      by (auto simp: gentle_def time_passes_def served_def)
    have p: "gentle key lock v (put_key (fafRefreshMarkerKey E k) y e v)" for v :: "'v view" and y e
      using k by (simp add: gentle_def live_def)
    show "gentle key lock (vw w) (vw (exec ?m w))"
    proof (cases "result ?m w")
      case True
      then show ?thesis using setnx_effect [OF ttl True] gentle_trans [OF a] p by metis
    next
      case False
      then show ?thesis using setnx_refused [OF ttl False] a by metis
    qed
  qed
  then have "keeps (\<lambda>s :: ('w, 'x) sys_scheme. gentle key lock v (vw (world s))) (recordBackendCallForFAF E c k d)" for v
    unfolding recordBackendCallForFAF_def Let_def by (intro wp keeps_gentle emit_gentle)
  then show ?thesis by (simp add: keeps_def)
qed

lemma announce_gentle:
  fixes s :: "('w, 'x) sys_scheme"
  assumes "key = CHR ''/'' # p" and "job_ok E key j"
  shows "gentle key (distributedLockKey E key) (vw (world s)) (vw (world (exec (announce E (wanted j) (BackendTimeoutMs (conf j))) s)))"
proof -
  let ?d = "dur_mul (BackendTimeoutMs (conf j)) millisecond"
  have "ttl_ok (dur_add ?d fafRefreshSafetyMargin)"
    using assms(2) by (auto simp: job_ok_def ttl_ok_def dur_mul_exact dur_add_exact in64_def fafRefreshSafetyMargin_def go_arith)
  then have "keeps (\<lambda>s :: ('w, 'x) sys_scheme. gentle key (distributedLockKey E key) v (vw (world s)))
      (announce E (wanted j) (BackendTimeoutMs (conf j)))" for v
    unfolding announce_def Let_def
    by (intro wp keeps_gentle time_gentle timeout_gentle record_gentle) (simp_all add: lock_key_facts assms(1) not_sym)
  then show ?thesis by (simp add: keeps_def)
qed

lemma proxied_gentle:
  fixes s :: "('w, 'x) sys_scheme"
  shows "gentle key lock (vw (world s)) (vw (world (exec (proxied E r start ctx) s)))"
proof -
  have "keeps (\<lambda>s :: ('w, 'x) sys_scheme. gentle key lock v (vw (world s))) (proxied E r start ctx)" for v
    unfolding proxied_def Let_def
    by (intro wp keeps_gentle time_gentle emit_gentle on_world_gentle proxy_quiet proxy_time done_quiet done_time)
  then show ?thesis by (simp add: keeps_def)
qed

text \<open>A lookup under the lock that misses shows that the key is not there.\<close>

lemma own_lookup:
  assumes "looks_up key pc" and "\<forall>out. pc \<noteq> Returned out"
    and "missed (Looking tok (result (l2_next E RequestCtx pc) s))"
  shows "missed (Looking tok pc) \<or> \<not> live key (vw (world (exec (l2_next E RequestCtx pc) s)))"
proof (cases pc)
  case (Reading k)
  let ?w = "exec (link_status E RequestCtx) (world s)"
  have "vw (exec (c_get E key) ?w) = served vw (c_get E key) ?w" by (rule get_effect)
  moreover have "lookup_at (served vw (c_get E key) ?w) key = None"
    using assms Reading get_result [of key ?w] by (auto simp: monad_run own_redis split: option.splits)
  ultimately show ?thesis using assms(1) Reading by (auto simp: monad_run own_redis live_def split: option.split)
next
  case (Discarding k)
  then show ?thesis
    using assms(1) del_effect [of "[key]" "exec (link_status E RequestCtx) (world s)"]
    by (simp add: monad_run own_redis live_def lookup_at_del)
qed (use assms in \<open>auto simp: monad_run\<close>)

lemma advances_quiet:
  assumes "gentle key (distributedLockKey E key) (vw (world s)) (vw (world t))" and "request_fine E key j pc'"
    and "owner_token pc' = owner_token pc" and "missed pc' \<Longrightarrow> missed pc \<or> \<not> live key (vw (world t))"
    and "metrics t = metrics s" and "calling pc' = calling pc"
  shows "advances E vw key j s pc t pc'"
  using assms by (simp add: advances_def spoilt_def)

lemma advances_l2:
  fixes s :: "'w sys"
  assumes idx: "zsets (vw (world s)) l2LRUKey (distributedLockKey E key) = None"
    and spares: "l2_spares (distributedLockKey E key) p" "\<not> writes p"
    and pc': "request_fine E key j (f (result (l2_next E c p) s))" "\<And>q. owner_token (f q) = owner_token (f p)"
      "\<And>q. \<not> writes q \<Longrightarrow> \<not> calling (f q)"
      "missed (f (result (l2_next E c p) s)) \<Longrightarrow> missed (f p) \<or> \<not> live key (vw (world (exec (l2_next E c p) s)))"
  shows "advances E vw key j s (f p) (exec (l2_next E c p) s) (f (result (l2_next E c p) s))"
  using l2_gentle [OF idx spares, of key c] next_not_writes [OF spares(2), of E c s] assms
  by (intro advances_quiet) (simp_all add: l2_next_metrics)

lemma step_waits:
  fixes s :: "'w sys"
  assumes key: "key = CHR ''/'' # p" and fine: "request_fine E key j pc"
    and idx: "zsets (vw (world s)) l2LRUKey (distributedLockKey E key) = None"
    and pc: "owner_token pc = None" "\<not> tries pc"
  shows "advances E vw key j s pc (exec (fetch_next E key j pc) s) (result (fetch_next E key j pc) s)"
proof (cases pc)
  case Starting
  then show ?thesis using fine timeout_gentle
    by (intro advances_quiet) (auto simp: monad_run request_fine_def with_timeout_def exec_on_world)
next
  case (Checking c q)
  then have q: "looks_up key q" and ok: "job_ok E key j" using fine by (simp_all add: request_fine_def)
  show ?thesis
  proof (cases "\<exists>out. q = Returned out")
    case True
    then show ?thesis using Checking ok
      by (intro advances_quiet) (auto simp: run request_fine_def split: l2_outcome.splits option.splits)
  next
    case False
    have "key \<noteq> distributedLockKey E key" using key lock_key_facts(4) by metis
    note sp = looks_up_spares [OF q this]
    have "advances E vw key j s (Checking c q) (exec (l2_next E c q) s) (Checking c (result (l2_next E c q) s))"
      using sp looks_up_next [OF q] ok
      by (intro advances_l2 [where f = "Checking c", OF idx]) (auto simp: request_fine_def)
    then show ?thesis using Checking False by (simp add: fetch_next_l2 del: fetch_next.simps)
  qed
next
  case (Probing c)
  then show ?thesis using fine exists_gentle
    by (intro advances_quiet) (auto simp: monad_run request_fine_def redis_metrics split: sum.splits if_splits)
next
  case (Sleeping c)
  have "keeps (\<lambda>t :: 'w sys. gentle key (distributedLockKey E key) (vw (world s)) (vw (world t))) (fetch_next E key j (Sleeping c))"
    unfolding fetch_next.simps
    by (intro wp keeps_gentle on_world_gentle pause_quiet pause_time done_quiet done_time)
  then have "gentle key (distributedLockKey E key) (vw (world s)) (vw (world (exec (fetch_next E key j (Sleeping c)) s)))"
    by (simp add: keeps_def)
  then show ?thesis using Sleeping fine
    by (intro advances_quiet) (auto simp: run request_fine_def)
next
  case (Answering res)
  then show ?thesis using fine by (intro advances_quiet) (simp_all add: run)
qed (use pc in simp_all)

lemma proxied_calls: "calls_of key (exec (proxied E r start ctx) s) = calls_of key s"
proof -
  have "logs (proxied E r start ctx) (\<lambda>_ tr. calls (\<lambda>e. e = IncBackendCalls key) tr = 0)"
    unfolding proxied_def Let_def by (intro wp) simp_all
  then show ?thesis using logsD [of "proxied E r start ctx" _ s] by fastforce
qed

lemma announce_calls: "calls_of key (exec (announce E r ms) s) = calls_of key s + of_bool (RequestURI E r = key)"
proof -
  have "logs (announce E r ms) (\<lambda>_ tr. calls (\<lambda>e. e = IncBackendCalls key) tr = of_bool (RequestURI E r = key))"
    unfolding announce_def Let_def by (intro wp logs_conseq [OF logs_record]) auto
  then show ?thesis using logsD [of "announce E r ms" _ s] by fastforce
qed

lemma step_owns:
  fixes s :: "'w sys"
  assumes key: "key = CHR ''/'' # p" and fine: "request_fine E key j pc"
    and idx: "zsets (vw (world s)) l2LRUKey (distributedLockKey E key) = None"
    and pc: "owner_token pc = Some tok" "\<not> frees pc" "\<And>res q. pc = Keeping tok res q \<Longrightarrow> \<not> writes q"
  shows "advances E vw key j s pc (exec (fetch_next E key j pc) s) (result (fetch_next E key j pc) s)"
proof (cases pc)
  case (Looking tok' q)
  then have q: "looks_up key q" and ok: "job_ok E key j" using fine by (simp_all add: request_fine_def)
  show ?thesis
  proof (cases "\<exists>out. q = Returned out")
    case True
    then show ?thesis using Looking ok q
      by (intro advances_quiet) (auto simp: run request_fine_def split: l2_outcome.splits option.splits)
  next
    case False
    have "key \<noteq> distributedLockKey E key" using key lock_key_facts(4) by metis
    note sp = looks_up_spares [OF q this]
    have "advances E vw key j s (Looking tok' q) (exec (l2_next E RequestCtx q) s) (Looking tok' (result (l2_next E RequestCtx q) s))"
      using sp looks_up_next [OF q] ok own_lookup [OF q, of tok' s] False
      by (intro advances_l2 [where f = "Looking tok'", OF idx]) (auto simp: request_fine_def)
    then show ?thesis using Looking False by (simp add: fetch_next_l2 del: fetch_next.simps)
  qed
next
  case (Announcing tok')
  then have ok: "job_ok E key j" using fine by (simp add: request_fine_def)
  show ?thesis using Announcing ok announce_gentle [OF key ok] announce_calls [of key "wanted j" "BackendTimeoutMs (conf j)" s]
    by (auto simp: advances_def monad_run spoilt_def request_fine_def job_ok_def split: prod.split)
next
  case (Proxying tok' start ctx)
  let ?res = "result (proxied E (wanted j) start ctx) s"
  have "after_call tok' ?res = Freeing tok' ?res \<or> (\<exists>v code. after_call tok' ?res = Dating tok' v code)"
    by (auto simp: after_call_def split: go.split option.split)
  then show ?thesis using Proxying fine proxied_gentle proxied_calls [of key "wanted j" start ctx s]
    by (auto simp: advances_def monad_run spoilt_def request_fine_def)
next
  case (Dating tok' v code)
  then show ?thesis using fine time_gentle [of key "distributedLockKey E key" s]
    by (intro advances_quiet) (auto simp: run Let_def request_fine_def)
next
  case (Keeping tok' res q)
  then have nw: "\<not> writes q" and ok: "job_ok E key j" using fine pc by (auto simp: request_fine_def)
  then have q: "l2_spares (distributedLockKey E key) q" using fine Keeping by (auto simp: request_fine_def split: l2_pc.splits)
  have nc: "\<not> calling (Keeping tok' res r)" "\<not> missed (Keeping tok' res r)" if "\<not> writes r" for r
    using that by (cases r; simp)+
  show ?thesis
  proof (cases "\<exists>out. q = Returned out")
    case True
    then show ?thesis using Keeping ok
      by (intro advances_quiet) (auto simp: run request_fine_def)
  next
    case False
    let ?q = "result (l2_next E RequestCtx q) s"
    have "request_fine E key j (Keeping tok' res ?q)"
      using l2_gentle [OF idx q nw, of key RequestCtx] next_not_writes [OF nw, of E RequestCtx s] ok
      by (auto simp: request_fine_def split: l2_pc.split)
    then have "advances E vw key j s (Keeping tok' res q) (exec (l2_next E RequestCtx q) s) (Keeping tok' res ?q)"
      using nc next_not_writes [OF nw, of E RequestCtx s]
      by (intro advances_l2 [where f = "Keeping tok' res", OF idx q nw]) auto
    then show ?thesis using Keeping False by (simp add: fetch_next_l2 del: fetch_next.simps)
  qed
qed (use pc in simp_all)

text \<open>The step that stores: the value is there afterwards, or it cannot be stored.\<close>

lemma step_stores:
  fixes s :: "'w sys"
  assumes fine: "request_fine E key j (Keeping tok res (Writing k v ttl m))" and ne: "key \<noteq> lock"
  defines "t \<equiv> exec (fetch_next E key j (Keeping tok res (Writing k v ttl m))) s"
    and "pc' \<equiv> result (fetch_next E key j (Keeping tok res (Writing k v ttl m))) s"
  shows "(t = s \<and> pc' = Keeping tok res (Returned Stored)) \<or>
    (pc' = Keeping tok res (Indexing key m) \<and> server_time (vw (world s)) \<le> server_time (vw (world t)) \<and>
     keys (vw (world t)) lock = keys (vw (world s)) lock \<and> zsets (vw (world t)) = zsets (vw (world s)) \<and>
     live key (vw (world t)) \<and> metrics t = metrics s)"
proof (cases "0 < m \<and> enc_l2 E (to_l2 v) \<noteq> None")
  case True
  have kt: "k = key" "ttl = keep_for j" "ttl_ok ttl" using fine by (simp_all add: request_fine_def job_ok_def)
  obtain d where d: "enc_l2 E (to_l2 v) = Some d" using True by blast
  let ?w = "exec (link_status E RequestCtx) (world s)" and ?m = "c_set E key d ttl"
  have t: "world t = exec ?m ?w" "metrics t = metrics s" "pc' = Keeping tok res (Indexing key m)"
    using True d kt(1) by (auto simp: t_def pc'_def monad_run own_redis split: option.split)
  obtain e where e: "expiry_for (served vw ?m ?w) ttl e" "vw (exec ?m ?w) = put_key key d e (served vw ?m ?w)"
    using set_effect [OF kt(3)] by blast
  have "live key (put_key key d e (served vw ?m ?w))"
    using e(1) kt(3) by (auto simp: live_def lookup_at_def expiry_for_def ttl_ok_def split: if_splits)
  then have "live key (vw (world t))" using e(2) t(1) by metis
  moreover have "keys (vw (world t)) lock = keys (vw (world s)) lock" "zsets (vw (world t)) = zsets (vw (world s))"
    using e(2) t(1) ne link_quiet [of RequestCtx "world s"] by (metis served_simps(1,2) view_fields(1,2) fun_upd_apply)+
  moreover have "server_time (vw (world s)) \<le> server_time (vw (world t))"
    using link_time [of RequestCtx "world s"] set_time [of key d ttl ?w] t(1) by (simp add: time_passes_def)
  ultimately show ?thesis using t(2,3) by blast
next
  case False
  then show ?thesis by (auto simp: t_def pc'_def run split: option.splits)
qed

end

section \<open>The invariant\<close>

definition in_flight :: "(job \<times> fetch_pc) list \<Rightarrow> nat" where
  "in_flight rs = length (filter (calling \<circ> snd) rs)"

lemma in_flight_simps [simp]: "in_flight [] = 0" "in_flight (rs @ [(j, pc)]) = in_flight rs + of_bool (calling pc)"
  by (simp_all add: in_flight_def)

lemma in_flight_update:
  "i < length rs \<Longrightarrow> rs ! i = (j, pc) \<Longrightarrow> in_flight (rs[i := (j', pc')]) + of_bool (calling pc) = in_flight rs + of_bool (calling pc')"
  by (induction rs arbitrary: i) (auto simp: in_flight_def nth_Cons split: nat.splits)

abbreviation key_lock_good :: "('w, 'v) env \<Rightarrow> ('w \<Rightarrow> 'v view) \<Rightarrow> string \<Rightarrow> 'w sys \<Rightarrow> string set \<Rightarrow> (nat \<Rightarrow> (string \<times> time) option) \<Rightarrow> bool" where
  "key_lock_good E vw key s used own \<equiv>
     lock_good (lock_clock vw) (lock_held E vw (distributedLockKey E key)) (s, used, own)"

definition in_lease :: "('w \<Rightarrow> 'v view) \<Rightarrow> 'w herd \<Rightarrow> nat \<Rightarrow> bool" where
  "in_lease vw x i \<longleftrightarrow> (case leases x i of None \<Rightarrow> False | Some (tok, e) \<Rightarrow> server_time (vw (world (gateways x))) < e)"

definition request_good :: "('w, 'v) env \<Rightarrow> ('w \<Rightarrow> 'v view) \<Rightarrow> string \<Rightarrow> 'w herd \<Rightarrow> nat \<Rightarrow> bool" where
  "request_good E vw key x i \<longleftrightarrow> (case requests x ! i of (j, pc) \<Rightarrow> request_fine E key j pc \<and>
     (\<forall>tok. owner_token pc = Some tok \<longrightarrow> (\<exists>e. leases x i = Some (tok, e))) \<and>
     (missed pc \<longrightarrow> in_lease vw x i \<longrightarrow> \<not> live key (vw (world (gateways x)))))"

definition herd_good :: "('w, 'v) env \<Rightarrow> ('w \<Rightarrow> 'v view) \<Rightarrow> string \<Rightarrow> 'w herd \<Rightarrow> bool" where
  "herd_good E vw key x \<longleftrightarrow> key_lock_good E vw key (gateways x) (tokens_drawn x) (leases x) \<and>
     zsets (vw (world (gateways x))) l2LRUKey (distributedLockKey E key) = None \<and>
     (\<forall>i < length (requests x). request_good E vw key x i) \<and>
     calls_of key (gateways x) = wasted x + lost x + of_bool (live key (vw (world (gateways x)))) + in_flight (requests x)"

text \<open>Two leases that have not run out are one.\<close>

lemma one_lease:
  assumes good: "key_lock_good E vw key (gateways x) (tokens_drawn x) (leases x)"
    and inj: "\<And>a b. string_value E a = string_value E b \<Longrightarrow> a = b" and "in_lease vw x i" "in_lease vw x k"
  shows "i = k"
proof -
  obtain tok e tok' e' where l: "leases x i = Some (tok, e)" "leases x k = Some (tok', e')"
      "server_time (vw (world (gateways x))) < e" "server_time (vw (world (gateways x))) < e'"
    using assms(3,4) by (auto simp: in_lease_def split: option.splits)
  then have "lock_held E vw (distributedLockKey E key) (gateways x) tok e" "lock_held E vw (distributedLockKey E key) (gateways x) tok' e'"
    using lock_goodD(2) [OF good] by (simp_all add: lock_clock_def)
  then have "tok = tok'" using inj by (simp add: lock_held_def)
  then show ?thesis using lock_goodD(3) [OF good l(1)] l(2) by simp
qed

text \<open>What a step of request \<open>i\<close> has to establish.\<close>

lemma good_turn:
  assumes good: "herd_good E vw key x" and i: "i < length (requests x)" "requests x ! i = (j, pc)"
    and y: "requests y = (requests x)[i := (j, pc')]" "wasted y = wasted x + spoilt pc pc'"
      "lost y = lost x + gone key (vw (world (gateways x))) (vw (world (gateways y)))" "\<And>k. k \<noteq> i \<Longrightarrow> leases y k = leases x k"
    and inj: "\<And>a b. string_value E a = string_value E b \<Longrightarrow> a = b"
    and lock: "key_lock_good E vw key (gateways y) (tokens_drawn y) (leases y)"
    and view: "server_time (vw (world (gateways x))) \<le> server_time (vw (world (gateways y)))"
      "zsets (vw (world (gateways y))) l2LRUKey (distributedLockKey E key) = None"
    and own: "request_good E vw key y i"
    and stores: "live key (vw (world (gateways y))) \<Longrightarrow> live key (vw (world (gateways x))) \<or> in_lease vw y i"
    and count: "calls_of key (gateways y) + of_bool (calling pc) + of_bool (live key (vw (world (gateways x)))) =
      calls_of key (gateways x) + of_bool (calling pc') + spoilt pc pc' +
      gone key (vw (world (gateways x))) (vw (world (gateways y))) + of_bool (live key (vw (world (gateways y))))"
  shows "herd_good E vw key y"
proof -
  have "request_good E vw key y k" if k: "k < length (requests y)" for k
  proof (cases "k = i")
    case False
    then have same: "requests y ! k = requests x ! k" "leases y k = leases x k" using y(1,4) by simp_all
    have g: "request_good E vw key x k" using good k y(1) by (simp add: herd_good_def)
    have "\<not> live key (vw (world (gateways y)))"
      if "missed (snd (requests x ! k))" "in_lease vw y k"
    proof
      assume l: "live key (vw (world (gateways y)))"
      have "in_lease vw x k" using that(2) view(1) same(2) by (auto simp: in_lease_def split: option.splits)
      then have "\<not> live key (vw (world (gateways x)))" using g that(1) by (auto simp: request_good_def split: prod.splits)
      then have "in_lease vw y i" using stores [OF l] by blast
      then show False using one_lease [OF lock inj that(2)] False by blast
    qed
    then show ?thesis using g unfolding request_good_def same by (auto split: prod.splits)
  qed (use own in simp)
  moreover have "in_flight (requests y) + of_bool (calling pc) = in_flight (requests x) + of_bool (calling pc')"
    unfolding y(1) by (rule in_flight_update [OF i])
  moreover have "calls_of key (gateways x) = wasted x + lost x + of_bool (live key (vw (world (gateways x)))) + in_flight (requests x)"
    using good by (simp add: herd_good_def)
  ultimately show ?thesis using lock view(2) count y(2,3) by (simp add: herd_good_def)
qed

section \<open>Every step keeps the invariant\<close>

lemma fetch_turn_fields:
  assumes "requests x ! i = (j, pc)"
  shows "gateways (fetch_turn E vw key i x) = exec (fetch_next E key j pc) (gateways x)"
    "requests (fetch_turn E vw key i x) = (requests x)[i := (j, result (fetch_next E key j pc) (gateways x))]"
    "wasted (fetch_turn E vw key i x) = wasted x + spoilt pc (result (fetch_next E key j pc) (gateways x))"
    "lost (fetch_turn E vw key i x) = lost x + gone key (vw (world (gateways x))) (vw (world (gateways (fetch_turn E vw key i x))))"
    "tokens_drawn (fetch_turn E vw key i x) = tokens_drawn x" "leases (fetch_turn E vw key i x) = leases x"
  using assms by (simp_all add: fetch_turn_def Let_def)

lemma gone_count: "(live key v' \<Longrightarrow> live key v) \<Longrightarrow> gone key v v' + of_bool (live key v') = of_bool (live key v)"
  by (auto simp: gone_def)

text \<open>What leaves the lock's key alone keeps every lease.\<close>

lemma gentle_lock_good:
  "server_time (vw (world s)) \<le> server_time (vw (world t)) \<Longrightarrow>
   keys (vw (world t)) (distributedLockKey E key) = keys (vw (world s)) (distributedLockKey E key) \<Longrightarrow>
   key_lock_good E vw key s used own \<Longrightarrow> key_lock_good E vw key t used own"
  unfolding lock_good_def lock_clock_def lock_held_def by fastforce

text \<open>Attempts and releases, as far as the key is concerned.\<close>

lemma attempt_mild:
  assumes "lock_attempt E lock ttl (v\<lparr>server_time := t\<rparr>) r v'" and "server_time v \<le> t" and "key \<noteq> lock"
  shows "server_time v \<le> server_time v'" "zsets v' = zsets v" "live key v' \<Longrightarrow> live key v"
proof -
  have "v' = v\<lparr>server_time := t\<rparr> \<or> (\<exists>x e. v' = put_key lock x e (v\<lparr>server_time := t\<rparr>))"
    using assms(1) by cases auto
  then show "server_time v \<le> server_time v'" "zsets v' = zsets v" "live key v' \<Longrightarrow> live key v"
    using assms(2,3) live_later [OF assms(2), of key] by (auto simp: live_def simp del: view_time)
qed

lemma release_mild:
  assumes "release_shape E lock tok v v'" and "key \<noteq> lock" and "l2LRUKey \<noteq> lock"
  shows "server_time v \<le> server_time v'" "zsets v' l2LRUKey = zsets v l2LRUKey" "live key v' \<Longrightarrow> live key v"
proof -
  obtain u t where "server_time v \<le> u" "u \<le> t"
      and v': "v' = v\<lparr>server_time := t\<rparr> \<or> v' = (del_keys [lock] v)\<lparr>server_time := t\<rparr>"
    using assms(1) unfolding release_shape_def by blast
  then have t: "server_time v \<le> t" "v' = v\<lparr>server_time := t\<rparr> \<or> v' = (del_keys [lock] v)\<lparr>server_time := t\<rparr>" by simp_all
  have "live key ((del_keys [lock] v)\<lparr>server_time := t\<rparr>) \<Longrightarrow> live key v"
    using live_later [of "del_keys [lock] v" t key] t(1) assms(2) by (simp add: live_def lookup_at_del)
  then show "server_time v \<le> server_time v'" "zsets v' l2LRUKey = zsets v l2LRUKey" "live key v' \<Longrightarrow> live key v"
    using t assms(3) live_later [OF t(1), of key] by auto
qed

context fetch_world
begin

lemma job_lock_ttl:
  assumes "job_ok E key j"
  shows "ttl_ok (lock_ttl (conf j))" "lock_ttl (conf j) \<noteq> 0"
  using assms by (auto simp: job_ok_def ttl_ok_def lock_ttl_def dur_mul_exact dur_add_exact in64_def lockSafetyMargin_def go_arith)

lemma key_facts:
  assumes "key = CHR ''/'' # p"
  shows "key \<noteq> distributedLockKey E key" "l2LRUKey \<noteq> distributedLockKey E key"
  using lock_key_facts assms by metis+

lemma good_advance:
  assumes key: "key = CHR ''/'' # p" and good: "herd_good E vw key x" and i: "i < length (requests x)" "requests x ! i = (j, pc)"
    and adv: "advances E vw key j (gateways x) pc (exec (fetch_next E key j pc) (gateways x)) (result (fetch_next E key j pc) (gateways x))"
  shows "herd_good E vw key (fetch_turn E vw key i x)"
proof -
  let ?s = "gateways x" and ?y = "fetch_turn E vw key i x" and ?pc' = "result (fetch_next E key j pc) (gateways x)"
  note y = fetch_turn_fields [OF i(2), of E vw key]
  have a: "gentle key (distributedLockKey E key) (vw (world ?s)) (vw (world (gateways ?y)))" "request_fine E key j ?pc'"
      "owner_token ?pc' = owner_token pc" "missed ?pc' \<Longrightarrow> missed pc \<or> \<not> live key (vw (world (gateways ?y)))"
      "calls_of key (gateways ?y) + of_bool (calling pc) = calls_of key ?s + of_bool (calling ?pc') + spoilt pc ?pc'"
    using adv unfolding advances_def y(1) by blast+
  have g: "server_time (vw (world ?s)) \<le> server_time (vw (world (gateways ?y)))"
      "keys (vw (world (gateways ?y))) (distributedLockKey E key) = keys (vw (world ?s)) (distributedLockKey E key)"
      "live key (vw (world (gateways ?y))) \<Longrightarrow> live key (vw (world ?s))"
      "zsets (vw (world (gateways ?y))) l2LRUKey (distributedLockKey E key) = None"
    using a(1) good by (auto simp: gentle_def herd_good_def)
  have r: "request_good E vw key x i" using good i(1) by (simp add: herd_good_def)
  have "in_lease vw ?y i \<Longrightarrow> in_lease vw x i" using g(1) y(6) by (auto simp: in_lease_def split: option.splits)
  then have "request_good E vw key ?y i"
    using r a(2,3,4) g(3) i by (auto simp: request_good_def y(2,6))
  moreover have "key_lock_good E vw key (gateways ?y) (tokens_drawn ?y) (leases ?y)"
    unfolding y(5,6) by (rule gentle_lock_good [OF g(1,2)]) (use good in \<open>simp add: herd_good_def\<close>)
  ultimately show ?thesis
    by (intro good_turn [OF good i, where pc' = ?pc'] string_value_inj)
      (use y g a(5) gone_count [OF g(3)] in auto)
qed

lemma good_claim:
  assumes key: "key = CHR ''/'' # p" and good: "herd_good E vw key x" and i: "i < length (requests x)" "requests x ! i = (j, Trying c)"
    and y: "y = (fetch_turn E vw key i x)\<lparr>tokens_drawn := used, leases := own\<rparr>" "\<And>k. k \<noteq> i \<Longrightarrow> own k = leases x k"
    and lock: "key_lock_good E vw key (gateways (fetch_turn E vw key i x)) used own"
    and own: "\<And>tok. result (tryAcquireDistributedLock E c (distributedLockKey E key) (lock_ttl (conf j))) (gateways x) = Inr (tok, True) \<Longrightarrow>
      \<exists>e. own i = Some (tok, e)"
  shows "herd_good E vw key y"
proof -
  let ?L = "distributedLockKey E key" and ?s = "gateways x"
  let ?a = "tryAcquireDistributedLock E c ?L (lock_ttl (conf j))" and ?pc' = "result (fetch_next E key j (Trying c)) (gateways x)"
  note f = fetch_turn_fields [OF i(2), of E vw key]
  have ok: "job_ok E key j" using good i by (auto simp: herd_good_def request_good_def request_fine_def)
  have ex: "exec (fetch_next E key j (Trying c)) ?s = exec ?a ?s" by (simp add: run)
  obtain t where "server_time (vw (world ?s)) \<le> t"
      "lock_attempt E ?L (lock_ttl (conf j)) ((vw (world ?s))\<lparr>server_time := t\<rparr>) (result ?a ?s) (vw (world (exec ?a ?s)))"
    using tryAcquire_attempt [OF job_lock_ttl(1) [OF ok], of ?s] by blast
  note mild = attempt_mild [OF this(2,1) key_facts(1) [OF key]]
  have "logs ?a (\<lambda>_ tr. calls (\<lambda>e. e = IncBackendCalls key) tr = 0)"
    unfolding tryAcquireDistributedLock_def newDistributedLockToken_def by (intro wp) auto
  then have calls: "calls_of key (exec ?a ?s) = calls_of key ?s" using logsD [of ?a _ ?s] by fastforce
  have pc': "request_fine E key j ?pc'" "\<not> missed ?pc'" "\<not> calling ?pc'"
    using ok by (auto simp: run request_fine_def split: sum.split)
  have "owner_token ?pc' = Some tok \<Longrightarrow> \<exists>e. own i = Some (tok, e)" for tok
    using own by (auto simp: run split: sum.splits if_splits)
  then have "request_good E vw key y i" using pc' i(1) by (auto simp: request_good_def y(1) f(2))
  moreover have "spoilt (Trying c) ?pc' = 0" by (simp add: spoilt_def)
  ultimately show ?thesis
    by (intro good_turn [OF good i, where pc' = ?pc'] string_value_inj)
      (use y lock good mild calls pc'(3) gone_count [OF mild(3)] in \<open>auto simp: f ex herd_good_def simp del: fetch_next.simps\<close>)
qed

lemma lock_moves:
  assumes "job_ok E key j" and good: "herd_good E vw key x"
    and step: "lock_step (\<lambda>c. tryAcquireDistributedLock E c (distributedLockKey E key) (lock_ttl (conf j)))
      (releaseDistributedLock E (distributedLockKey E key)) (lock_clock vw) (lock_held E vw (distributedLockKey E key))
      (gateways x, tokens_drawn x, leases x) (t, used, own)"
  shows "key_lock_good E vw key t used own"
proof -
  have "key_lock_good E vw key (gateways x) (tokens_drawn x) (leases x)" using good by (simp add: herd_good_def)
  then show ?thesis
    by (rule lock_service.lock_good_step [OF distributed_service [OF job_lock_ttl [OF assms(1)]] _ step])
qed

lemma good_storing:
  assumes key: "key = CHR ''/'' # p" and good: "herd_good E vw key x" and i: "i < length (requests x)" "requests x ! i = (j, pc)"
    and pc: "pc = Keeping tok res q" "writes q" and l: "leases x i = Some (tok, e)"
    and late: "server_time (vw (world (gateways (fetch_turn E vw key i x)))) < e"
  shows "herd_good E vw key (fetch_turn E vw key i x)"
proof -
  let ?s = "gateways x" and ?y = "fetch_turn E vw key i x" and ?L = "distributedLockKey E key"
  let ?pc' = "result (fetch_next E key j pc) (gateways x)"
  note y = fetch_turn_fields [OF i(2), of E vw key]
  obtain k v ttl m where w: "pc = Keeping tok res (Writing k v ttl m)" using pc by (cases q) auto
  have r: "request_good E vw key x i" using good i(1) by (simp add: herd_good_def)
  then have fine: "request_fine E key j pc" using i(2) by (simp add: request_good_def)
  consider "gateways ?y = ?s" "?pc' = Keeping tok res (Returned Stored)"
    | "?pc' = Keeping tok res (Indexing key m)" "server_time (vw (world ?s)) \<le> server_time (vw (world (gateways ?y)))"
      "keys (vw (world (gateways ?y))) ?L = keys (vw (world ?s)) ?L" "zsets (vw (world (gateways ?y))) = zsets (vw (world ?s))"
      "live key (vw (world (gateways ?y)))" "metrics (gateways ?y) = metrics ?s"
    using step_stores [OF fine [unfolded w] key_facts(1) [OF key], of ?s] unfolding y(1) w by blast
  then show ?thesis
  proof cases
    case 1
    have ex: "exec (fetch_next E key j pc) ?s = ?s" using 1(1) y(1) by simp
    have "advances E vw key j ?s pc (exec (fetch_next E key j pc) ?s) ?pc'"
      using fine unfolding ex 1(2) by (simp add: advances_def request_fine_def w spoilt_def)
    then show ?thesis by (rule good_advance [OF key good i])
  next
    case 2
    have "in_lease vw x i" "in_lease vw ?y i" using l late 2(2) y(6) by (simp_all add: in_lease_def)
    moreover have "missed pc" by (simp add: w)
    ultimately have lease: "in_lease vw ?y i" and before: "\<not> live key (vw (world ?s))"
      using r i(2) by (simp_all add: request_good_def)
    have "request_fine E key j ?pc'" using fine key_facts(1) [OF key] unfolding 2(1) by (simp add: request_fine_def)
    then have "request_good E vw key ?y i" using i(1) l by (simp add: request_good_def y(2,6) 2(1))
    moreover have "key_lock_good E vw key (gateways ?y) (tokens_drawn ?y) (leases ?y)"
      unfolding y(5,6) by (rule gentle_lock_good [OF 2(2,3)]) (use good in \<open>simp add: herd_good_def\<close>)
    moreover have "spoilt pc ?pc' = 0" "calling pc" "\<not> calling ?pc'"
      unfolding 2(1) by (simp_all add: spoilt_def w)
    moreover have "gone key (vw (world ?s)) (vw (world (gateways ?y))) = 0" using before by (simp add: gone_def)
    ultimately show ?thesis
      by (intro good_turn [OF good i, where pc' = ?pc'] string_value_inj)
        (use y(2-6) 2 before lease good in \<open>auto simp: herd_good_def simp del: fetch_next.simps\<close>)
  qed
qed

lemma good_free:
  assumes key: "key = CHR ''/'' # p" and good: "herd_good E vw key x" and i: "i < length (requests x)" "requests x ! i = (j, Freeing tok res)"
    and l: "leases x i = Some (tok, e)"
  shows "herd_good E vw key ((fetch_turn E vw key i x)\<lparr>leases := (leases x)(i := None)\<rparr>)"
proof -
  let ?s = "gateways x" and ?L = "distributedLockKey E key" and ?y = "(fetch_turn E vw key i x)\<lparr>leases := (leases x)(i := None)\<rparr>"
  let ?r = "releaseDistributedLock E (distributedLockKey E key) tok"
  note f = fetch_turn_fields [OF i(2), of E vw key]
  have ok: "job_ok E key j" using good i by (auto simp: herd_good_def request_good_def request_fine_def)
  have y: "gateways ?y = exec ?r ?s" "result (fetch_next E key j (Freeing tok res)) ?s = Answering res"
      "requests ?y = (requests x)[i := (j, Answering res)]" "exec (fetch_next E key j (Freeing tok res)) ?s = exec ?r ?s"
    by (simp_all add: f run)
  note mild = release_mild [OF release_shape_lock [of ?L tok ?s] key_facts [OF key]]
  have calls: "calls_of key (exec ?r ?s) = calls_of key ?s" using logsD [OF logs_release, of E ?L tok ?s] by fastforce
  have "lock_step (\<lambda>c. tryAcquireDistributedLock E c ?L (lock_ttl (conf j))) (releaseDistributedLock E ?L) (lock_clock vw)
      (lock_held E vw ?L) (?s, tokens_drawn x, leases x) (exec ?r ?s, tokens_drawn x, (leases x)(i := None))"
    by (rule lock_release [where own = "leases x" and i = i and tok = tok and e = e]) (rule l)
  then have "key_lock_good E vw key (gateways ?y) (tokens_drawn ?y) (leases ?y)"
    unfolding y(1) using lock_moves [OF ok good] by (simp add: f)
  moreover have "request_good E vw key ?y i" using i(1) ok by (simp add: request_good_def y(3) request_fine_def)
  moreover have "spoilt (Freeing tok res) (Answering res) = 0" by (simp add: spoilt_def)
  ultimately show ?thesis
    by (intro good_turn [OF good i, where pc' = "Answering res"] string_value_inj)
      (use mild calls gone_count [OF mild(3)] good in \<open>simp_all add: f y herd_good_def del: fetch_next.simps\<close>)
qed

lemma good_begin:
  assumes good: "herd_good E vw key x" and j: "job_ok E key j"
  shows "herd_good E vw key (x\<lparr>requests := requests x @ [(j, Starting)]\<rparr>)"
proof -
  let ?y = "x\<lparr>requests := requests x @ [(j, Starting)]\<rparr>"
  have "request_good E vw key ?y i" if "i < length (requests ?y)" for i
  proof (cases "i < length (requests x)")
    case True
    then have "request_good E vw key x i" using good by (simp add: herd_good_def)
    moreover have "in_lease vw ?y i = in_lease vw x i" by (simp add: in_lease_def split: option.split)
    ultimately show ?thesis using True by (simp add: request_good_def nth_append)
  next
    case False
    then have "i = length (requests x)" using that by simp
    then show ?thesis using j by (simp add: request_good_def request_fine_def)
  qed
  then show ?thesis using good by (simp add: herd_good_def)
qed

lemma good_others:
  assumes good: "herd_good E vw key x" and g: "gentle key (distributedLockKey E key) (vw (world (gateways x))) (vw w)"
  shows "herd_good E vw key (x\<lparr>gateways := (gateways x)\<lparr>world := w\<rparr>, lost := lost x + gone key (vw (world (gateways x))) (vw w)\<rparr>)"
proof -
  let ?y = "x\<lparr>gateways := (gateways x)\<lparr>world := w\<rparr>, lost := lost x + gone key (vw (world (gateways x))) (vw w)\<rparr>"
  have v: "server_time (vw (world (gateways x))) \<le> server_time (vw w)" "live key (vw w) \<Longrightarrow> live key (vw (world (gateways x)))"
      "keys (vw w) (distributedLockKey E key) = keys (vw (world (gateways x))) (distributedLockKey E key)"
    using g by (simp_all add: gentle_def)
  have "in_lease vw ?y i \<Longrightarrow> in_lease vw x i" for i using v(1) by (auto simp: in_lease_def split: option.splits)
  then have "request_good E vw key x i \<Longrightarrow> request_good E vw key ?y i" for i using v(2) by (auto simp: request_good_def split: prod.splits)
  moreover have "key_lock_good E vw key (gateways ?y) (tokens_drawn ?y) (leases ?y)"
    by (rule gentle_lock_good [of _ "gateways x"]) (use good v in \<open>simp_all add: herd_good_def\<close>)
  ultimately show ?thesis using good g gone_count [OF v(2)] by (auto simp: herd_good_def gentle_def)
qed

lemma herd_good_step:
  assumes key: "key = CHR ''/'' # p" and good: "herd_good E vw key x" and step: "herd_step E vw key x y"
  shows "herd_good E vw key y"
  using step
proof cases
  case (herd_begin j)
  then show ?thesis using good_begin [OF good] by simp
next
  case (herd_won i j c tok e)
  have ok: "job_ok E key j" using good herd_won(2,3) by (auto simp: herd_good_def request_good_def request_fine_def)
  let ?acq = "\<lambda>c. tryAcquireDistributedLock E c (distributedLockKey E key) (lock_ttl (conf j))"
  have ex: "gateways (fetch_turn E vw key i x) = exec (?acq c) (gateways x)"
    by (simp add: fetch_turn_fields [OF herd_won(3)] run)
  have "lock_step ?acq (releaseDistributedLock E (distributedLockKey E key)) (lock_clock vw) (lock_held E vw (distributedLockKey E key))
      (gateways x, tokens_drawn x, leases x) (exec (?acq c) (gateways x), insert tok (tokens_drawn x), (leases x)(i \<mapsto> (tok, e)))"
    by (rule lock_acquire [where acq = ?acq]) (use herd_won(4-6) ex in simp_all)
  then have "key_lock_good E vw key (gateways (fetch_turn E vw key i x)) (insert tok (tokens_drawn x)) ((leases x)(i \<mapsto> (tok, e)))"
    unfolding ex by (rule lock_moves [OF ok good])
  then show ?thesis using good_claim [OF key good herd_won(2,3,1)] herd_won(4) by simp
next
  case (herd_refused i j c)
  have ok: "job_ok E key j" using good herd_refused(2,3) by (auto simp: herd_good_def request_good_def request_fine_def)
  let ?acq = "\<lambda>c. tryAcquireDistributedLock E c (distributedLockKey E key) (lock_ttl (conf j))"
  note f = fetch_turn_fields [OF herd_refused(3), of E vw key]
  have ex: "gateways (fetch_turn E vw key i x) = exec (?acq c) (gateways x)" by (simp add: f run)
  have "lock_step ?acq (releaseDistributedLock E (distributedLockKey E key)) (lock_clock vw) (lock_held E vw (distributedLockKey E key))
      (gateways x, tokens_drawn x, leases x) (exec (?acq c) (gateways x), tokens_drawn x, leases x)"
    by (rule lock_refused [where acq = ?acq]) (use herd_refused(4) in simp)
  then have "key_lock_good E vw key (gateways (fetch_turn E vw key i x)) (tokens_drawn x) (leases x)"
    unfolding ex by (rule lock_moves [OF ok good])
  moreover have "y = (fetch_turn E vw key i x)\<lparr>tokens_drawn := tokens_drawn x, leases := leases x\<rparr>"
    using herd_refused(1) f(5,6) by simp
  ultimately show ?thesis using good_claim [OF key good herd_refused(2,3)] herd_refused(4) by blast
next
  case (herd_wait i j pc)
  then have "request_fine E key j pc" "zsets (vw (world (gateways x))) l2LRUKey (distributedLockKey E key) = None"
    using good by (auto simp: herd_good_def request_good_def)
  then show ?thesis using good_advance [OF key good herd_wait(2,3)] step_waits [OF key] herd_wait by blast
next
  case (herd_own i j pc tok e)
  have fine: "request_fine E key j pc" "zsets (vw (world (gateways x))) l2LRUKey (distributedLockKey E key) = None"
    using good herd_own(2,3) by (auto simp: herd_good_def request_good_def)
  show ?thesis
  proof (cases "\<exists>res q. pc = Keeping tok res q \<and> writes q")
    case True
    then show ?thesis using good_storing [OF key good herd_own(2,3)] herd_own by blast
  next
    case False
    then have "\<And>res q. pc = Keeping tok res q \<Longrightarrow> \<not> writes q" by blast
    then have "\<And>tok' res q. pc = Keeping tok' res q \<Longrightarrow> \<not> writes q" using herd_own(4) by auto
    then show ?thesis
      using good_advance [OF key good herd_own(2,3)] step_owns [OF key fine herd_own(4,5)] herd_own(1) False by blast
  qed
next
  case (herd_free i j tok res e)
  then show ?thesis using good_free [OF key good] by simp
next
  case (herd_others w)
  then show ?thesis using good_others [OF good] by simp
qed

lemma herd_good_start: "herd_start E vw key x \<Longrightarrow> herd_good E vw key x"
  by (simp add: herd_start_def herd_good_def lock_good_def)

lemma herd_invariant:
  assumes "key = CHR ''/'' # p"
  shows "inductive_invariant (herd_start E vw key) (herd_step E vw key) (herd_good E vw key)"
  by unfold_locales (rule herd_good_start, assumption, rule herd_good_step [OF assms])

end

section \<open>Properties\<close>


text \<open>
  C1. However many requests for one key are under way at however many gateways, in whatever interleaving
  of their Redis commands with evictions, clears, crashes and lost commands of those that wait: the backend
  has been called at most once, and once more for every call that gave nothing to store, every time the
  stored value was lost, and every owner that is still calling when its lease has run out. This
  is for gateways with the lock switched on and early refresh switched off (a refresh stores without the
  lock), and for owners whose commands arrive and are served within the lease.
\<close>

theorem herd_calls_backend_once:
  assumes "fetch_world E vw" and "key = CHR ''/'' # p" and "reaches (herd_start E vw key) (herd_step E vw key) x"
  shows "calls_of key (gateways x) \<le> 1 + wasted x + lost x +
    card {i. i < length (requests x) \<and> calling (snd (requests x ! i)) \<and> \<not> in_lease vw x i}"
proof -
  have good: "herd_good E vw key x"
    by (rule inductive_invariant.reaches_good [OF fetch_world.herd_invariant [OF assms(1,2)] assms(3)])
  let ?all = "{i. i < length (requests x) \<and> calling (snd (requests x ! i))}" and ?on = "{i. i < length (requests x) \<and> calling (snd (requests x ! i)) \<and> in_lease vw x i}"
  let ?off = "{i. i < length (requests x) \<and> calling (snd (requests x ! i)) \<and> \<not> in_lease vw x i}"
  have inj: "string_value E a = string_value E b \<Longrightarrow> a = b" for a b
    by (rule redis_lock.string_value_inj [OF fetch_world.axioms(2) [OF assms(1)]])
  have "k = i" if "i \<in> ?on" "k \<in> ?on" for i k
    using that good one_lease [where E = E and vw = vw and key = key and x = x and i = i and k = k] inj by (auto simp: herd_good_def)
  then have one: "card ?on \<le> 1" by (auto simp: card_le_Suc0_iff_eq)
  have none: "\<not> live key (vw (world (gateways x)))" if on: "?on \<noteq> {}"
  proof -
    obtain i where i: "i < length (requests x)" "calling (snd (requests x ! i))" "in_lease vw x i" using on by blast
    then have "request_good E vw key x i" using good by (simp add: herd_good_def)
    then show ?thesis using i calling_missed by (auto simp: request_good_def split: prod.splits)
  qed
  have "in_flight (requests x) = card ?all" by (simp add: in_flight_def length_filter_conv_card)
  moreover have "card ?all = card ?on + card ?off"
    by (subst card_Un_disjoint [symmetric]) (auto intro!: arg_cong [where f = card])
  moreover define n where "n = card ?on"
  moreover have "n = 0 \<or> \<not> live key (vw (world (gateways x)))"
    using none unfolding n_def by (metis (no_types, lifting) card.empty)
  ultimately show ?thesis using good one by (auto simp: herd_good_def)
qed

section \<open>Two requests at once\<close>

interpretation mini_world: fetch_world mini_env mini_view
  by unfold_locales
    (auto simp: mini_env_def mini_run run served_def time_passes_def mini_view_def advance_def split: list.split prod.split)

definition sample_key :: string where
  "sample_key = ''/api/backend/7''"

definition sample_job :: job where
  "sample_job = \<lparr>wanted = sample_request, keep_for = 9 * second, conf = sample_config\<rparr>"

definition two_requests :: "mini \<Rightarrow> mini herd" where
  "two_requests w = \<lparr>gateways = mini_sys w, requests = [(sample_job, Starting), (sample_job, Starting)], tokens_drawn = {},
     leases = Map.empty, wasted = 0, lost = 0\<rparr>"

text \<open>A turn with its leases, and whether it is a step of the herd.\<close>

definition lease_end :: "mini herd \<Rightarrow> time" where
  "lease_end x = (case m_keys (world (gateways x)) (distributedLockKey mini_env sample_key) of Some (_, Some e) \<Rightarrow> e | _ \<Rightarrow> 0)"

definition herd_act :: "nat \<Rightarrow> mini herd \<Rightarrow> mini herd" where
  "herd_act i x = (let (j, pc) = requests x ! i; y = fetch_turn mini_env mini_view sample_key i x in
     if frees pc then y\<lparr>leases := (leases x)(i := None)\<rparr>
     else if owner_token pc = None then (case owner_token (snd (requests y ! i)) of
         None \<Rightarrow> y
       | Some tok \<Rightarrow> y\<lparr>tokens_drawn := insert tok (tokens_drawn x), leases := (leases x)(i \<mapsto> (tok, lease_end y))\<rparr>)
     else y)"

definition herd_may :: "nat \<Rightarrow> mini herd \<Rightarrow> bool" where
  "herd_may i x \<longleftrightarrow> i < length (requests x) \<and> (let pc = snd (requests x ! i); y = fetch_turn mini_env mini_view sample_key i x in
     case owner_token pc of
       None \<Rightarrow> (case owner_token (snd (requests y ! i)) of
           None \<Rightarrow> True
         | Some tok \<Rightarrow> tok \<notin> tokens_drawn x \<and>
             m_keys (world (gateways y)) (distributedLockKey mini_env sample_key) = Some (MStr tok, Some (lease_end y)))
     | Some tok \<Rightarrow> (case leases x i of
           None \<Rightarrow> False
         | Some (tok', e) \<Rightarrow> tok = tok' \<and> (frees pc \<or> m_time (world (gateways y)) < e)))"

lemma herd_may_step:
  assumes "herd_may i x"
  shows "herd_step mini_env mini_view sample_key x (herd_act i x)"
proof -
  obtain j pc where i: "requests x ! i = (j, pc)" by (cases "requests x ! i") blast
  note y = fetch_turn_fields [OF i, of mini_env mini_view sample_key]
  have len: "i < length (requests x)" using assms by (simp add: herd_may_def)
  show ?thesis
  proof (cases "owner_token pc")
    case None
    show ?thesis
    proof (cases pc)
      case (Trying c)
      let ?a = "tryAcquireDistributedLock mini_env c (distributedLockKey mini_env sample_key) (lock_ttl (conf j))"
      show ?thesis
      proof (cases "\<exists>tok. result ?a (gateways x) = Inr (tok, True)")
        case True
        then obtain tok where tok: "result ?a (gateways x) = Inr (tok, True)" by blast
        then have "owner_token (snd (requests (fetch_turn mini_env mini_view sample_key i x) ! i)) = Some tok"
          using len by (simp add: y(2) Trying run)
        then show ?thesis
          using assms None i len herd_won [OF len i [unfolded Trying] tok]
          by (simp add: herd_may_def herd_act_def Let_def lock_held_def mini_view_def Trying)
      next
        case False
        then have "owner_token (snd (requests (fetch_turn mini_env mini_view sample_key i x) ! i)) = None"
          using len by (auto simp: y(2) Trying run split: sum.split)
        then show ?thesis
          using None i herd_refused [OF len i [unfolded Trying]] False by (simp add: herd_act_def Let_def Trying)
      qed
    qed (use None len i y(2) herd_wait [OF len i None] in \<open>auto simp: herd_act_def Let_def run split: l2_pc.split l2_outcome.split option.split sum.split\<close>)
  next
    case (Some tok)
    then obtain e where e: "leases x i = Some (tok, e)"
        "frees pc \<or> m_time (world (gateways (fetch_turn mini_env mini_view sample_key i x))) < e"
      using assms i by (auto simp: herd_may_def Let_def split: option.splits)
    show ?thesis
    proof (cases "frees pc")
      case True
      then obtain res where pc: "pc = Freeing tok res" using Some by (cases pc) auto
      show ?thesis using herd_free [OF len i [unfolded pc] e(1)] i by (simp add: herd_act_def Let_def pc)
    next
      case False
      then show ?thesis using herd_own [OF len i Some False e(1), where E = mini_env and vw = mini_view and key = sample_key] e(2) i Some
        by (simp add: herd_act_def Let_def mini_view_def)
    qed
  qed
qed

primrec herd_run :: "nat list \<Rightarrow> mini herd \<Rightarrow> mini herd option" where
  "herd_run [] x = Some x"
| "herd_run (i # is) x = (if herd_may i x then herd_run is (herd_act i x) else None)"

lemma herd_run_reaches:
  "herd_run is x = Some y \<Longrightarrow> reaches start (herd_step mini_env mini_view sample_key) x \<Longrightarrow>
   reaches start (herd_step mini_env mini_view sample_key) y"
  by (induction "is" arbitrary: x) (auto split: if_splits intro: reach_step herd_may_step)

lemma two_requests_reached:
  "reaches (herd_start mini_env mini_view sample_key) (herd_step mini_env mini_view sample_key) (two_requests empty_mini)"
proof -
  let ?x = "(two_requests empty_mini)\<lparr>requests := []\<rparr>"
  have start: "herd_start mini_env mini_view sample_key ?x"
    by (simp add: herd_start_def two_requests_def live_def lookup_at_def mini_view_def empty_mini_def mini_sys_def)
  have "job_ok mini_env sample_key sample_job"
    by (simp add: job_ok_def sample_job_def sample_key_def sample_request_def RequestURI_def mini_env_def ttl_ok_def go_arith sample_config_def)
  note b = herd_begin [OF this, of mini_view]
  have "reaches (herd_start mini_env mini_view sample_key) (herd_step mini_env mini_view sample_key)
      (?x\<lparr>requests := (requests ?x @ [(sample_job, Starting)]) @ [(sample_job, Starting)]\<rparr>)"
    by (rule reach_step, rule reach_step, rule reach_start, rule start, rule b) (use b [of "?x\<lparr>requests := requests ?x @ [(sample_job, Starting)]\<rparr>"] in simp)
  then show ?thesis by (simp add: two_requests_def)
qed

text \<open>Both miss; request 0 gets the lock, looks again and calls the backend; request 1 is refused and looks at the shared cache.\<close>

definition both_miss :: "nat list" where
  "both_miss = [0, 0, 1, 1, 0, 0, 0, 0]"

definition one_calls :: "mini herd" where
  "one_calls = the (herd_run both_miss (two_requests empty_mini))"

lemma one_calls_facts:
  "herd_run both_miss (two_requests empty_mini) \<noteq> None"
  "map (calling \<circ> snd) (requests one_calls) = [True, False]" "map (owner_token \<circ> snd) (requests one_calls) = [Some (token_name 1), None]"
  "wasted one_calls = 0" "lost one_calls = 0" "in_lease mini_view one_calls 0" "calls_of sample_key (gateways one_calls) = 1"
  by code_simp+

theorem herd_calls_backend_once_witness:
  "map (calling \<circ> snd) (requests one_calls) = [True, False] \<and> calls_of sample_key (gateways one_calls) \<le> 1"
proof -
  have "herd_run both_miss (two_requests empty_mini) = Some one_calls" using one_calls_facts(1) by (simp add: one_calls_def)
  then have "reaches (herd_start mini_env mini_view sample_key) (herd_step mini_env mini_view sample_key) one_calls"
    using herd_run_reaches two_requests_reached by blast
  moreover have "sample_key = CHR ''/'' # ''api/backend/7''" by (simp add: sample_key_def)
  ultimately have once: "calls_of sample_key (gateways one_calls) \<le> 1 + wasted one_calls + lost one_calls +
      card {i. i < length (requests one_calls) \<and> calling (snd (requests one_calls ! i)) \<and> \<not> in_lease mini_view one_calls i}"
    by (intro herd_calls_backend_once [OF mini_world.fetch_world_axioms])
  have len: "length (requests one_calls) = 2" using arg_cong [OF one_calls_facts(2), of length] by simp
  have "\<not> calling (snd (requests one_calls ! 1))" using arg_cong [OF one_calls_facts(2), of "\<lambda>xs. xs ! 1"] len by simp
  then have none: "{i. i < length (requests one_calls) \<and> calling (snd (requests one_calls ! i)) \<and> \<not> in_lease mini_view one_calls i} = {}"
    using one_calls_facts(6) len by (auto simp: less_2_cases_iff) (metis gr0I)
  show ?thesis using once one_calls_facts(2) unfolding none one_calls_facts(4,5) by simp
qed

section \<open>Why the owner has to answer within its lease\<close>

definition herd_turns :: "nat list \<Rightarrow> mini herd \<Rightarrow> mini herd" where
  "herd_turns is x = fold (fetch_turn mini_env mini_view sample_key) is x"

definition later :: "duration \<Rightarrow> mini herd \<Rightarrow> mini herd" where
  "later d x = x\<lparr>gateways := (gateways x)\<lparr>world := advance d (world (gateways x))\<rparr>\<rparr>"

text \<open>A backend that answers a millisecond before the timeout of two seconds, and a lookup that takes five milliseconds.\<close>

definition overtaken_owner :: "mini herd" where
  "overtaken_owner = herd_turns [1, 1, 1, 1, 1, 1, 1] (herd_turns [0, 0, 0, 0, 0] (later (5 * millisecond)
     (herd_turns [0, 0] (two_requests (empty_mini\<lparr>m_backend := [(1999 * millisecond, Answered 200 ''slow'')]\<rparr>)))))"

text \<open>
  The lease is the backend's timeout and two milliseconds, but it begins before the lookup of the owner and
  the timeout after it, and the store comes last. A call within its timeout can so outlive the lease: the next
  request calls the backend too, though neither call failed and nothing was lost.
\<close>

theorem lease_shorter_than_call:
  "map snd (requests overtaken_owner) =
     [Dating (token_name 1) (no_KeyValue\<lparr>Value := ''slow'', RecomputeDuration := 1999 * millisecond\<rparr>) 200,
      Dating (token_name 2) (no_KeyValue\<lparr>Value := ''/7'', RecomputeDuration := 0\<rparr>) 200] \<and>
   calls_of sample_key (gateways overtaken_owner) = 2 \<and> wasted overtaken_owner = 0 \<and> lost overtaken_owner = 0"
  by (intro conjI; code_simp)

end
