(* ===== verification/Spec2Isabelle.thy ===== *)
theory Spec2Isabelle
  imports Config_Handler Middleware Metrics Backend_Handler Backend_Latency Routing Provenance L2_Interleaving Controller_Cluster Fetch_Herd
begin

text \<open>
  A verification library for the distributed cache: gateways in front of a slow backend, each
  with a first-level cache in its process (L1), all with a second-level cache, a configuration
  and locks in a shared Redis. The Go code is under \<open>src/gateway\<close> and \<open>src/backend\<close>.

  \<^bold>\<open>How the program is modelled.\<close> A gateway operation is a function of the state monad of
  \<open>State_Monad\<close> on a record that holds the world outside (Redis, clock, random numbers, the proxy)
  as an abstract component of type \<open>'w\<close>, the metrics reported so far and the fields of the Go
  objects it uses: \<open>sys\<close> is extended to \<open>csys\<close> by the adaptive controller and to \<open>hsys\<close> by the
  rest of \<open>Handler\<close>. Every access to the world is a field of the record \<open>env\<close>, a parameter of the
  definitions. What Redis and the clock promise are the laws of locales (\<open>Environment\<close>); each
  locale is interpreted on \<open>Mini_Redis\<close>, a Redis with strings, expiry, sorted sets, transactions
  and scripts, on which all witnesses run. Errors are sums, panics the constructor \<open>Panic\<close> of
  \<open>go\<close>, and a result \<open>None\<close> says that a loop did not end within the rounds it was given.
  Integers are 64 bits wide where the code can overflow (\<open>wrap64\<close>, \<open>dur_mul\<close>), and \<open>float64\<close>
  numbers are rationals rounded after each operation (\<open>Float64\<close>: round to even, subnormal
  numbers; overflow to infinity and NaN are excluded by the hypotheses or given by a parameter).

  \<^bold>\<open>Theories and code.\<close>
  \<^item> \<open>Gw_Prelude\<close>, \<open>Float64\<close>, \<open>Environment\<close>, \<open>Mini_Redis\<close>: arithmetic, a small program logic
    (\<open>triple\<close>, \<open>keeps\<close>), reachability (\<open>inductive_invariant\<close>), the world and its laws.
  \<^item> \<open>Gateway_Types\<close>: \<open>cache_types.go\<close>, \<open>cache_config.go\<close> and the records of Redis.
  \<^item> \<open>Cache_Contract\<close>, \<open>L1_Cache\<close>: \<open>l1_cache.go\<close>, a map and a list under a mutex; refinement to a
    list of pairs in order of use, capacity, freshness.
  \<^item> \<open>L2_Cache\<close>: \<open>l2_cache.go\<close>; round trip, capacity, completeness of the index and of clearing.
  \<^item> \<open>Config_Store\<close>: \<open>gateway_config_store.go\<close>; versions, initialisation, histories of updates.
  \<^item> \<open>Backend_Fetcher\<close>: \<open>backend_fetcher.go\<close>, \<open>faf.go\<close> and the proxy that \<open>NewHandler\<close> sets up.
  \<^item> \<open>Lock_Contract\<close>, \<open>Distributed_Lock\<close>: \<open>distributed_lock.go\<close>; mutual exclusion of leases under
    all interleavings, crashes and lost replies, termination of the waiting loop, outcomes.
  \<^item> \<open>Adaptive_TTL\<close>: \<open>adaptive_ttl_controller.go\<close>; the control law in \<open>float64\<close> arithmetic, the
    snapshot shared through Redis, the controller's lock and loop, effective times to live.
  \<^item> \<open>Response_Writer\<close>: \<open>response_writer.go\<close>. \<open>Single_Flight\<close>: the calls of \<open>singleflight.go\<close> and a
    step relation for the requests that share them. \<open>Early_Refresh\<close>: \<open>early_refresh.go\<close>.
  \<^item> \<open>Handler\<close>: \<open>handler.go\<close> and the request side of \<open>singleflight.go\<close>, composed of all the above;
    what a request answers, reports and stores on each path. \<open>Config_Handler\<close>:
    \<open>cache_config_handler.go\<close>. \<open>Middleware\<close>: \<open>middleware.go\<close> and the route of \<open>main.go\<close>.
  \<^item> \<open>Load_Signals\<close>: \<open>backend/handler/load_signals.go\<close>; the window as a filter of the history, the
    percentile as a nearest rank, its meaning for the gateway's controller. \<open>Backend_Handler\<close>:
    \<open>backend/handler/handler.go\<close>, \<open>fault.go\<close>, \<open>backend_config.go\<close> and \<open>service.go\<close> as atomic steps
    of concurrent requests; slots, replies, progress, faults. \<open>Backend_Latency\<close>: how long an
    entity takes in any run, and what that makes of the readings of \<open>/load\<close>.
  \<^item> \<open>L2_Interleaving\<close>: the operations of \<open>l2_cache.go\<close> one Redis command at a time; that running
    the commands alone is the operation, and what survives when gateways interleave them.
  \<^item> \<open>Fetch_Herd\<close>: the requests of all gateways for one key, one Redis command or backend call at a
    time; what the key's lock is for, a bound on the calls of the backend.
  \<^item> \<open>Controller_Cluster\<close>: the rounds of all gateways' adaptive controllers, one command at a time;
    within their leases they refine a single controller.
  \<^item> \<open>Provenance\<close>: all gateways of a cluster, whole requests, configuration changes and controller
    rounds in any order over one shared Redis; whatever reaches a client was made by the backend
    for that address or is one of the error messages of the code.
  \<^item> \<open>Routing\<close>: both \<open>main.go\<close>, the start of a gateway, the route tables and the middlewares and CORS
    around them; the way of a request from the client to the step of the backend it causes.
  \<^item> \<open>Metrics\<close>: \<open>gateway/metrics.go\<close> and \<open>backend/handler/metrics.go\<close>; registration does not
    panic, and every reported event lands on a registered collector that supports it.

  The end of this theory composes the two sides of the feedback loop.

  \<^bold>\<open>Concurrency.\<close> Where goroutines and processes interact the model has explicit steps, and the
  property is an invariant of the reachable states: leases of a lock (\<open>lock_step\<close>), joined calls
  (\<open>flight_step\<close>), requests of the backend (\<open>backend_step\<close>). The caches are used under a mutex
  (L1) or by single Redis commands; the properties of \<open>L1_Cache\<close> and \<open>L2_Cache\<close> hold for every
  sequence of operations, and \<open>L2_Interleaving\<close> has the step relation \<open>l2_race\<close> of the single
  commands, where \<open>l2_stores_keep_index\<close> holds for stores and hits and three theorems show runs
  with misses, clears and overlapping evictions that break what holds of sequences. Rounds of the
  adaptive controllers interleave in \<open>round_step\<close>, where every gateway runs one round at a time and an
  owner acts only within its lease; \<open>late_owner_overwrites\<close> shows what happens otherwise.
  Requests for one key interleave in \<open>herd_step\<close> while everything else may evict and clear; the number
  of backend calls is \<open>herd_calls_backend_once\<close>, again for owners within their lease, and
  \<open>lease_shorter_than_call\<close> shows that the code does not see to that.
  A whole request (\<open>ServeHTTP\<close>, \<open>updateCacheConfig\<close>) is one sequential program whose
  world may change between any two accesses in whatever way \<open>env\<close> allows; theorems that need a
  quiet world say so by their hypotheses. \<open>cluster_step\<close> runs such programs one after the other,
  each on any gateway; what another process does meanwhile is its relation \<open>other\<close>, restricted
  by the laws of \<open>fleet\<close>.

  \<^bold>\<open>Bounds.\<close> The waiting loop of \<open>fetchWithDistributedLock\<close> and the retry loop of \<open>Reset\<close> take a
  number of rounds; \<open>distributed_fetch_returns\<close> and \<open>accepted_config_returns\<close> show how many are
  enough. Percentiles are exact up to \<open>2 ^ 40\<close> samples, durations up to \<open>2 ^ 53\<close> nanoseconds.

  \<^bold>\<open>Assumptions.\<close> Each Redis key is used with one type, as the code does, so \<open>WRONGTYPE\<close> replies
  do not occur; JSON encodes and decodes its own output; the wall clock and the monotonic clock
  agree; requests of one process see one clock. The router tries the routes in the order they were
  added (\<open>mux\<close>), on paths in canonical form; CORS passes on what is no preflight request. The keys of
  cached values are distinct from the keys the code keeps its own data under, as they start with
  \<open>/api/backend\<close> (\<open>user_key\<close>).

  \<^bold>\<open>Not modelled.\<close> The listening sockets in \<open>main.go\<close>, parsing of the backend's URL, logging, the tests,
  the Angular frontend, the load generators and experiments, and the Docker, nginx, Prometheus and
  Grafana configuration.
\<close>

section \<open>From the backend's load to the gateways' times to live\<close>

text \<open>What a controller makes of a sequence of readings of \<open>/load\<close>, oldest first.\<close>

definition poll :: "GatewayConfig \<Rightarrow> time \<times> int \<times> int \<times> latencySample list \<Rightarrow> AdaptiveTTLController \<Rightarrow> AdaptiveTTLController" where
  "poll config = (\<lambda>(instant, capacity, active, samples).
     processSignals config (as_decoded (fst (load_signals instant capacity active samples))))"

lemma polls_are_readings:
  "fold (poll config) polls ctl =
     run_signals config (map (\<lambda>(instant, capacity, active, samples).
       as_decoded (fst (load_signals instant capacity active samples))) polls) ctl"
  by (induction polls arbitrary: ctl) (auto simp: poll_def run_signals_def)

text \<open>
  C14. The two halves of the feedback loop together: while every reading falls on a window in which
  more than one request in a hundred took the threshold or longer, the backend's percentile and
  the gateway's control law drive the factor of the times to live to its maximum.
\<close>

theorem slow_backend_raises_ttls:
  assumes "0 < AdaptiveTTLMinFactor config" and "AdaptiveTTLMinFactor config \<le> AdaptiveTTLMaxFactor config"
    and "AdaptiveTTLMaxFactor config \<le> 1000"
    and "0 \<le> AdaptiveTTLLatencyThresholdMs config" and "AdaptiveTTLLatencyThresholdMs config \<le> 2 ^ 31"
    and "list_all (\<lambda>(instant, capacity, active, samples). slow_window config instant samples) polls"
    and "polls \<noteq> []" and "2 * k \<le> length polls"
    and "AdaptiveTTLMaxFactor config - AdaptiveTTLMinFactor config \<le> of_nat k * (14 / 100)"
    and "counters_ok ctl"
  shows "currentFactor (fold (poll config) polls ctl) = AdaptiveTTLMaxFactor config"
proof -
  let ?gs = "map (\<lambda>(instant, capacity, active, samples). as_decoded (fst (load_signals instant capacity active samples))) polls"
  have "list_all (congested config) ?gs"
    using assms(6) slow_window_congested [OF _ assms(4,5)] by (fastforce simp: list_all_iff)
  then show ?thesis unfolding polls_are_readings using assms by (intro congested_maximum [where k = k]) simp_all
qed

theorem slow_backend_raises_ttls_witness:
  "currentFactor (fold (poll sample_config) (replicate 50 (second, 15, 1, slow_samples)) NewAdaptiveTTLController) = 4"
proof -
  have "slow_window sample_config second slow_samples"
    by (simp add: slow_window_def slow_samples_ok filter_replicate sample_config_def list_all_iff)
  moreover have "counters_ok NewAdaptiveTTLController" by (simp add: counters_ok_def NewAdaptiveTTLController_def)
  ultimately show ?thesis
    using slow_backend_raises_ttls [of sample_config "replicate 50 (second, 15, 1, slow_samples)" 25 NewAdaptiveTTLController]
    by (simp add: sample_factors list_all_iff) (simp add: sample_config_def)
qed

end
